(* ===== verification/Lv_Prelude.thy ===== *)
theory Lv_Prelude
  imports Main "HOL-Library.Word" "HOL-Library.List_Lexorder"
begin

text \<open>
  Shared vocabulary of the development: the Go types (bytes, fixed-width
  integers), the error values of \<^verbatim>\<open>errors.go\<close>, and the parts of Go's standard
  library that the storage engine is written against: \<^verbatim>\<open>bytes.Compare\<close>,
  \<^verbatim>\<open>binary.LittleEndian\<close>, \<^verbatim>\<open>binary.AppendUvarint\<close> / \<^verbatim>\<open>binary.Uvarint\<close> and their
  signed variants.  The generic lemmas the components share (round trips of the
  integer encodings, the order given by \<^verbatim>\<open>bytes.Compare\<close>) are collected in
  \<open>codec_simps\<close> and \<open>order_simps\<close>.
\<close>

unbundle bit_operations_syntax

named_theorems codec_simps "round trips and lengths of the integer encodings"
named_theorems order_simps "bytes.Compare and internal-key comparison as orders"

section \<open>Types\<close>

type_synonym byte = "8 word"
type_synonym bytes = "byte list"
type_synonym u16 = "16 word"
type_synonym u32 = "32 word"
type_synonym u64 = "64 word"

text \<open>
  A Go \<^verbatim>\<open>int64\<close> is an \<open>int\<close>; the conversions \<^verbatim>\<open>uint64(x)\<close> and \<^verbatim>\<open>int64(w)\<close> are
  \<open>word_of_int\<close> and \<open>sint\<close>.  Slice lengths are \<open>nat\<close>; \<^verbatim>\<open>uint64(len(x))\<close> is
  \<open>word_of_nat\<close>.
\<close>

definition int64_range :: "int \<Rightarrow> bool" where
  "int64_range x \<longleftrightarrow> - (2 ^ 63) \<le> x \<and> x < 2 ^ 63"

datatype error =
    Errorf string
  | Wrapped string error
  | ErrNotFound
  | ErrClosed
  | ErrReadOnly
  | ErrEmptyKey
  | ErrEntryTooLarge
  | ErrBatchTooLarge
  | ErrInvalidTTL
  | ErrInvalidRange
  | ErrIngestRangeDeletes
  | ErrRetentionExpired
  | ErrFileNumberExhausted
  | IoEOF
  | IoShortWrite
  | IoError
  | OsErrClosed
  | ErrJournalCorrupt
  | ErrWALStop
  | GoPanic string

type_synonym 'a result = "error + 'a"

text \<open>The \<^verbatim>\<open>if err != nil { return err }\<close> idiom: go on with the value of a call that succeeded.\<close>

definition try_then :: "'a result \<Rightarrow> ('a \<Rightarrow> 'b result) \<Rightarrow> 'b result" where
  "try_then r f = (case r of Inl err \<Rightarrow> Inl err | Inr x \<Rightarrow> f x)"

lemma try_then_simps [simp]: "try_then (Inl err) f = Inl err" "try_then (Inr x) f = f x"
  by (simp_all add: try_then_def)

lemma try_then_Inr: "try_then r f = Inr y \<longleftrightarrow> (\<exists>x. r = Inr x \<and> f x = Inr y)"
  by (cases r) simp_all

lemma try_then_cong [fundef_cong]:
  "r = r' \<Longrightarrow> (\<And>x. r' = Inr x \<Longrightarrow> f x = g x) \<Longrightarrow> try_then r f = try_then r' g"
  by (cases r) auto

section \<open>bytes.Compare\<close>

fun bytes_compare :: "bytes \<Rightarrow> bytes \<Rightarrow> int" where
  "bytes_compare [] [] = 0"
| "bytes_compare [] (_ # _) = - 1"
| "bytes_compare (_ # _) [] = 1"
| "bytes_compare (a # as) (b # bs) =
     (if a < b then - 1 else if b < a then 1 else bytes_compare as bs)"

lemma bytes_compare_lt [order_simps]: "bytes_compare a b < 0 \<longleftrightarrow> a < b"
  by (induction a b rule: bytes_compare.induct) auto

lemma bytes_compare_eq [order_simps]: "bytes_compare a b = 0 \<longleftrightarrow> a = b"
  by (induction a b rule: bytes_compare.induct) auto

lemma bytes_compare_gt [order_simps]: "0 < bytes_compare a b \<longleftrightarrow> b < a"
  using bytes_compare_lt [of a b] bytes_compare_eq [of a b] by (auto simp: not_less_iff_gr_or_eq)

lemma bytes_compare_ge [order_simps]: "0 \<le> bytes_compare a b \<longleftrightarrow> b \<le> a"
  using bytes_compare_lt [of a b] by (simp add: not_less [symmetric])

lemma bytes_compare_le [order_simps]: "bytes_compare a b \<le> 0 \<longleftrightarrow> a \<le> b"
  using bytes_compare_gt [of a b] by (simp add: not_less [symmetric])

section \<open>Little-endian integers\<close>

text \<open>
  \<^verbatim>\<open>binary.LittleEndian.PutUint16/32/64\<close> write \<open>n = 2, 4, 8\<close> bytes; the
  readers combine the bytes with shifts and \<^verbatim>\<open>|\<close>.
\<close>

fun put_le :: "nat \<Rightarrow> 'a::len word \<Rightarrow> bytes" where
  "put_le 0 w = []"
| "put_le (Suc n) w = ucast w # put_le n (drop_bit 8 w)"

fun get_le :: "bytes \<Rightarrow> 'a::len word" where
  "get_le [] = 0"
| "get_le (b # bs) = ucast b OR push_bit 8 (get_le bs)"

definition PutUint16 :: "u16 \<Rightarrow> bytes" where "PutUint16 = put_le 2"
definition PutUint32 :: "u32 \<Rightarrow> bytes" where "PutUint32 = put_le 4"
definition PutUint64 :: "u64 \<Rightarrow> bytes" where "PutUint64 = put_le 8"
definition Uint16 :: "bytes \<Rightarrow> u16" where "Uint16 b = get_le (take 2 b)"
definition Uint32 :: "bytes \<Rightarrow> u32" where "Uint32 b = get_le (take 4 b)"
definition Uint64 :: "bytes \<Rightarrow> u64" where "Uint64 b = get_le (take 8 b)"

lemma length_put_le [simp, codec_simps]: "length (put_le n w) = n"
  by (induction n arbitrary: w) auto

lemma get_le_put_le: "get_le (put_le n (w :: 'a::len word)) = take_bit (8 * n) w"
proof (induction n arbitrary: w)
  case 0
  then show ?case by simp
next
  case (Suc n)
  have "(ucast (ucast w :: byte) :: 'a word) OR push_bit 8 (take_bit (8 * n) (drop_bit 8 w))
      = take_bit (8 * Suc n) w"
    by (rule bit_word_eqI) (auto simp: bit_simps)
  with Suc show ?case by simp
qed

lemma put_le_get_le:
  "8 * length bs \<le> LENGTH('a::len) \<Longrightarrow> put_le (length bs) (get_le bs :: 'a word) = bs"
proof (induction bs)
  case Nil
  then show ?case by simp
next
  case (Cons b bs)
  have len: "8 + 8 * length bs \<le> LENGTH('a)" using Cons.prems by simp
  have hd: "(ucast (ucast b OR push_bit 8 (get_le bs) :: 'a word) :: byte) = b"
    using len by (intro bit_word_eqI) (auto simp: bit_simps)
  have bound: "\<not> bit (get_le bs :: 'a word) n" if "8 * length bs \<le> n" for n
    using that
  proof (induction bs arbitrary: n)
    case (Cons b bs)
    then show ?case
      by (auto simp: bit_simps dest: bit_imp_le_length)
  qed simp
  have "drop_bit 8 (ucast b OR push_bit 8 (get_le bs) :: 'a word) = get_le bs"
  proof (rule bit_word_eqI)
    fix n assume "n < LENGTH('a)"
    show "bit (drop_bit 8 (ucast b OR push_bit 8 (get_le bs) :: 'a word)) n = bit (get_le bs :: 'a word) n"
      using len bound [of n] \<open>n < LENGTH('a)\<close>
      by (auto simp: bit_simps dest: bit_imp_le_length)
  qed
  with hd Cons show ?case by simp
qed

lemma length_PutUint [simp, codec_simps]:
  "length (PutUint16 v) = 2" "length (PutUint32 w) = 4" "length (PutUint64 x) = 8"
  by (simp_all add: PutUint16_def PutUint32_def PutUint64_def)

lemma Uint_PutUint [simp, codec_simps]:
  "Uint16 (PutUint16 v @ r) = v" "Uint32 (PutUint32 w @ r) = w" "Uint64 (PutUint64 x @ r) = x"
  by (simp_all add: PutUint16_def PutUint32_def PutUint64_def Uint16_def Uint32_def Uint64_def
      get_le_put_le take_bit_word_eq_self)

lemma Uint_PutUint_Nil [simp, codec_simps]:
  "Uint16 (PutUint16 v) = v" "Uint32 (PutUint32 w) = w" "Uint64 (PutUint64 x) = x"
  using Uint_PutUint [where r = "[]"] by simp_all

lemma PutUint64_Uint64: "length b = 8 \<Longrightarrow> PutUint64 (Uint64 b) = b"
  using put_le_get_le [where 'a = 64 and bs = b] by (simp add: PutUint64_def Uint64_def)

lemma PutUint32_Uint32: "length b = 4 \<Longrightarrow> PutUint32 (Uint32 b) = b"
  using put_le_get_le [where 'a = 32 and bs = b] by (simp add: PutUint32_def Uint32_def)

section \<open>Variable-length integers\<close>

text \<open>
  \<^verbatim>\<open>binary.AppendUvarint(buf, x)\<close> is \<open>buf @ put_uvarint x\<close>.  \<open>Uvarint\<close> returns the
  value and the number of bytes read; the number is \<open>0\<close> for a truncated buffer
  and negative on overflow, as in \<^verbatim>\<open>encoding/binary\<close>.
\<close>

function put_uvarint :: "u64 \<Rightarrow> bytes" where
  "put_uvarint x =
     (if 0x80 \<le> x then (ucast x OR 0x80) # put_uvarint (drop_bit 7 x) else [ucast x])"
  by pat_completeness auto
termination
proof (relation "measure unat")
  fix x :: u64
  assume "0x80 \<le> x"
  then have "0x80 \<le> unat x" by (simp add: word_le_nat_alt)
  moreover have "unat (drop_bit 7 x) = unat x div 128"
    by (subst unat_drop_bit_eq) (simp add: drop_bit_eq_div)
  ultimately show "(drop_bit 7 x, x) \<in> measure unat" by simp
qed simp

declare put_uvarint.simps [simp del]

fun uvarint_loop :: "nat \<Rightarrow> u64 \<Rightarrow> bytes \<Rightarrow> u64 \<times> int" where
  "uvarint_loop i x [] = (0, 0)"
| "uvarint_loop i x (b # bs) =
     (if i = 10 then (0, - (int i + 1))
      else if b < 0x80 then
        (if i = 9 \<and> 1 < b then (0, - (int i + 1))
         else (x OR push_bit (7 * i) (ucast b), int i + 1))
      else uvarint_loop (Suc i) (x OR push_bit (7 * i) (ucast (b AND 0x7f))) bs)"

definition Uvarint :: "bytes \<Rightarrow> u64 \<times> int" where
  "Uvarint b = uvarint_loop 0 0 b"

lemma put_uvarint_not_Nil [simp]: "put_uvarint x \<noteq> []"
  by (subst put_uvarint.simps) simp

lemma length_put_uvarint_pos [simp]: "0 < length (put_uvarint x)"
  by simp

lemma put_uvarint_small: "x < 0x80 \<Longrightarrow> put_uvarint x = [ucast x]"
  by (subst put_uvarint.simps) (simp add: linorder_not_le [symmetric])

lemma put_uvarint_big:
  "0x80 \<le> x \<Longrightarrow> put_uvarint x = (ucast x OR 0x80) # put_uvarint (drop_bit 7 x)"
  by (subst put_uvarint.simps) simp

lemma and_7f: "(x :: byte) AND 0x7f = take_bit 7 x"
  using take_bit_eq_mask [of 7 x] by (simp add: mask_numeral)

lemma low7_split:
  fixes v :: u64
  shows "ucast ((ucast v OR 0x80 :: byte) AND 0x7f) OR push_bit 7 (drop_bit 7 v) = v"
proof -
  have a: "(ucast v OR 0x80 :: byte) AND 0x7f = take_bit 7 (ucast v)"
    by (simp add: and_7f)
  show ?thesis unfolding a
  proof (rule bit_word_eqI)
    fix n assume "n < LENGTH(64)"
    then show "bit (ucast (take_bit 7 (ucast v :: byte)) OR push_bit 7 (drop_bit 7 v)) n = bit v n"
      by (cases "n < 7") (auto simp: bit_simps)
  qed
qed

lemma unat_drop_bit7: "unat (drop_bit 7 (v :: u64)) = unat v div 128"
  by (subst unat_drop_bit_eq) (simp add: drop_bit_eq_div)

lemma msb_set: "\<not> (y OR 0x80 :: byte) < 0x80"
  using le_word_or1 [of "0x80 :: byte" y] by (simp add: not_less)

lemma ucast_small_lt: "v < 0x80 \<Longrightarrow> (ucast (v :: u64) :: byte) < 0x80"
  by (simp add: word_less_nat_alt unsigned_ucast_eq take_bit_nat_eq_self)

lemma ucast_ucast_small: "v < 0x80 \<Longrightarrow> ucast (ucast (v :: u64) :: byte) = v"
  by (simp add: word_unat_eq_iff word_less_nat_alt unsigned_ucast_eq unsigned_take_bit_eq take_bit_nat_eq_self)

lemma uvarint_loop_put:
  "unat v < 2 ^ (64 - 7 * i) \<Longrightarrow> i \<le> 9 \<Longrightarrow>
   uvarint_loop i a (put_uvarint v @ r) = (a OR push_bit (7 * i) v, int (i + length (put_uvarint v)))"
proof (induction v arbitrary: i a rule: put_uvarint.induct)
  case (1 v)
  show ?case
  proof (cases "0x80 \<le> v")
    case True
    then have v: "128 \<le> unat v" by (simp add: word_le_nat_alt)
    have i: "i < 9"
    proof (rule ccontr)
      assume "\<not> i < 9"
      with "1.prems" have "i = 9" by simp
      with "1.prems"(1) v show False by simp
    qed
    have lt: "unat (drop_bit 7 v) < 2 ^ (64 - 7 * Suc i)"
    proof -
      define k where "k = 64 - 7 * Suc i"
      have "64 - 7 * i = 7 + k" using i by (simp add: k_def)
      with "1.prems"(1) have "unat v < 2 ^ (7 + k)" by metis
      then have "unat v < 2 ^ k * 128" by (simp add: power_add)
      then show ?thesis unfolding unat_drop_bit7 k_def [symmetric]
        by (rule less_mult_imp_div_less)
    qed
    have step: "a OR push_bit (7 * i) (ucast ((ucast v OR 0x80 :: byte) AND 0x7f))
                  OR push_bit (7 * Suc i) (drop_bit 7 v) = a OR push_bit (7 * i) v"
    proof -
      have "push_bit (7 * Suc i) (drop_bit 7 v) = push_bit (7 * i) (push_bit 7 (drop_bit 7 v))"
        by (simp add: add.commute)
      then show ?thesis
        by (simp only: or.assoc push_bit_or [symmetric] low7_split)
    qed
    have "uvarint_loop i a (put_uvarint v @ r)
        = uvarint_loop (Suc i) (a OR push_bit (7 * i) (ucast ((ucast v OR 0x80 :: byte) AND 0x7f)))
            (put_uvarint (drop_bit 7 v) @ r)"
      using i by (simp add: put_uvarint_big [OF True] msb_set del: push_bit_or)
    also have "\<dots> = (a OR push_bit (7 * i) v, int (i + length (put_uvarint v)))"
      using "1.IH" [OF True lt] i step by (simp add: put_uvarint_big [OF True] or.assoc)
    finally show ?thesis .
  next
    case False
    then have v: "v < 0x80" by simp
    have "\<not> (i = 9 \<and> 1 < (ucast v :: byte))"
      using "1.prems"(1) v by (auto simp: word_less_nat_alt unsigned_ucast_eq take_bit_nat_eq_self)
    with "1.prems" v show ?thesis
      by (auto simp: put_uvarint_small ucast_small_lt ucast_ucast_small)
  qed
qed

lemma Uvarint_put [simp, codec_simps]:
  "Uvarint (put_uvarint x @ r) = (x, int (length (put_uvarint x)))"
  using uvarint_loop_put [of x 0 0 r] unsigned_less [of x, where ?'a = nat] by (simp add: Uvarint_def)

lemma Uvarint_put_Nil [simp, codec_simps]:
  "Uvarint (put_uvarint x) = (x, int (length (put_uvarint x)))"
  using Uvarint_put [of x "[]"] by simp

lemma uvarint_loop_bound:
  "0 < snd (uvarint_loop i a b) \<Longrightarrow>
   int i < snd (uvarint_loop i a b) \<and> snd (uvarint_loop i a b) \<le> int i + int (length b)"
proof (induction b arbitrary: i a)
  case Nil
  then show ?case by simp
next
  case (Cons b bs)
  show ?case
  proof (cases "i = 10 \<or> b < 0x80")
    case True
    with Cons.prems show ?thesis by (auto split: if_splits)
  next
    case False
    with Cons.prems Cons.IH [of "Suc i" "a OR push_bit (7 * i) (ucast (b AND 0x7f))"]
    show ?thesis by simp
  qed
qed

lemma Uvarint_bound:
  assumes "Uvarint b = (x, n)" "0 < n"
  shows "1 \<le> nat n \<and> nat n \<le> length b"
proof -
  have "snd (uvarint_loop 0 0 b) = n" using assms(1) by (simp add: Uvarint_def)
  with uvarint_loop_bound [of 0 0 b] assms(2) show ?thesis by linarith
qed

lemma length_put_uvarint_le:
  "unat v < 2 ^ (7 * Suc k) \<Longrightarrow> length (put_uvarint v) \<le> Suc k"
proof (induction v arbitrary: k rule: put_uvarint.induct)
  case (1 v)
  show ?case
  proof (cases "0x80 \<le> v")
    case True
    then have v: "128 \<le> unat v" by (simp add: word_le_nat_alt)
    then obtain k' where k: "k = Suc k'" using "1.prems" by (cases k) auto
    then have "unat (drop_bit 7 v) < 2 ^ (7 * Suc k')"
      using "1.prems" unfolding unat_drop_bit7 k
      by (simp add: less_mult_imp_div_less power_add)
    from "1.IH" [OF True this] show ?thesis
      by (simp add: put_uvarint_big [OF True] k)
  next
    case False
    then show ?thesis by (simp add: put_uvarint_small)
  qed
qed

lemma length_put_uvarint_10: "length (put_uvarint v) \<le> 10"
  using length_put_uvarint_le [of v 9] unsigned_less [of v, where ?'a = nat] by simp

text \<open>\<^verbatim>\<open>binary.AppendVarint\<close> and \<^verbatim>\<open>binary.Varint\<close>: zig-zag over the unsigned form.\<close>

definition put_varint :: "int \<Rightarrow> bytes" where
  "put_varint x =
     (let ux = push_bit 1 (word_of_int x :: u64)
      in put_uvarint (if x < 0 then NOT ux else ux))"

definition Varint :: "bytes \<Rightarrow> int \<times> int" where
  "Varint b =
     (let (ux, n) = Uvarint b; x = sint (drop_bit 1 ux)
      in (if ux AND 1 \<noteq> 0 then NOT x else x, n))"

lemma zigzag_even: "push_bit 1 (word_of_int x :: u64) AND 1 = 0"
  by (rule bit_word_eqI) (auto simp: bit_simps simp del: push_bit_Suc One_nat_def)

lemma zigzag_odd: "NOT (push_bit 1 (word_of_int x :: u64)) AND 1 \<noteq> 0"
proof -
  have "bit (NOT (push_bit 1 (word_of_int x :: u64)) AND 1) 0"
    by (simp add: bit_simps del: push_bit_Suc One_nat_def)
  then show ?thesis by (auto simp del: push_bit_Suc One_nat_def)
qed

lemma zigzag_pos: "0 \<le> x \<Longrightarrow> x < 2 ^ 63 \<Longrightarrow> sint (drop_bit 1 (push_bit 1 (word_of_int x :: u64))) = x"
proof -
  assume x: "0 \<le> x" "x < 2 ^ 63"
  have "drop_bit 1 (push_bit 1 (word_of_int x :: u64)) = take_bit 63 (word_of_int x)"
    by (rule bit_word_eqI) (auto simp: bit_simps simp del: push_bit_Suc One_nat_def)
  also have "\<dots> = word_of_int (take_bit 63 x)"
    by (simp add: take_bit_word_eq_self take_bit_of_int)
  also have "take_bit 63 x = x" using x by (simp add: take_bit_int_eq_self)
  finally show ?thesis using x by (simp add: signed_of_int signed_take_bit_int_eq_self)
qed

lemma zigzag_neg:
  assumes "x < 0" "- (2 ^ 63) \<le> x"
  shows "sint (drop_bit 1 (NOT (push_bit 1 (word_of_int x :: u64)))) = NOT x"
proof -
  have "drop_bit 1 (NOT (push_bit 1 (word_of_int x :: u64)))
      = drop_bit 1 (push_bit 1 (word_of_int (NOT x)))"
    by (rule bit_word_eqI) (auto simp: bit_simps simp del: push_bit_Suc One_nat_def)
  also have "sint \<dots> = NOT x"
    using assms by (intro zigzag_pos) (auto simp: not_int_def)
  finally show ?thesis .
qed

lemma Varint_put [simp, codec_simps]:
  "int64_range x \<Longrightarrow> Varint (put_varint x @ r) = (x, int (length (put_varint x)))"
  by (cases "x < 0")
     (auto simp: Varint_def put_varint_def Let_def int64_range_def zigzag_even zigzag_odd zigzag_pos zigzag_neg
       simp del: push_bit_Suc One_nat_def)

lemma Varint_bound: "Varint b = (x, n) \<Longrightarrow> 0 < n \<Longrightarrow> 1 \<le> nat n \<and> nat n \<le> length b"
  by (cases "Uvarint b") (auto simp: Varint_def Let_def dest: Uvarint_bound split: if_splits)

lemma Varint_range: "Varint b = (x, n) \<Longrightarrow> int64_range x"
proof (cases "Uvarint b")
  case (Pair u m)
  assume "Varint b = (x, n)"
  with Pair have "x = NOT (sint (drop_bit 1 u)) \<or> x = sint (drop_bit 1 u)"
    by (auto simp: Varint_def Let_def split: if_splits)
  moreover have "- (2 ^ 63) \<le> sint (drop_bit 1 u)" "sint (drop_bit 1 u) < 2 ^ 63"
    using sint_greater_eq [of "drop_bit 1 u"] sint_less [of "drop_bit 1 u"] by simp_all
  ultimately show ?thesis by (auto simp: int64_range_def not_int_def)
qed

lemma put_varint_not_Nil [simp]: "put_varint x \<noteq> []"
  by (simp add: put_varint_def Let_def)

section \<open>CRC-32C\<close>

text \<open>\<^verbatim>\<open>crc32.Update(crc, castagnoli, p)\<close>, bit by bit over the reflected polynomial.\<close>

definition crc_shift :: "u32 \<Rightarrow> u32" where
  "crc_shift c = (if c AND 1 = 1 then drop_bit 1 c XOR 0x82f63b78 else drop_bit 1 c)"

definition crc_byte :: "u32 \<Rightarrow> byte \<Rightarrow> u32" where
  "crc_byte c b = (crc_shift ^^ 8) (c XOR ucast b)"

definition crc32_Update :: "u32 \<Rightarrow> bytes \<Rightarrow> u32" where
  "crc32_Update crc p = NOT (foldl crc_byte (NOT crc) p)"

lemma crc32_Update_append: "crc32_Update (crc32_Update c p) q = crc32_Update c (p @ q)"
  by (simp add: crc32_Update_def)

section \<open>Files\<close>

text \<open>
  A file is its bytes.  \<^verbatim>\<open>os.File.ReadAt\<close> fills a buffer of \<open>n\<close> bytes from an
  offset: it fails on a negative offset and returns \<^verbatim>\<open>io.EOF\<close> when fewer bytes
  are there (an empty buffer reads nothing and never fails).

  Calls that can fail take their outcome from a schedule of outcomes, one per
  call in program order; an empty schedule means success from there on.  A failed
  write reports how many bytes reached the file.
\<close>

definition ReadAt :: "bytes \<Rightarrow> int \<Rightarrow> nat \<Rightarrow> bytes result" where
  "ReadAt file off n =
     (if off < 0 then Inl IoError
      else let b = take n (drop (nat off) file) in if length b < n then Inl IoEOF else Inr b)"

datatype io_outcome = IO_ok | IO_fail nat error

type_synonym io_sched = "io_outcome list"

fun io_next :: "io_sched \<Rightarrow> io_outcome \<times> io_sched" where
  "io_next [] = (IO_ok, [])"
| "io_next (x # xs) = (x, xs)"

lemma ReadAt_ok:
  "length pre = k \<Longrightarrow> length d = n \<Longrightarrow> ReadAt (pre @ d @ post) (int k) n = Inr d"
  by (simp add: ReadAt_def)

lemma ReadAt_append: "ReadAt f off n = Inr d \<Longrightarrow> ReadAt (f @ g) off n = Inr d"
  by (auto simp: ReadAt_def Let_def split: if_splits)

end
