(* ===== verification/Ikey.thy ===== *)
theory Ikey
  imports Lv_Prelude
begin

text \<open>
  Internal keys (\<^verbatim>\<open>ikey.go\<close>): the user key followed by the eight-byte
  little-endian trailer \<^verbatim>\<open>(seq << 8) | kind\<close>.  The functions that take an internal
  key apart slice off the last \<open>trailerLen\<close> bytes; Go panics on a shorter slice,
  so every lemma about them carries \<open>valid_ikey\<close>, the check the on-disk readers
  make before they compare.  The lemmas show that the parts of an encoded key
  come back, that \<open>ikeyCompare\<close> is a total order (user key ascending, trailer
  descending) and that a lookup key sorts at or before exactly the versions a
  reader at that sequence may see.
\<close>

section \<open>Comparators\<close>

text \<open>
  The contract sorting and merging code relies on: the sign of \<open>cmp\<close> is a total
  order on the keys that satisfy \<open>ok\<close>.
\<close>

locale comparator =
  fixes cmp :: "'k \<Rightarrow> 'k \<Rightarrow> int" and ok :: "'k \<Rightarrow> bool"
  assumes cmp_swap: "ok a \<Longrightarrow> ok b \<Longrightarrow> cmp a b < 0 \<longleftrightarrow> 0 < cmp b a"
    and cmp_zero: "ok a \<Longrightarrow> ok b \<Longrightarrow> cmp a b = 0 \<longleftrightarrow> a = b"
    and cmp_trans: "ok a \<Longrightarrow> ok b \<Longrightarrow> ok c \<Longrightarrow> cmp a b < 0 \<Longrightarrow> cmp b c < 0 \<Longrightarrow> cmp a c < 0"
begin

lemma cmp_refl: "ok a \<Longrightarrow> cmp a a = 0"
  by (simp add: cmp_zero)

lemma cmp_total: "ok a \<Longrightarrow> ok b \<Longrightarrow> cmp a b < 0 \<or> a = b \<or> cmp b a < 0"
  using cmp_swap [of b a] cmp_zero [of a b] by (auto simp: not_less_iff_gr_or_eq)

lemma cmp_le_trans:
  "ok a \<Longrightarrow> ok b \<Longrightarrow> ok c \<Longrightarrow> cmp a b \<le> 0 \<Longrightarrow> cmp b c \<le> 0 \<Longrightarrow> cmp a c \<le> 0"
  using cmp_trans [of a b c] cmp_zero by (metis order_le_less)

lemma cmp_less_le_trans:
  "ok a \<Longrightarrow> ok b \<Longrightarrow> ok c \<Longrightarrow> cmp a b < 0 \<Longrightarrow> cmp b c \<le> 0 \<Longrightarrow> cmp a c < 0"
  using cmp_trans [of a b c] cmp_zero by (metis order_le_less)

lemma cmp_le_less_trans:
  "ok a \<Longrightarrow> ok b \<Longrightarrow> ok c \<Longrightarrow> cmp a b \<le> 0 \<Longrightarrow> cmp b c < 0 \<Longrightarrow> cmp a c < 0"
  using cmp_trans [of a b c] cmp_zero by (metis order_le_less)

text \<open>A strictly ascending run, as the blocks and tables of the store hold it.\<close>

lemma sorted_wrt_distinct:
  "sorted_wrt (\<lambda>a b. cmp a b < 0) xs \<Longrightarrow> (\<And>x. x \<in> set xs \<Longrightarrow> ok x) \<Longrightarrow> distinct xs"
proof (induction xs)
  case (Cons x xs)
  have "x \<notin> set xs"
    using Cons.prems cmp_refl [of x] by fastforce
  with Cons show ?case by simp
qed simp

end

section \<open>Internal keys\<close>

type_synonym ikeyKind = byte

definition ikeyKindDelete :: ikeyKind where "ikeyKindDelete = 0"
definition ikeyKindSet :: ikeyKind where "ikeyKindSet = 1"
definition ikeyKindBlobRef :: ikeyKind where "ikeyKindBlobRef = 2"
definition ikeyKindSetTTL :: ikeyKind where "ikeyKindSetTTL = 3"

lemmas ikeyKind_defs = ikeyKindDelete_def ikeyKindSet_def ikeyKindBlobRef_def ikeyKindSetTTL_def

definition maxPersistedKind :: ikeyKind where "maxPersistedKind = ikeyKindSetTTL"

definition validIKeyKind :: "ikeyKind \<Rightarrow> bool" where
  "validIKeyKind kind \<longleftrightarrow> kind = ikeyKindDelete \<or> kind = ikeyKindSet
     \<or> kind = ikeyKindBlobRef \<or> kind = ikeyKindSetTTL"

definition trailerLen :: nat where "trailerLen = 8"

definition maxIKeySeq :: u64 where "maxIKeySeq = push_bit 56 1 - 1"

definition ikeyEncode :: "bytes \<Rightarrow> bytes \<Rightarrow> u64 \<Rightarrow> ikeyKind \<Rightarrow> bytes" where
  "ikeyEncode dst userKey seq kind = dst @ userKey @ PutUint64 (push_bit 8 seq OR ucast kind)"

definition ikeyUserKey :: "bytes \<Rightarrow> bytes" where
  "ikeyUserKey ik = take (length ik - trailerLen) ik"

definition ikeyTrailer :: "bytes \<Rightarrow> u64" where
  "ikeyTrailer ik = Uint64 (drop (length ik - trailerLen) ik)"

definition ikeySeqKind :: "bytes \<Rightarrow> u64 \<times> ikeyKind" where
  "ikeySeqKind ik = (let t = ikeyTrailer ik in (drop_bit 8 t, ucast (t AND 0xff)))"

definition ikeyCompare :: "bytes \<Rightarrow> bytes \<Rightarrow> int" where
  "ikeyCompare a b =
     (let ua = ikeyUserKey a; ub = ikeyUserKey b; c = bytes_compare ua ub
      in if c \<noteq> 0 then c
         else let ta = ikeyTrailer a; tb = ikeyTrailer b
              in if tb < ta then - 1 else if ta < tb then 1 else 0)"

definition ikeyLookupKey :: "bytes \<Rightarrow> bytes \<Rightarrow> u64 \<Rightarrow> bytes" where
  "ikeyLookupKey dst userKey seq = ikeyEncode dst userKey seq maxPersistedKind"

definition valid_ikey :: "bytes \<Rightarrow> bool" where
  "valid_ikey ik \<longleftrightarrow> trailerLen \<le> length ik"

section \<open>Taking an encoded key apart\<close>

abbreviation ikeySeq :: "bytes \<Rightarrow> u64" where "ikeySeq ik \<equiv> fst (ikeySeqKind ik)"
abbreviation ikeyKindOf :: "bytes \<Rightarrow> ikeyKind" where "ikeyKindOf ik \<equiv> snd (ikeySeqKind ik)"

lemma length_ikeyEncode [simp, codec_simps]:
  "length (ikeyEncode dst u s k) = length dst + length u + 8"
  by (simp add: ikeyEncode_def)

lemma valid_ikey_encode [simp]: "valid_ikey (ikeyEncode dst u s k)"
  by (simp add: valid_ikey_def trailerLen_def)

lemma ikeyUserKey_encode [simp, codec_simps]: "ikeyUserKey (ikeyEncode [] u s k) = u"
  by (simp add: ikeyUserKey_def ikeyEncode_def trailerLen_def)

lemma ikeyTrailer_encode [simp, codec_simps]:
  "ikeyTrailer (ikeyEncode [] u s k) = push_bit 8 s OR ucast k"
  by (simp add: ikeyTrailer_def ikeyEncode_def trailerLen_def)

lemma le_maxIKeySeq_unat: "s \<le> maxIKeySeq \<longleftrightarrow> unat s < 2 ^ 56"
  by (simp add: maxIKeySeq_def word_le_nat_alt push_bit_eq_mult) linarith

lemma le_maxIKeySeq: "s \<le> maxIKeySeq \<longleftrightarrow> take_bit 56 s = s"
  by (simp add: le_maxIKeySeq_unat word_unat_eq_iff unsigned_take_bit_eq take_bit_nat_eq_self_iff)

lemma trailer_seq: "s \<le> maxIKeySeq \<Longrightarrow> drop_bit 8 (push_bit 8 s OR ucast (k :: byte) :: u64) = s"
proof -
  assume "s \<le> maxIKeySeq"
  then have "take_bit 56 s = s" by (simp add: le_maxIKeySeq)
  then have hi: "n < 56" if "bit s n" for n using that by (metis bit_take_bit_iff)
  show ?thesis
  proof (rule bit_word_eqI)
    fix n assume "n < LENGTH(64)"
    then show "bit (drop_bit 8 (push_bit 8 s OR ucast k :: u64)) n = bit s n"
      using hi [of n] by (auto simp: bit_simps dest: bit_imp_le_length)
  qed
qed

lemma trailer_kind: "ucast ((push_bit 8 s OR ucast (k :: byte) :: u64) AND 0xff) = k"
proof -
  have ff: "(0xff :: u64) = mask 8" by (simp add: mask_numeral)
  show ?thesis unfolding ff by (rule bit_word_eqI) (auto simp: bit_simps)
qed

lemma ikeySeqKind_encode [simp, codec_simps]:
  "s \<le> maxIKeySeq \<Longrightarrow> ikeySeqKind (ikeyEncode [] u s k) = (s, k)"
  using trailer_seq [of s k] trailer_kind [of s k]
  by (simp add: ikeySeqKind_def Let_def del: drop_bit_or push_bit_or)

lemma trailer_split: "(t :: u64) = push_bit 8 (drop_bit 8 t) OR ucast (ucast (t AND 0xff) :: byte)"
proof -
  have ff: "(0xff :: u64) = mask 8" by (simp add: mask_numeral)
  show ?thesis unfolding ff
  proof (rule bit_word_eqI)
    fix n assume "n < LENGTH(64)"
    then show "bit t n = bit (push_bit 8 (drop_bit 8 t) OR ucast (ucast (t AND mask 8) :: byte)) n"
      by (cases "n < 8") (auto simp: bit_simps)
  qed
qed

text \<open>Every valid internal key is the encoding of its parts.\<close>

lemma ikeyEncode_parts:
  assumes "valid_ikey ik"
  shows "ikeyEncode [] (ikeyUserKey ik) (ikeySeq ik) (ikeyKindOf ik) = ik"
proof -
  have "PutUint64 (ikeyTrailer ik) = drop (length ik - trailerLen) ik"
    unfolding ikeyTrailer_def using assms
    by (intro PutUint64_Uint64) (simp add: valid_ikey_def trailerLen_def)
  then show ?thesis
    using trailer_split [of "ikeyTrailer ik"]
    by (simp add: ikeyEncode_def ikeySeqKind_def Let_def ikeyUserKey_def)
qed

lemma ikeySeq_le_max: "ikeySeq ik \<le> maxIKeySeq"
proof -
  have "take_bit 56 (drop_bit 8 t) = drop_bit 8 t" for t :: u64
    by (rule bit_word_eqI) (auto simp: bit_simps dest: bit_imp_le_length)
  then show ?thesis by (simp add: le_maxIKeySeq ikeySeqKind_def Let_def)
qed

section \<open>The order\<close>

lemma ikey_ext:
  "valid_ikey a \<Longrightarrow> valid_ikey b \<Longrightarrow> ikeyUserKey a = ikeyUserKey b \<Longrightarrow> ikeyTrailer a = ikeyTrailer b
   \<Longrightarrow> a = b"
  by (metis ikeyEncode_parts ikeySeqKind_def)

lemma ikeyCompare_lt [order_simps]:
  "ikeyCompare a b < 0 \<longleftrightarrow> ikeyUserKey a < ikeyUserKey b
     \<or> ikeyUserKey a = ikeyUserKey b \<and> ikeyTrailer b < ikeyTrailer a"
  by (auto simp: ikeyCompare_def Let_def order_simps)

lemma ikeyCompare_gt [order_simps]:
  "0 < ikeyCompare a b \<longleftrightarrow> ikeyUserKey b < ikeyUserKey a
     \<or> ikeyUserKey a = ikeyUserKey b \<and> ikeyTrailer a < ikeyTrailer b"
  by (auto simp: ikeyCompare_def Let_def order_simps)

lemma ikeyCompare_eq:
  "valid_ikey a \<Longrightarrow> valid_ikey b \<Longrightarrow> ikeyCompare a b = 0 \<longleftrightarrow> a = b"
  by (auto simp: ikeyCompare_def Let_def order_simps intro: ikey_ext split: if_splits)

lemma ikeyCompare_le [order_simps]:
  "ikeyCompare a b \<le> 0 \<longleftrightarrow> ikeyUserKey a < ikeyUserKey b
     \<or> ikeyUserKey a = ikeyUserKey b \<and> ikeyTrailer b \<le> ikeyTrailer a"
  using ikeyCompare_gt [of a b] by (auto simp: not_less [symmetric])

lemma ikeyCompare_ge [order_simps]:
  "0 \<le> ikeyCompare a b \<longleftrightarrow> ikeyUserKey b < ikeyUserKey a
     \<or> ikeyUserKey a = ikeyUserKey b \<and> ikeyTrailer a \<le> ikeyTrailer b"
  using ikeyCompare_lt [of a b] by (auto simp: not_less [symmetric])

interpretation ik: comparator ikeyCompare valid_ikey
  by unfold_locales (auto simp: ikeyCompare_lt ikeyCompare_gt ikeyCompare_eq)

interpretation by_cmp: comparator bytes_compare "\<lambda>_. True"
  by unfold_locales (auto simp: order_simps)

lemma trailer_le_iff:
  fixes s s' :: u64 and k k' :: byte
  assumes "s \<le> maxIKeySeq" "s' \<le> maxIKeySeq"
  shows "(push_bit 8 s OR ucast k :: u64) \<le> push_bit 8 s' OR ucast k' \<longleftrightarrow> s < s' \<or> s = s' \<and> k \<le> k'"
proof -
  have val: "unat (push_bit 8 s OR ucast k :: u64) = 256 * unat s + unat k"
    if "s \<le> maxIKeySeq" for s :: u64 and k :: byte
  proof -
    have "push_bit 8 s AND ucast k = (0 :: u64)"
      by (rule bit_word_eqI) (auto simp: bit_simps dest: bit_imp_le_length)
    then have "push_bit 8 s OR ucast k = push_bit 8 s + (ucast k :: u64)"
      by (simp add: disjunctive_add_eq_or)
    moreover have "unat (push_bit 8 s :: u64) = 256 * unat s"
      using that by (simp add: le_maxIKeySeq_unat push_bit_eq_mult unat_word_ariths)
    moreover have "unat (ucast k :: u64) = unat k"
      using unsigned_less [of k, where ?'a = nat]
      by (simp add: unsigned_ucast_eq take_bit_nat_eq_self unsigned_take_bit_eq)
    ultimately show ?thesis
      using that unsigned_less [of k, where ?'a = nat]
      by (simp add: unat_word_ariths le_maxIKeySeq_unat)
  qed
  show ?thesis
    using unsigned_less [of k, where ?'a = nat] unsigned_less [of k', where ?'a = nat]
    by (auto simp: val [OF assms(1)] val [OF assms(2)] word_le_nat_alt word_less_nat_alt word_unat_eq_iff)
qed

text \<open>
  On encoded keys the order is: user key ascending, then sequence descending,
  then kind descending.
\<close>

lemma ikeyCompare_encode:
  assumes "s \<le> maxIKeySeq" "s' \<le> maxIKeySeq"
  shows "ikeyCompare (ikeyEncode [] u s k) (ikeyEncode [] u' s' k') \<le> 0
     \<longleftrightarrow> u < u' \<or> u = u' \<and> (s' < s \<or> s' = s \<and> k' \<le> k)"
  by (simp add: ikeyCompare_le trailer_le_iff [OF assms(2,1)])

section \<open>Properties\<close>

text \<open>
  C13.  Internal keys round-trip in both directions: encoding a user key with a
  56-bit sequence and any kind gives a key whose parts are exactly those, and
  every byte string that is long enough to be an internal key is the encoding of
  the parts the accessors return.
\<close>

theorem ikey_roundtrip:
  "(s \<le> maxIKeySeq \<longrightarrow>
      ikeyUserKey (ikeyEncode [] u s k) = u \<and> ikeySeqKind (ikeyEncode [] u s k) = (s, k))
   \<and> (valid_ikey ik \<longrightarrow>
      ikeyEncode [] (ikeyUserKey ik) (fst (ikeySeqKind ik)) (snd (ikeySeqKind ik)) = ik)"
  by (simp add: ikeyEncode_parts)

theorem ikey_roundtrip_witness:
  "ikeySeqKind (ikeyEncode [] [0x61, 0x62] 5 ikeyKindSet) = (5, ikeyKindSet)
   \<and> ikeyUserKey (ikeyEncode [] [0x61, 0x62] 5 ikeyKindSet) = [0x61, 0x62]
   \<and> ikeyEncode [] (ikeyUserKey [9, 1, 0, 0, 0, 0, 0, 0, 0]) 0 1 = [9, 1, 0, 0, 0, 0, 0, 0, 0]"
proof -
  have "ikeySeqKind [9, 1, 0, 0, 0, 0, 0, 0, 0] = (0, 1)" "valid_ikey [9, 1, 0, 0, 0, 0, 0, 0, 0]"
    by code_simp+
  with ikey_roundtrip [of 5 "[0x61, 0x62]" ikeyKindSet "[9, 1, 0, 0, 0, 0, 0, 0, 0]"]
  show ?thesis by (simp add: maxIKeySeq_def push_bit_eq_mult)
qed

text \<open>
  C14.  A lookup key built for a user key and a read sequence sorts at or before
  exactly those versions of that user key the reader may see (sequence at most
  the read sequence), and after the versions above it: seeking it lands on the
  newest visible version.
\<close>

theorem ikeyLookupKey_bound:
  assumes "s \<le> maxIKeySeq" "s' \<le> maxIKeySeq" "validIKeyKind k"
  shows "(ikeyCompare (ikeyLookupKey [] u s) (ikeyEncode [] u s' k) \<le> 0 \<longleftrightarrow> s' \<le> s)
    \<and> (u < u' \<longrightarrow> ikeyCompare (ikeyLookupKey [] u s) (ikeyEncode [] u' s' k) < 0)
    \<and> (u' < u \<longrightarrow> ikeyCompare (ikeyEncode [] u' s' k) (ikeyLookupKey [] u s) < 0)"
proof -
  have "k \<le> maxPersistedKind"
    using assms(3) by (auto simp: validIKeyKind_def maxPersistedKind_def ikeyKind_defs)
  then show ?thesis
    using assms by (auto simp: ikeyLookupKey_def ikeyCompare_encode ikeyCompare_lt)
qed

theorem ikeyLookupKey_bound_witness:
  "ikeyCompare (ikeyLookupKey [] [0x61] 7) (ikeyEncode [] [0x61] 7 ikeyKindSetTTL) \<le> 0
   \<and> \<not> ikeyCompare (ikeyLookupKey [] [0x61] 7) (ikeyEncode [] [0x61] 8 ikeyKindSetTTL) \<le> 0
   \<and> ikeyCompare (ikeyLookupKey [] [0x61] 7) (ikeyEncode [] [0x62] 7 ikeyKindSetTTL) < 0"
  using ikeyLookupKey_bound [of 7 7 ikeyKindSetTTL "[0x61]" "[0x62]"]
    ikeyLookupKey_bound [of 7 8 ikeyKindSetTTL "[0x61]" "[0x62]"]
  by (simp add: maxIKeySeq_def push_bit_eq_mult validIKeyKind_def)

end
