(* ===== verification/Wal_Record.thy ===== *)
theory Wal_Record
  imports Lv_Prelude
begin

text \<open>
  Write-ahead-log records (\<^verbatim>\<open>wal_record.go\<close>): the encoding of a batch of mutations
  and its decoder, with \<open>readBytes\<close>, the length-prefixed string reader the
  range-tombstone and manifest decoders share.  A decoded batch is always well
  formed (known kinds, consecutive sequences that do not wrap, positive
  deadlines), and decoding an encoded batch gives it back.
\<close>

type_synonym walKindType = byte

definition walKindPut :: walKindType where "walKindPut = 0"
definition walKindDelete :: walKindType where "walKindDelete = 1"
definition walKindPutTTL :: walKindType where "walKindPutTTL = 2"
definition walKindRangeDelete :: walKindType where "walKindRangeDelete = 3"

lemmas walKind_defs = walKindPut_def walKindDelete_def walKindPutTTL_def walKindRangeDelete_def

record walEntry =
  Seq :: u64
  Kind :: walKindType
  Key :: bytes
  Value :: bytes
  ExpiresAt :: int

text \<open>
  \<^verbatim>\<open>uint64(len(x))\<close>, and the length-prefixed strings written with it.  A Go slice
  has fewer than \<open>2\<^sup>6\<^sup>3\<close> elements (\<open>fits\<close>).
\<close>

abbreviation ulen :: "'a list \<Rightarrow> u64" where "ulen xs \<equiv> word_of_nat (length xs)"

definition fits :: "'a list \<Rightarrow> bool" where "fits xs \<longleftrightarrow> length xs < 2 ^ 63"

definition put_bytes :: "bytes \<Rightarrow> bytes" where
  "put_bytes b = put_uvarint (ulen b) @ b"

definition encodeEntry :: "walEntry \<Rightarrow> bytes" where
  "encodeEntry e =
     [Kind e] @ put_uvarint (ulen (Key e)) @ Key e
     @ (if Kind e = walKindPutTTL then put_varint (ExpiresAt e) else [])
     @ (if Kind e = walKindPut \<or> Kind e = walKindPutTTL \<or> Kind e = walKindRangeDelete
        then put_uvarint (ulen (Value e)) @ Value e else [])"

definition encodeBatch :: "bytes \<Rightarrow> u64 \<Rightarrow> walEntry list \<Rightarrow> bytes" where
  "encodeBatch dst baseSeq entries =
     dst @ PutUint64 baseSeq @ put_uvarint (ulen entries) @ concat (map encodeEntry entries)"

definition readBytes :: "bytes \<Rightarrow> (bytes \<times> bytes) result" where
  "readBytes rest =
     (let (len, n) = Uvarint rest
      in if n \<le> 0 then Inl (Errorf ''wal: bad length'')
         else let rest = drop (nat n) rest
              in if ulen rest < len then Inl (Errorf ''wal: truncated data'')
                 else Inr (take (unat len) rest, drop (unat len) rest))"

definition hasValue :: "walKindType \<Rightarrow> bool" where
  "hasValue kind \<longleftrightarrow> kind = walKindPut \<or> kind = walKindPutTTL \<or> kind = walKindRangeDelete"

definition validWalKind :: "walKindType \<Rightarrow> bool" where
  "validWalKind kind \<longleftrightarrow> kind = walKindPut \<or> kind = walKindDelete \<or> kind = walKindPutTTL
     \<or> kind = walKindRangeDelete"

text \<open>One pass of the loop of \<open>decodeBatch\<close>: the entry at sequence \<open>seq\<close> and the rest.\<close>

definition decodeEntry :: "u64 \<Rightarrow> bytes \<Rightarrow> (walEntry \<times> bytes) result" where
  "decodeEntry seq rest =
     (case rest of [] \<Rightarrow> Inl (Errorf ''wal: truncated entry kind'')
      | kind # rest \<Rightarrow>
        if \<not> validWalKind kind then Inl (Errorf ''wal: unknown entry kind'')
        else case readBytes rest of Inl err \<Rightarrow> Inl (Wrapped ''wal: key'' err)
        | Inr (key, rest) \<Rightarrow>
          let e = \<lparr>Seq = seq, Kind = kind, Key = key, Value = [], ExpiresAt = 0\<rparr>;
              ttl = (if kind = walKindPutTTL then
                       let (expiresAt, used) = Varint rest
                       in if used \<le> 0 \<or> expiresAt \<le> 0 then Inl (Errorf ''wal: invalid expiration'')
                          else Inr (e\<lparr>ExpiresAt := expiresAt\<rparr>, drop (nat used) rest)
                     else Inr (e, rest))
          in case ttl of Inl err \<Rightarrow> Inl err
             | Inr (e, rest) \<Rightarrow>
               if hasValue kind then
                 case readBytes rest of Inl err \<Rightarrow> Inl (Wrapped ''wal: value'' err)
                 | Inr (val, rest) \<Rightarrow> Inr (e\<lparr>Value := val\<rparr>, rest)
               else Inr (e, rest))"

fun decodeEntries :: "nat \<Rightarrow> u64 \<Rightarrow> bytes \<Rightarrow> (walEntry list \<times> bytes) result" where
  "decodeEntries 0 seq rest = Inr ([], rest)"
| "decodeEntries (Suc n) seq rest =
     (case decodeEntry seq rest of Inl err \<Rightarrow> Inl err
      | Inr (e, rest) \<Rightarrow>
        case decodeEntries n (seq + 1) rest of Inl err \<Rightarrow> Inl err
        | Inr (es, rest) \<Rightarrow> Inr (e # es, rest))"

definition decodeBatch :: "bytes \<Rightarrow> walEntry list result" where
  "decodeBatch rec =
     (if length rec < 8 then Inl (Errorf ''wal: short record'')
      else let baseSeq = Uint64 (take 8 rec); rest = drop 8 rec; (count, n) = Uvarint rest
      in if n \<le> 0 then Inl (Errorf ''wal: bad entry count'')
      else let rest = drop (nat n) rest
      in if ulen rest < count then Inl (Errorf ''wal: entry count exceeds record size'')
      else if 0 < count \<and> 0xffffffffffffffff - (count - 1) < baseSeq
           then Inl (Errorf ''wal: sequence range overflows'')
      else case decodeEntries (unat count) baseSeq rest of Inl err \<Rightarrow> Inl err
      | Inr (entries, rest) \<Rightarrow>
        if length rest \<noteq> 0 then Inl (Errorf ''wal: trailing bytes'') else Inr entries)"

section \<open>Length-prefixed strings\<close>

lemma unat_ulen [simp]: "fits xs \<Longrightarrow> unat (ulen xs) = length xs"
  by (simp add: fits_def unat_of_nat)

lemma fits_append_iff: "fits (xs @ ys) \<Longrightarrow> fits xs \<and> fits ys"
  by (simp add: fits_def)

lemma fits_Cons: "fits (x # ys) \<Longrightarrow> fits ys"
  by (simp add: fits_def)

lemmas fitsD = fits_append_iff fits_Cons

lemma ulen_mono: "fits (xs @ ys) \<Longrightarrow> \<not> ulen (xs @ ys) < (ulen xs)"
  using fits_append_iff [of xs ys]
  by (simp add: word_less_nat_alt del: length_append) simp

lemma readBytes_put [simp, codec_simps]:
  "fits (d @ r) \<Longrightarrow> readBytes (put_uvarint (ulen d) @ d @ r) = Inr (d, r)"
  using ulen_mono [of d r] fits_append_iff [of d r]
  by (simp add: readBytes_def)

lemma readBytes_put_Nil [simp, codec_simps]:
  "fits r \<Longrightarrow> readBytes (put_uvarint 0 @ r) = Inr ([], r)"
  using readBytes_put [of "[]" r] by simp

lemma readBytes_put_bytes [simp, codec_simps]:
  "fits (d @ r) \<Longrightarrow> readBytes (put_bytes d @ r) = Inr (d, r)"
  by (simp add: put_bytes_def)

lemma readBytes_length:
  assumes "readBytes rest = Inr (d, r)" "fits rest"
  shows "length d + length r < length rest"
proof -
  obtain len n where u: "Uvarint rest = (len, n)" by fastforce
  with assms(1) have n: "0 < n" and le: "\<not> ulen (drop (nat n) rest) < len"
    and d: "d = take (unat len) (drop (nat n) rest)" and r: "r = drop (unat len) (drop (nat n) rest)"
    by (auto simp: readBytes_def Let_def split: if_splits)
  have "length d + length r = length (drop (nat n) rest)" unfolding d r by simp
  with Uvarint_bound [OF u n] show ?thesis by simp arith
qed

section \<open>Round trip\<close>

text \<open>The entries the write path hands to \<open>encodeBatch\<close>.\<close>

definition wf_entry :: "walEntry \<Rightarrow> bool" where
  "wf_entry e \<longleftrightarrow> validWalKind (Kind e)
     \<and> (if Kind e = walKindPutTTL then 0 < ExpiresAt e \<and> int64_range (ExpiresAt e) else ExpiresAt e = 0)
     \<and> (\<not> hasValue (Kind e) \<longrightarrow> Value e = [])"

fun consecutive :: "u64 \<Rightarrow> walEntry list \<Rightarrow> bool" where
  "consecutive s [] = True"
| "consecutive s (e # es) \<longleftrightarrow> Seq e = s \<and> consecutive (s + 1) es"

lemma decodeEntry_encode:
  assumes "wf_entry e" "fits (encodeEntry e @ r)"
  shows "decodeEntry (Seq e) (encodeEntry e @ r) = Inr (e, r)"
proof -
  let ?ttl = "if Kind e = walKindPutTTL then put_varint (ExpiresAt e) else []"
  let ?val = "if hasValue (Kind e) then put_uvarint (ulen (Value e)) @ Value e else []"
  have enc: "encodeEntry e @ r = Kind e # put_uvarint (ulen (Key e)) @ Key e @ (?ttl @ ?val @ r)"
    by (simp add: encodeEntry_def hasValue_def)
  from assms(2) have fk: "fits (Key e @ (?ttl @ ?val @ r))" unfolding enc by (simp add: fits_def)
  have fv: "fits (Value e @ r)" if "hasValue (Kind e)" using fk that by (simp add: fits_def)
  show ?thesis unfolding enc decodeEntry_def list.case readBytes_put [OF fk]
    using assms(1) fv by (cases e) (auto simp: wf_entry_def Let_def hasValue_def walKind_defs)
qed

lemma decodeEntries_encode:
  "(\<And>e. e \<in> set es \<Longrightarrow> wf_entry e) \<Longrightarrow> consecutive s es \<Longrightarrow> fits (concat (map encodeEntry es) @ r)
   \<Longrightarrow> decodeEntries (length es) s (concat (map encodeEntry es) @ r) = Inr (es, r)"
proof (induction es arbitrary: s)
  case Nil
  then show ?case by simp
next
  case (Cons e es)
  let ?tl = "concat (map encodeEntry es) @ r"
  have f: "fits (encodeEntry e @ ?tl)" using Cons.prems(3) by simp
  then have "fits ?tl" by (simp add: fits_def)
  with Cons have "decodeEntries (length es) (s + 1) ?tl = Inr (es, r)" by simp
  moreover have "decodeEntry s (encodeEntry e @ ?tl) = Inr (e, ?tl)"
    using decodeEntry_encode [OF _ f] Cons.prems by simp
  ultimately show ?case by simp
qed

lemma length_encodeEntries: "length es \<le> length (concat (map encodeEntry es))"
  by (induction es) (auto simp: encodeEntry_def)

section \<open>What a decoder accepts\<close>

lemma decodeEntry_wf:
  assumes "decodeEntry s rest = Inr (e, r)"
  shows "Seq e = s \<and> wf_entry e"
proof -
  from assms show ?thesis
    by (auto simp: decodeEntry_def wf_entry_def Let_def hasValue_def validWalKind_def dest: Varint_range
        split: list.splits if_splits sum.splits prod.splits)
qed

lemma decodeEntries_wf:
  "decodeEntries n s rest = Inr (es, r) \<Longrightarrow>
   length es = n \<and> consecutive s es \<and> (\<forall>e\<in>set es. wf_entry e)"
  by (induction n arbitrary: s rest es) (fastforce split: sum.splits prod.splits dest: decodeEntry_wf)+

lemma unat_max_minus: "unat (0xffffffffffffffff - (x :: u64)) = 0xffffffffffffffff - unat x"
proof -
  have "x \<le> 0xffffffffffffffff"
    using unsigned_less [of x, where ?'a = nat] by (simp add: word_le_nat_alt)
  then show ?thesis by (simp add: unat_sub)
qed

lemma seq_no_overflow:
  assumes "0 < count"
  shows "\<not> (0xffffffffffffffff - (count - 1) < baseSeq) \<longleftrightarrow> unat baseSeq + unat (count :: u64) \<le> 2 ^ 64"
proof -
  have "unat (count - 1) = unat count - 1"
    using assms by (simp add: unat_sub word_le_nat_alt word_less_nat_alt Suc_leI)
  moreover have "0 < unat count" "unat count < 2 ^ 64"
    using assms unsigned_less [of count, where ?'a = nat] by (simp_all add: word_less_nat_alt)
  ultimately show ?thesis unfolding word_less_nat_alt unat_max_minus by auto
qed

lemma decodeBatch_encode:
  assumes "\<forall>e\<in>set es. wf_entry e" "consecutive base es"
    and "unat base + length es \<le> 2 ^ 64" "fits (encodeBatch [] base es)"
  shows "decodeBatch (encodeBatch [] base es) = Inr es"
proof -
  let ?body = "concat (map encodeEntry es)"
  have fb: "fits ?body" using assms(4) by (simp add: encodeBatch_def fits_def)
  have fe: "fits es" using fb length_encodeEntries [of es] by (simp add: fits_def)
  have count: "\<not> ulen ?body < (ulen es)"
    using length_encodeEntries [of es] fb fe by (simp add: word_less_nat_alt del: length_concat)
  have seq: "\<not> (0 < (ulen es) \<and> 0xffffffffffffffff - (ulen es - 1) < base)"
    using seq_no_overflow [of "ulen es" base] assms(3) fe by auto
  have dec: "decodeEntries (length es) base ?body = Inr (es, [])"
    using decodeEntries_encode [of es base "[]"] assms(1,2) fb by simp
  show ?thesis
    using count seq dec fe
    by (simp add: decodeBatch_def encodeBatch_def Let_def del: length_concat)
qed

text \<open>
  C11.  A batch of well-formed entries whose sequences follow the base sequence
  without wrapping round-trips through the log record: decoding the encoded
  batch gives the same entries, with the same sequences, kinds, keys, values and
  deadlines.
\<close>

theorem decodeBatch_encodeBatch:
  assumes "\<forall>e\<in>set es. wf_entry e" "consecutive base es"
    and "unat base + length es \<le> 2 ^ 64" "fits (encodeBatch [] base es)"
  shows "decodeBatch (encodeBatch [] base es) = Inr es"
  by (rule decodeBatch_encode [OF assms])

theorem decodeBatch_encodeBatch_witness:
  "decodeBatch (encodeBatch [] 7
     [\<lparr>Seq = 7, Kind = walKindPutTTL, Key = [0x61], Value = [1, 2], ExpiresAt = 1700000000\<rparr>,
      \<lparr>Seq = 8, Kind = walKindRangeDelete, Key = [0x61], Value = [0x62], ExpiresAt = 0\<rparr>])
   = Inr [\<lparr>Seq = 7, Kind = walKindPutTTL, Key = [0x61], Value = [1, 2], ExpiresAt = 1700000000\<rparr>,
      \<lparr>Seq = 8, Kind = walKindRangeDelete, Key = [0x61], Value = [0x62], ExpiresAt = 0\<rparr>]"
proof (rule decodeBatch_encodeBatch)
  show "fits (encodeBatch [] 7
     [\<lparr>Seq = 7, Kind = walKindPutTTL, Key = [0x61], Value = [1, 2], ExpiresAt = 1700000000\<rparr>,
      \<lparr>Seq = 8, Kind = walKindRangeDelete, Key = [0x61], Value = [0x62], ExpiresAt = 0\<rparr>])"
    using length_put_uvarint_10 [of 2] length_put_uvarint_10 [of 1] length_put_uvarint_10 [of 3400000000]
    by (simp add: fits_def encodeBatch_def encodeEntry_def walKind_defs put_varint_def)
qed (auto simp: wf_entry_def validWalKind_def int64_range_def hasValue_def walKind_defs)

text \<open>
  C15.  Whatever bytes it is given, the record decoder returns only well-formed
  batches: known kinds, positive in-range deadlines exactly on TTL puts, no value
  on deletes, and sequences that count up from the stored base without wrapping
  past \<open>2\<^sup>6\<^sup>4\<close>.
\<close>

theorem decodeBatch_sound:
  assumes "decodeBatch b = Inr es"
  shows "(\<forall>e\<in>set es. wf_entry e) \<and> consecutive (Uint64 (take 8 b)) es
    \<and> unat (Uint64 (take 8 b)) + length es \<le> 2 ^ 64"
proof -
  obtain count n where u: "Uvarint (drop 8 b) = (count, n)" by fastforce
  with assms have d: "decodeEntries (unat count) (Uint64 (take 8 b)) (drop (nat n) (drop 8 b)) = Inr (es, [])"
    and ov: "\<not> (0 < count \<and> 0xffffffffffffffff - (count - 1) < Uint64 (take 8 b))"
    by (auto simp: decodeBatch_def Let_def split: if_splits sum.splits)
  have "unat (Uint64 (take 8 b)) + unat count \<le> 2 ^ 64"
  proof (cases "0 < count")
    case True
    with ov seq_no_overflow [OF True] show ?thesis by blast
  next
    case False
    then show ?thesis
      using unsigned_less [of "Uint64 (take 8 b)", where ?'a = nat] by (simp add: word_less_nat_alt)
  qed
  with decodeEntries_wf [OF d] show ?thesis by auto
qed

theorem decodeBatch_sound_witness:
  "decodeBatch [5, 0, 0, 0, 0, 0, 0, 0, 1, 1, 1, 0x61]
     = Inr [\<lparr>Seq = 5, Kind = walKindDelete, Key = [0x61], Value = [], ExpiresAt = 0\<rparr>]
   \<and> consecutive 5 [\<lparr>Seq = 5, Kind = walKindDelete, Key = [0x61], Value = [], ExpiresAt = 0\<rparr>]"
proof -
  have d: "decodeBatch [5, 0, 0, 0, 0, 0, 0, 0, 1, 1, 1, 0x61]
     = Inr [\<lparr>Seq = 5, Kind = walKindDelete, Key = [0x61], Value = [], ExpiresAt = 0\<rparr>]"
    by code_simp
  have "Uint64 (take 8 [5, 0, 0, 0, 0, 0, 0, 0, 1, 1, 1, 0x61]) = 5" by code_simp
  with decodeBatch_sound [OF d] d show ?thesis by simp
qed

end
