(* ===== verification/Bufio.thy ===== *)
theory Bufio
  imports Lv_Prelude "HOL-Library.Sublist"
begin

text \<open>
  Files and \<^verbatim>\<open>bufio.Writer\<close>, the parts of the standard library the log, the
  manifest and the table writer append through, and \<open>writeAll\<close> of \<^verbatim>\<open>journal.go\<close>.
  A file takes its outcomes from a schedule, so a write may stop half way with
  an error.  The lemmas account for every byte: a write is either accepted in
  full, split between file and buffer, or leaves a sticky error and a prefix of
  the intended bytes in the file; without failures it always succeeds.
\<close>

section \<open>Files and bufio.Writer\<close>

record os_file =
  f_data :: bytes
  f_sched :: io_sched

text \<open>\<^verbatim>\<open>os.File.Write\<close>: the number of bytes written, with an error when it is short.\<close>

definition file_Write :: "os_file \<Rightarrow> bytes \<Rightarrow> nat \<times> error option \<times> os_file" where
  "file_Write f p =
     (let (x, s) = io_next (f_sched f)
      in case x of IO_ok \<Rightarrow> (length p, None, f\<lparr>f_data := f_data f @ p, f_sched := s\<rparr>)
         | IO_fail k err \<Rightarrow>
             let k = min k (length p) in (k, Some err, f\<lparr>f_data := f_data f @ take k p, f_sched := s\<rparr>))"

record bufio =
  b_buf :: bytes
  b_size :: nat
  b_err :: "error option"
  b_dst :: os_file

definition bufio_Flush :: "bufio \<Rightarrow> error option \<times> bufio" where
  "bufio_Flush b =
     (case b_err b of Some err \<Rightarrow> (Some err, b)
      | None \<Rightarrow>
        if b_buf b = [] then (None, b)
        else let (n, err, f) = file_Write (b_dst b) (b_buf b)
        in case err of Some e \<Rightarrow> (Some e, b\<lparr>b_buf := drop n (b_buf b), b_err := Some e, b_dst := f\<rparr>)
           | None \<Rightarrow> (None, b\<lparr>b_buf := [], b_dst := f\<rparr>))"

text \<open>
  The loop of \<^verbatim>\<open>bufio.Writer.Write\<close>: a write larger than the free space goes
  straight to the file when the buffer is empty, and otherwise fills and flushes
  the buffer first.
\<close>

function bufio_Write :: "bufio \<Rightarrow> bytes \<Rightarrow> nat \<times> error option \<times> bufio" where
  "bufio_Write b p =
     (case b_err b of Some err \<Rightarrow> (0, Some err, b)
      | None \<Rightarrow>
        if b_size b - length (b_buf b) < length p then
          if b_buf b = [] then
            let (n, err, f) = file_Write (b_dst b) p; (nn, e, b') = bufio_Write (b\<lparr>b_err := err, b_dst := f\<rparr>) (drop n p)
            in (n + nn, e, b')
          else
            let n = b_size b - length (b_buf b);
                (_, b1) = bufio_Flush (b\<lparr>b_buf := b_buf b @ take n p\<rparr>);
                (nn, e, b') = bufio_Write b1 (drop n p)
            in (n + nn, e, b')
        else (length p, None, b\<lparr>b_buf := b_buf b @ p\<rparr>))"
  by pat_completeness auto

lemma file_Write_cases:
  obtains (ok) s where "file_Write f p = (length p, None, f\<lparr>f_data := f_data f @ p, f_sched := s\<rparr>)"
  | (fail) k e s where "k \<le> length p" "file_Write f p = (k, Some e, f\<lparr>f_data := f_data f @ take k p, f_sched := s\<rparr>)"
proof (cases "io_next (f_sched f)")
  case (Pair x s)
  then show thesis
    using ok [of s] fail [of "min k (length p)" e s for k e]
    by (cases x) (auto simp: file_Write_def Let_def)
qed

lemma bufio_Flush_err_or_empty: "bufio_Flush b = (e, b') \<Longrightarrow> b_err b' = None \<Longrightarrow> b_buf b' = []"
  by (cases "file_Write (b_dst b) (b_buf b)")
     (auto simp: bufio_Flush_def Let_def split: option.splits if_splits)

termination bufio_Write
proof (relation "measure (\<lambda>(b, p). if b_err b \<noteq> None then 0
    else 1 + length p + (if b_buf b = [] then 0 else 1))", goal_cases)
  case 1
  then show ?case by simp
next
  case (2 b p r n e err f)
  show ?case by (rule file_Write_cases [of "b_dst b" p]) (use 2 in auto)
next
  case (3 b p n x e b1)
  then show ?case using bufio_Flush_err_or_empty [of "b\<lparr>b_buf := b_buf b @ take n p\<rparr>" e b1] by auto
qed

declare bufio_Write.simps [simp del]

function writeAll :: "bufio \<Rightarrow> bytes \<Rightarrow> error option \<times> bufio" where
  "writeAll w p =
     (if p = [] then (None, w)
      else let (n, err, w') = bufio_Write w p
      in case err of Some e \<Rightarrow> (Some e, w')
         | None \<Rightarrow> if n = 0 \<or> length p < n then (Some IoShortWrite, w') else writeAll w' (drop n p))"
  by pat_completeness auto
termination by (relation "measure (\<lambda>(w, p). length p)") auto

declare writeAll.simps [simp del]

abbreviation dst_data :: "bufio \<Rightarrow> bytes" where "dst_data b \<equiv> f_data (b_dst b)"
abbreviation logical :: "bufio \<Rightarrow> bytes" where "logical b \<equiv> dst_data b @ b_buf b"

text \<open>
  What a buffered write may do: either all of it is accepted, or the writer is
  left with a sticky error and the file holds a prefix of what was meant.
\<close>

definition accepted :: "bufio \<Rightarrow> bytes \<Rightarrow> error option \<Rightarrow> bufio \<Rightarrow> bool" where
  "accepted b p e b' \<longleftrightarrow>
     (case e of None \<Rightarrow> b_err b' = None \<and> logical b' = logical b @ p
      | Some _ \<Rightarrow> b_err b' = e \<and> prefix (dst_data b') (logical b @ p))"

lemma bufio_Flush_ok:
  assumes "b_err b = None" "bufio_Flush b = (e, b')"
  shows "accepted b [] e b' \<and> (e = None \<longrightarrow> b_buf b' = [])"
  by (rule file_Write_cases [of "b_dst b" "b_buf b"])
     (use assms in \<open>auto simp: bufio_Flush_def accepted_def take_is_prefix split: if_splits\<close>)

lemma bufio_Write_ok:
  "b_err b = None \<Longrightarrow> bufio_Write b p = (n, e, b') \<Longrightarrow> accepted b p e b' \<and> (e = None \<longrightarrow> n = length p)"
proof (induction b p arbitrary: n rule: bufio_Write.induct)
  case (1 b p)
  show ?case
  proof (cases "b_size b - length (b_buf b) < length p")
    case False
    with 1 show ?thesis by (auto simp: bufio_Write.simps [of b p] accepted_def)
  next
    case big: True
    show ?thesis
    proof (cases "b_buf b = []")
      case True
      show ?thesis
      proof (rule file_Write_cases [of "b_dst b" p])
        fix s assume w: "file_Write (b_dst b) p = (length p, None, b_dst b\<lparr>f_data := dst_data b @ p, f_sched := s\<rparr>)"
        let ?b = "b\<lparr>b_err := None, b_dst := b_dst b\<lparr>f_data := dst_data b @ p, f_sched := s\<rparr>\<rparr>"
        have "bufio_Write ?b [] = (0, None, ?b)" using True by (subst bufio_Write.simps) simp
        with "1.prems" True big w show ?thesis
          by (auto simp: bufio_Write.simps [of b p] accepted_def)
      next
        fix k x s assume k: "k \<le> length p"
          and w: "file_Write (b_dst b) p = (k, Some x, b_dst b\<lparr>f_data := dst_data b @ take k p, f_sched := s\<rparr>)"
        with "1.prems" True big show ?thesis
          by (subst (asm) bufio_Write.simps [of b p]) (auto simp: bufio_Write.simps accepted_def take_is_prefix)
      qed
    next
      case False
      let ?n = "b_size b - length (b_buf b)" and ?b = "b\<lparr>b_buf := b_buf b @ take (b_size b - length (b_buf b)) p\<rparr>"
      obtain e1 b1 where f: "bufio_Flush ?b = (e1, b1)" by fastforce
      obtain n2 e2 b2 where w: "bufio_Write b1 (drop ?n p) = (n2, e2, b2)" by (cases "bufio_Write b1 (drop ?n p)") auto
      have res: "n = ?n + n2" "e = e2" "b' = b2"
        using "1.prems" big False f w by (auto simp: bufio_Write.simps [of b p])
      from bufio_Flush_ok [OF _ f] "1.prems" have acc: "accepted ?b [] e1 b1" by simp
      show ?thesis
      proof (cases e1)
        case None
        with acc have none: "b_err b1 = None" and l: "logical b1 = logical ?b" by (auto simp: accepted_def)
        have w': "bufio_Write b1 (drop ?n p) = (n2, e, b')" using w res by simp
        have "logical b @ p = logical ?b @ drop ?n p" by simp
        with "1.IH" (2) [OF "1.prems"(1) big False refl refl f [symmetric] none w'] l big
        show ?thesis unfolding res(1)
          by (cases e) (auto simp: accepted_def)
      next
        case (Some x)
        with acc have "b_err b1 = Some x" and pre: "prefix (dst_data b1) (logical ?b)" by (auto simp: accepted_def)
        then have "b2 = b1" "e2 = Some x" using w by (auto simp: bufio_Write.simps [of b1])
        moreover have "prefix (logical ?b) (logical b @ p)" by (simp add: take_is_prefix)
        with pre have "prefix (dst_data b1) (logical b @ p)" by (rule prefix_order.trans)
        ultimately show ?thesis unfolding res
          using \<open>b_err b1 = Some x\<close> by (simp add: accepted_def)
      qed
    qed
  qed
qed

lemma writeAll_ok:
  assumes "b_err b = None" "writeAll b p = (e, b')"
  shows "accepted b p e b'"
proof (cases "p = []")
  case True
  with assms show ?thesis by (simp add: writeAll.simps accepted_def)
next
  case False
  obtain n e1 b1 where w: "bufio_Write b p = (n, e1, b1)" by (cases "bufio_Write b p") auto
  from bufio_Write_ok [OF assms(1) w] assms(2) False show ?thesis
    by (cases e1) (auto simp: w writeAll.simps [of b p] writeAll.simps [of _ "[]"])
qed

lemma writeAll_sticky:
  "b_err b = Some x \<Longrightarrow> writeAll b p = (e, b') \<Longrightarrow> b' = b \<and> (p \<noteq> [] \<longrightarrow> e = Some x)"
  by (auto simp: writeAll.simps [of b p] bufio_Write.simps [of b p] split: if_splits)

section \<open>Without failures\<close>

definition healthy :: "bufio \<Rightarrow> bool" where
  "healthy b \<longleftrightarrow> b_err b = None \<and> f_sched (b_dst b) = []"

lemma file_Write_healthy:
  "f_sched f = [] \<Longrightarrow> file_Write f p = (length p, None, f\<lparr>f_data := f_data f @ p\<rparr>)"
  by (simp add: file_Write_def)

lemma bufio_Flush_healthy: "healthy b \<Longrightarrow> bufio_Flush b = (e, b') \<Longrightarrow> e = None \<and> healthy b'"
  by (auto simp: healthy_def bufio_Flush_def file_Write_healthy split: if_splits)

lemma bufio_Write_healthy: "healthy b \<Longrightarrow> bufio_Write b p = (n, e, b') \<Longrightarrow> e = None \<and> healthy b'"
proof (induction b p arbitrary: n rule: bufio_Write.induct)
  case (1 b p)
  have none: "b_err b = None" and s: "f_sched (b_dst b) = []" using "1.prems"(1) by (auto simp: healthy_def)
  show ?case
  proof (cases "b_size b - length (b_buf b) < length p")
    case False
    with "1.prems" none s show ?thesis by (auto simp: bufio_Write.simps [of b p] healthy_def)
  next
    case big: True
    show ?thesis
    proof (cases "b_buf b = []")
      case True
      have "bufio_Write (b\<lparr>b_err := None, b_dst := b_dst b\<lparr>f_data := f_data (b_dst b) @ p\<rparr>\<rparr>) []
          = (0, None, b\<lparr>b_err := None, b_dst := b_dst b\<lparr>f_data := f_data (b_dst b) @ p\<rparr>\<rparr>)"
        using True by (simp add: bufio_Write.simps)
      with "1.prems"(2) none big True s show ?thesis
        by (auto simp: bufio_Write.simps [of b p] file_Write_healthy healthy_def)
    next
      case False
      let ?n = "b_size b - length (b_buf b)" and ?b = "b\<lparr>b_buf := b_buf b @ take (b_size b - length (b_buf b)) p\<rparr>"
      obtain e1 b1 where f: "bufio_Flush ?b = (e1, b1)" by fastforce
      have h: "healthy b1" using bufio_Flush_healthy [OF _ f] none s by (simp add: healthy_def)
      obtain n2 where w: "bufio_Write b1 (drop ?n p) = (n2, e, b')"
        using "1.prems" big False f none by (auto simp: bufio_Write.simps [of b p] Let_def split: prod.splits)
      from "1.IH"(2) [OF none big False refl refl f [symmetric] h w] show ?thesis .
    qed
  qed
qed

lemma writeAll_healthy:
  assumes "healthy b" "writeAll b p = (e, b')" shows "e = None \<and> healthy b'"
proof (cases "p = []")
  case True
  with assms show ?thesis by (simp add: writeAll.simps)
next
  case False
  obtain n e1 b1 where w: "bufio_Write b p = (n, e1, b1)" by (cases "bufio_Write b p") auto
  have h: "e1 = None" "healthy b1" using bufio_Write_healthy [OF assms(1) w] by auto
  have "n = length p" using bufio_Write_ok [OF _ w] assms(1) h by (simp add: healthy_def)
  with assms(2) False w h show ?thesis
    by (auto simp: writeAll.simps [of b p] writeAll.simps [of _ "[]"])
qed

end
