(* ===== verification/Journal.thy ===== *)
theory Journal
  imports Bufio
begin

text \<open>
  The journal (\<^verbatim>\<open>journal.go\<close>): the block and chunk framing shared by the
  write-ahead log and the manifest.  The writer fills 32 KiB blocks and hands
  them to a \<^verbatim>\<open>bufio.Writer\<close> over a file whose writes may fail or stop half way;
  the reader reassembles records and reports a torn tail as end of file.

  \<open>frame\<close> is the reference framing: the bytes of one record written at a block
  offset.  The writer is shown to implement it, with every byte accounted for
  between the file, the batching buffer and the block; the reader is shown to
  undo it, and to stop cleanly at the last intact record on every prefix of a
  framed stream.  Together: after any writes and flushes, with any failures, and
  any loss of a tail of the file, replay yields a prefix of the records written.
\<close>

section \<open>The writer\<close>

definition blockSize :: nat where "blockSize = 32 * 1024"
definition headerSize :: nat where "headerSize = 7"
definition journalBufSize :: nat where "journalBufSize = push_bit 20 1"

definition chunkFull :: byte where "chunkFull = 1"
definition chunkFirst :: byte where "chunkFirst = 2"
definition chunkMiddle :: byte where "chunkMiddle = 3"
definition chunkLast :: byte where "chunkLast = 4"

lemmas chunk_defs = chunkFull_def chunkFirst_def chunkMiddle_def chunkLast_def

text \<open>\<open>block\<close> holds the used part \<^verbatim>\<open>block[:blockOffset]\<close> of the block array.\<close>

record journalWriter =
  jw_w :: bufio
  block :: bytes
  flushedOffset :: nat

abbreviation blockOffset :: "journalWriter \<Rightarrow> nat" where "blockOffset w \<equiv> length (block w)"

definition newJournalWriter :: "os_file \<Rightarrow> journalWriter" where
  "newJournalWriter f =
     \<lparr>jw_w = \<lparr>b_buf = [], b_size = journalBufSize, b_err = None, b_dst = f\<rparr>, block = [], flushedOffset = 0\<rparr>"

definition flushBlock :: "journalWriter \<Rightarrow> error option \<times> journalWriter" where
  "flushBlock w =
     (let (err, b) = writeAll (jw_w w) (drop (flushedOffset w) (block w))
      in (err, w\<lparr>jw_w := b, block := [], flushedOffset := 0\<rparr>))"

definition chunk :: "byte \<Rightarrow> bytes \<Rightarrow> bytes" where
  "chunk typ data =
     PutUint32 (crc32_Update (crc32_Update 0 [typ]) data) @ PutUint16 (word_of_nat (length data)) @ [typ] @ data"

definition emitChunk :: "byte \<Rightarrow> bytes \<Rightarrow> journalWriter \<Rightarrow> journalWriter" where
  "emitChunk typ data w = w\<lparr>block := block w @ chunk typ data\<rparr>"

definition chunkType :: "bool \<Rightarrow> bool \<Rightarrow> byte" where
  "chunkType first final =
     (if first \<and> final then chunkFull else if first then chunkFirst else if final then chunkLast else chunkMiddle)"

text \<open>The test of line 65, and the padding and roll-over it guards.\<close>

definition padBlock :: "journalWriter \<Rightarrow> error option \<times> journalWriter" where
  "padBlock w =
     (if blockSize - blockOffset w < headerSize
      then flushBlock (w\<lparr>block := block w @ replicate (blockSize - blockOffset w) 0\<rparr>)
      else (None, w))"

lemma padBlock_offset:
  "padBlock w = (e, w') \<Longrightarrow>
   blockOffset w' = (if blockSize - blockOffset w < headerSize then 0 else blockOffset w)"
  by (auto simp: padBlock_def flushBlock_def Let_def split: if_splits prod.splits)

function journal_Write :: "bool \<Rightarrow> bytes \<Rightarrow> journalWriter \<Rightarrow> error option \<times> journalWriter" where
  "journal_Write first record w =
     (if \<not> (first \<or> 0 < length record) then (None, w)
      else let (err, w1) = padBlock w
      in case err of Some e \<Rightarrow> (Some e, w1)
      | None \<Rightarrow>
        let fragLen = blockSize - blockOffset w1 - headerSize;
            chunkLen = (if fragLen < length record then fragLen else length record);
            final = (chunkLen = length record)
        in journal_Write False (drop chunkLen record)
             (emitChunk (chunkType first final) (take chunkLen record) w1))"
  by pat_completeness auto
termination
proof (relation "measures [\<lambda>(f, r, w). if f then 1 else 0, \<lambda>(f, r, w). length r,
    \<lambda>(f, r, w). blockSize - blockOffset w]", goal_cases)
  case 1
  then show ?case by simp
next
  case (2 first recd w r e w1 fragLen chunkLen final)
  then have o1: "blockOffset w1 = (if blockSize - blockOffset w < headerSize then 0 else blockOffset w)"
    using padBlock_offset by metis
  then show ?case using 2
    by (auto simp: emitChunk_def chunk_def headerSize_def blockSize_def split: if_splits)
qed

declare journal_Write.simps [simp del]

definition journal_Flush :: "journalWriter \<Rightarrow> error option \<times> journalWriter" where
  "journal_Flush w =
     (let (err, w) =
        (if flushedOffset w \<noteq> blockOffset w then
           let (err, b) = writeAll (jw_w w) (drop (flushedOffset w) (block w))
           in case err of Some e \<Rightarrow> (Some e, w\<lparr>jw_w := b\<rparr>)
              | None \<Rightarrow>
                if blockOffset w = blockSize then (None, w\<lparr>jw_w := b, block := [], flushedOffset := 0\<rparr>)
                else (None, w\<lparr>jw_w := b, flushedOffset := blockOffset w\<rparr>)
         else (None, w))
      in case err of Some e \<Rightarrow> (Some e, w)
         | None \<Rightarrow> let (err, b) = bufio_Flush (jw_w w) in (err, w\<lparr>jw_w := b\<rparr>))"

section \<open>The reader\<close>

text \<open>
  \<open>r_src\<close> is what is left of the underlying file and \<open>r_block\<close> the valid part
  \<^verbatim>\<open>block[:blockLen]\<close> of the block buffer.
\<close>

record journalReader =
  r_src :: bytes
  r_block :: bytes
  r_blockOffset :: nat
  r_eof :: bool
  strictTail :: bool

abbreviation blockLen :: "journalReader \<Rightarrow> nat" where "blockLen r \<equiv> length (r_block r)"

definition newJournalReader :: "bytes \<Rightarrow> journalReader" where
  "newJournalReader src =
     \<lparr>r_src = src, r_block = [], r_blockOffset = 0, r_eof = False, strictTail = False\<rparr>"

definition fill :: "journalReader \<Rightarrow> error option \<times> journalReader" where
  "fill r =
     (if r_eof r then (Some IoEOF, r)
      else if r_src r = [] then (Some IoEOF, r\<lparr>r_eof := True\<rparr>)
      else let b = take blockSize (r_src r);
               r = r\<lparr>r_src := drop blockSize (r_src r), r_block := b, r_blockOffset := 0\<rparr>
           in (None, if length b < blockSize then r\<lparr>r_eof := True\<rparr> else r))"

definition refill :: "journalReader \<Rightarrow> error option \<times> journalReader" where
  "refill r =
     (if blockLen r - r_blockOffset r < headerSize then
        if strictTail r \<and> blockLen r < blockSize \<and> r_blockOffset r < blockLen r
        then (Some ErrJournalCorrupt, r)
        else let (err, r) = fill r
        in case err of Some e \<Rightarrow> (Some e, r)
        | None \<Rightarrow>
          if blockLen r - r_blockOffset r < headerSize
          then (Some (if strictTail r then ErrJournalCorrupt else IoEOF), r)
          else (None, r)
      else (None, r))"

definition readChunk :: "journalReader \<Rightarrow> (byte \<times> bytes) result \<times> journalReader" where
  "readChunk r =
     (let (err, r) = refill r
      in case err of Some e \<Rightarrow> (Inl e, r)
      | None \<Rightarrow>
        let off = r_blockOffset r;
            len = unat (Uint16 (drop (off + 4) (r_block r)));
            typ = r_block r ! (off + 6)
        in if typ = 0 \<and> len = 0 then (Inl ErrJournalCorrupt, r)
        else if blockLen r < off + headerSize + len then
          (Inl (if blockLen r < blockSize \<and> \<not> strictTail r then IoEOF else ErrJournalCorrupt), r)
        else
          let data = take len (drop (off + headerSize) (r_block r));
              want = Uint32 (drop off (r_block r));
              crc = crc32_Update 0 [r_block r ! (off + 6)];
              crc = crc32_Update crc data
          in if crc \<noteq> want then (Inl ErrJournalCorrupt, r)
             else (Inr (typ, data), r\<lparr>r_blockOffset := off + headerSize + len\<rparr>))"

definition reader_size :: "journalReader \<Rightarrow> nat" where
  "reader_size r = length (r_src r) + (blockLen r - r_blockOffset r)"

lemma refill_size:
  "refill r = (None, r') \<Longrightarrow> reader_size r' \<le> reader_size r \<and> headerSize \<le> blockLen r' - r_blockOffset r'"
  by (auto simp: refill_def fill_def reader_size_def Let_def split: if_splits option.splits)

lemma readChunk_size:
  assumes "readChunk r = (Inr (typ, data), r')" shows "reader_size r' < reader_size r"
proof -
  obtain e r1 where f: "refill r = (e, r1)" by fastforce
  let ?len = "unat (Uint16 (drop (r_blockOffset r1 + 4) (r_block r1)))"
  from assms have "e = None" and le: "r_blockOffset r1 + headerSize + ?len \<le> blockLen r1"
    and r': "r' = r1\<lparr>r_blockOffset := r_blockOffset r1 + headerSize + ?len\<rparr>"
    by (auto simp: readChunk_def f Let_def split: option.splits if_splits)
  with refill_size [of r r1] f show ?thesis
    unfolding reader_size_def headerSize_def by simp arith
qed

function journal_Next :: "journalReader \<Rightarrow> bytes \<Rightarrow> bool \<Rightarrow> bytes result \<times> journalReader" where
  "journal_Next r record inProgress =
     (case readChunk r of
        (Inl err, r') \<Rightarrow>
          if err = IoEOF \<and> inProgress then
            (Inl (if strictTail r' then ErrJournalCorrupt else IoEOF), r')
          else (Inl err, r')
      | (Inr (typ, data), r') \<Rightarrow>
          if typ = chunkFull then
            (if inProgress then Inl ErrJournalCorrupt else Inr data, r')
          else if typ = chunkFirst then
            if inProgress then (Inl ErrJournalCorrupt, r') else journal_Next r' (record @ data) True
          else if typ = chunkMiddle then
            if \<not> inProgress then (Inl ErrJournalCorrupt, r') else journal_Next r' (record @ data) True
          else if typ = chunkLast then
            (if \<not> inProgress then Inl ErrJournalCorrupt else Inr (record @ data), r')
          else (Inl ErrJournalCorrupt, r'))"
  by pat_completeness auto
termination by (relation "measure (\<lambda>(r, _). reader_size r)") (auto dest: readChunk_size [OF sym])

declare journal_Next.simps [simp del]

definition Next_record :: "journalReader \<Rightarrow> bytes result \<times> journalReader" where
  "Next_record r = journal_Next r [] False"

section \<open>The reference framing\<close>

text \<open>Padding before a chunk at block offset \<open>off\<close>, and where the chunk then starts.\<close>

definition padding :: "nat \<Rightarrow> bytes" where
  "padding off = (if blockSize - off < headerSize then replicate (blockSize - off) 0 else [])"

definition base :: "nat \<Rightarrow> nat" where
  "base off = (if blockSize - off < headerSize then 0 else off)"

definition fragment :: "nat \<Rightarrow> bytes \<Rightarrow> nat" where
  "fragment off recd = min (length recd) (blockSize - base off - headerSize)"

function frame :: "nat \<Rightarrow> bool \<Rightarrow> bytes \<Rightarrow> bytes \<times> nat" where
  "frame off first recd =
     (if \<not> (first \<or> 0 < length recd) then ([], off)
      else let n = fragment off recd;
               (b, off') = frame (base off + headerSize + n) False (drop n recd)
           in (padding off @ chunk (chunkType first (n = length recd)) (take n recd) @ b, off'))"
  by pat_completeness auto
termination
  by (relation "measures [\<lambda>(off, f, r). if f then 1 else 0, \<lambda>(off, f, r). length r,
    \<lambda>(off, f, r). blockSize - off]")
     (auto simp: fragment_def base_def headerSize_def blockSize_def split: if_splits)

declare frame.simps [simp del]

fun frames :: "nat \<Rightarrow> bytes list \<Rightarrow> bytes \<times> nat" where
  "frames off [] = ([], off)"
| "frames off (r # rs) =
     (let (b, off1) = frame off True r; (bs, off2) = frames off1 rs in (b @ bs, off2))"

lemma length_chunk [simp]: "length (chunk typ data) = headerSize + length data"
  by (simp add: chunk_def headerSize_def)

lemma base_bound: "off \<le> blockSize \<Longrightarrow> base off + headerSize \<le> blockSize"
  by (auto simp: base_def headerSize_def blockSize_def)

lemma fragment_bound: "off \<le> blockSize \<Longrightarrow> base off + headerSize + fragment off r \<le> blockSize"
  using base_bound [of off] by (auto simp: fragment_def)

lemma frame_offset: "off \<le> blockSize \<Longrightarrow> snd (frame off first recd) \<le> blockSize"
proof (induction off first recd rule: frame.induct)
  case (1 off first recd)
  then show ?case using fragment_bound [of off recd]
    by (subst frame.simps) (auto simp: Let_def split: prod.splits)
qed

lemma frame_blockSize: "frame blockSize True r = frame 0 True r"
  by (subst (1 2) frame.simps) (simp add: padding_def base_def fragment_def headerSize_def blockSize_def)

lemma frames_append:
  "frames off (xs @ ys) = (let (b, o1) = frames off xs; (c, o2) = frames o1 ys in (b @ c, o2))"
  by (induction xs arbitrary: off) (auto simp: Let_def split: prod.splits)

lemma frames_offset: "off \<le> blockSize \<Longrightarrow> snd (frames off rs) \<le> blockSize"
proof (induction rs arbitrary: off)
  case (Cons r rs)
  obtain b o1 where f: "frame off True r = (b, o1)" by fastforce
  with frame_offset [of off True r] Cons have "snd (frames o1 rs) \<le> blockSize" by simp
  then show ?case by (auto simp: f split: prod.splits)
qed simp

section \<open>The writer implements the framing\<close>

text \<open>
  A live writer holds the stream \<open>L\<close> so far, split between file, buffer and block,
  at block offset \<open>off\<close>; a failed one has left a prefix of it in the file.
\<close>

definition live :: "journalWriter \<Rightarrow> bytes \<Rightarrow> nat \<Rightarrow> bool" where
  "live w L off \<longleftrightarrow> b_err (jw_w w) = None \<and> blockOffset w = off \<and> off \<le> blockSize
     \<and> flushedOffset w \<le> off \<and> L = logical (jw_w w) @ drop (flushedOffset w) (block w)"

definition failed :: "journalWriter \<Rightarrow> bytes \<Rightarrow> bool" where
  "failed w L \<longleftrightarrow> b_err (jw_w w) \<noteq> None \<and> prefix (dst_data (jw_w w)) L"

lemma failed_mono: "failed w L \<Longrightarrow> failed w (L @ b)"
  by (auto simp: failed_def)

lemma live_prefix: "live w L off \<Longrightarrow> prefix (dst_data (jw_w w)) L"
  by (simp add: live_def)

lemma padBlock_ok:
  assumes "live w L off" "padBlock w = (e, w')"
  shows "(e = None \<and> live w' (L @ padding off) (base off)) \<or> (e \<noteq> None \<and> failed w' (L @ padding off))"
proof (cases "blockSize - off < headerSize")
  case False
  with assms show ?thesis by (auto simp: padBlock_def padding_def base_def live_def)
next
  case True
  let ?p = "drop (flushedOffset w) (block w @ replicate (blockSize - off) 0)"
  obtain e1 b1 where w: "writeAll (jw_w w) ?p = (e1, b1)" by fastforce
  have none: "b_err (jw_w w) = None" and off: "blockOffset w = off" using assms(1) by (auto simp: live_def)
  have L: "logical (jw_w w) @ ?p = L @ padding off"
    using assms(1) True by (simp add: live_def padding_def)
  have "e = e1" "w' = w\<lparr>jw_w := b1, block := [], flushedOffset := 0\<rparr>"
    using assms(2) True w off by (auto simp: padBlock_def flushBlock_def)
  with writeAll_ok [OF none w] True show ?thesis
    unfolding accepted_def L by (cases e1) (auto simp: live_def failed_def base_def)
qed

lemma padBlock_failed:
  assumes "failed w L" "padBlock w = (e, w')" shows "failed w' L"
proof -
  obtain x where x: "b_err (jw_w w) = Some x" using assms(1) by (auto simp: failed_def)
  show ?thesis using assms x
    by (auto simp: padBlock_def flushBlock_def failed_def Let_def split: if_splits prod.splits
        dest!: writeAll_sticky [OF x])
qed

lemma journal_Write_unfold:
  "first \<or> 0 < length recd \<Longrightarrow> padBlock w = (None, w1) \<Longrightarrow>
   blockOffset w1 = base off \<Longrightarrow>
   journal_Write first recd w = journal_Write False (drop (fragment off recd) recd)
     (emitChunk (chunkType first (fragment off recd = length recd)) (take (fragment off recd) recd) w1)"
proof -
  assume a: "first \<or> 0 < length recd" "padBlock w = (None, w1)" "blockOffset w1 = base off"
  then show ?thesis
    by (subst journal_Write.simps) (auto simp: Let_def fragment_def min_def)
qed

lemma journal_Write_ok:
  "live w L off \<Longrightarrow> journal_Write first recd w = (e, w') \<Longrightarrow> frame off first recd = (b, off') \<Longrightarrow>
   (e = None \<and> live w' (L @ b) off') \<or> (e \<noteq> None \<and> failed w' (L @ b))"
proof (induction off first recd arbitrary: w L b rule: frame.induct)
  case (1 off first recd)
  show ?case
  proof (cases "first \<or> 0 < length recd")
    case False
    with "1.prems" show ?thesis by (auto simp: journal_Write.simps [of first] frame.simps [of off])
  next
    case True
    let ?n = "fragment off recd"
    let ?c = "chunk (chunkType first (?n = length recd)) (take ?n recd)"
    obtain b2 where f: "frame (base off + headerSize + ?n) False (drop ?n recd) = (b2, off')"
      and b: "b = padding off @ ?c @ b2"
      using "1.prems"(3) True by (subst (asm) frame.simps) (auto simp: Let_def split: prod.splits)
    obtain e1 w1 where p: "padBlock w = (e1, w1)" by fastforce
    from padBlock_ok [OF "1.prems"(1) p] show ?thesis
    proof (elim disjE conjE)
      assume e1: "e1 = None" and lv: "live w1 (L @ padding off) (base off)"
      let ?w = "emitChunk (chunkType first (?n = length recd)) (take ?n recd) w1"
      have o1: "blockOffset w1 = base off" using lv by (simp add: live_def)
      have off: "off \<le> blockSize" using "1.prems"(1) by (simp add: live_def)
      have len: "length (take ?n recd) = ?n" by (simp add: fragment_def)
      have lv2: "live ?w (L @ padding off @ ?c) (base off + headerSize + ?n)"
        using lv fragment_bound [OF off, of recd] len by (simp add: live_def emitChunk_def)
      have "journal_Write False (drop ?n recd) ?w = (e, w')"
        using "1.prems"(2) journal_Write_unfold [OF True _ o1] p e1 by simp
      from "1.IH" [OF _ refl lv2 this f] True show ?thesis unfolding b by simp
    next
      assume "e1 \<noteq> None" "failed w1 (L @ padding off)"
      with "1.prems"(2) p True show ?thesis
        using failed_mono [of w1 "L @ padding off" "?c @ b2"]
        by (subst (asm) journal_Write.simps) (auto simp: b)
    qed
  qed
qed

lemma journal_Write_failed:
  "failed w L \<Longrightarrow> journal_Write first recd w = (e, w') \<Longrightarrow> failed w' L"
proof (induction first recd w rule: journal_Write.induct)
  case (1 first recd w)
  obtain e1 w1 where p: "padBlock w = (e1, w1)" by fastforce
  have f1: "failed w1 L" using padBlock_failed [OF "1.prems"(1) p] .
  then have "failed (emitChunk t d w1) L" for t d by (simp add: failed_def emitChunk_def)
  with "1.prems" f1 "1.IH" [OF _ p [symmetric] refl _ refl refl refl] p show ?case
    by (subst (asm) journal_Write.simps) (auto simp: Let_def split: if_splits option.splits)
qed

lemma journal_Flush_ok:
  assumes "live w L off" "journal_Flush w = (e, w')"
  shows "(e = None \<and> (live w' L off \<or> off = blockSize \<and> live w' L 0) \<and> dst_data (jw_w w') = L)
       \<or> (e \<noteq> None \<and> failed w' L)"
proof -
  let ?p = "drop (flushedOffset w) (block w)"
  have none: "b_err (jw_w w) = None" and L: "logical (jw_w w) @ ?p = L"
    using assms(1) by (auto simp: live_def)
  obtain e1 b1 where w: "writeAll (jw_w w) ?p = (e1, b1)" by fastforce
  note acc = writeAll_ok [OF none w, unfolded accepted_def L]
  show ?thesis
  proof (cases "flushedOffset w \<noteq> blockOffset w \<and> e1 \<noteq> None")
    case True
    with assms(2) w acc show ?thesis by (auto simp: journal_Flush_def failed_def)
  next
    case False
    let ?w = "if flushedOffset w \<noteq> blockOffset w then
        if blockOffset w = blockSize then w\<lparr>jw_w := b1, block := [], flushedOffset := 0\<rparr>
        else w\<lparr>jw_w := b1, flushedOffset := blockOffset w\<rparr> else w"
    have n1: "b_err (jw_w ?w) = None" and l1: "logical (jw_w ?w) = L"
      and lv: "live ?w L off \<or> off = blockSize \<and> live ?w L 0"
      using False acc none L assms(1) by (auto simp: live_def split: if_splits option.splits)
    obtain e2 b2 where f: "bufio_Flush (jw_w ?w) = (e2, b2)" by fastforce
    have res: "e = e2" "w' = ?w\<lparr>jw_w := b2\<rparr>"
      using assms(2) w False f by (auto simp: journal_Flush_def Let_def split: if_splits)
    have acc2: "accepted (jw_w ?w) [] e2 b2" and emp: "e2 = None \<longrightarrow> b_buf b2 = []"
      using bufio_Flush_ok [OF n1 f] by auto
    have drp: "drop (flushedOffset ?w) (block ?w) = []"
      using assms(1) by (auto simp: live_def)
    show ?thesis
    proof (cases e2)
      case None
      with acc2 emp l1 have "b_err b2 = None" "dst_data b2 = L" "logical b2 = L" by (auto simp: accepted_def)
      with None lv drp show ?thesis unfolding res live_def by auto
    next
      case (Some x)
      with acc2 l1 show ?thesis unfolding res by (simp add: accepted_def failed_def)
    qed
  qed
qed

lemma journal_Flush_failed:
  assumes "failed w L" "journal_Flush w = (e, w')" shows "failed w' L \<and> e \<noteq> None"
proof -
  obtain x where x: "b_err (jw_w w) = Some x" using assms(1) by (auto simp: failed_def)
  obtain e1 b1 where w: "writeAll (jw_w w) (drop (flushedOffset w) (block w)) = (e1, b1)" by fastforce
  from writeAll_sticky [OF x w] have b1: "b1 = jw_w w" by simp
  have f: "bufio_Flush (jw_w w) = (Some x, jw_w w)" by (simp add: bufio_Flush_def x)
  have "jw_w w' = jw_w w \<and> e \<noteq> None" using assms(2) w unfolding b1
    by (cases e1) (auto simp: journal_Flush_def f Let_def split: if_splits)
  with assms(1) show ?thesis by (simp add: failed_def)
qed

text \<open>A sequence of calls on the writer, with the results it returned.\<close>

datatype jop = JWrite bytes | JFlush

fun jstep :: "jop \<Rightarrow> journalWriter \<Rightarrow> error option \<times> journalWriter" where
  "jstep (JWrite r) w = journal_Write True r w"
| "jstep JFlush w = journal_Flush w"

fun jrun :: "jop list \<Rightarrow> journalWriter \<Rightarrow> journalWriter" where
  "jrun [] w = w"
| "jrun (x # xs) w = jrun xs (snd (jstep x w))"

fun jrecords :: "jop list \<Rightarrow> bytes list" where
  "jrecords [] = []"
| "jrecords (JWrite r # xs) = r # jrecords xs"
| "jrecords (JFlush # xs) = jrecords xs"

lemma jrun_append: "jrun (xs @ ys) w = jrun ys (jrun xs w)"
  by (induction xs arbitrary: w) auto

lemma jrecords_append: "jrecords (xs @ ys) = jrecords xs @ jrecords ys"
  by (induction xs rule: jrecords.induct) auto

lemma jrun_failed: "failed w L \<Longrightarrow> failed (jrun xs w) L"
proof (induction xs arbitrary: w)
  case (Cons x xs)
  obtain e w1 where w: "jstep x w = (e, w1)" by fastforce
  have "failed (snd (jstep x w)) L"
    using w journal_Write_failed [OF Cons.prems, of True _ e w1] journal_Flush_failed [OF Cons.prems, of e w1]
    by (cases x) auto
  with Cons.IH show ?case by simp
qed simp

lemma frames_blockSize: "fst (frames blockSize rs) = fst (frames 0 rs)"
  by (cases rs) (auto simp: frame_blockSize split: prod.splits)

lemma jrun_ok:
  "live w L off \<Longrightarrow>
   (\<exists>off'. live (jrun xs w) (L @ fst (frames off (jrecords xs))) off')
   \<or> failed (jrun xs w) (L @ fst (frames off (jrecords xs)))"
proof (induction xs arbitrary: w L off)
  case Nil
  then show ?case by auto
next
  case (Cons x xs)
  show ?case
  proof (cases x)
    case (JWrite r)
    obtain b o1 where f: "frame off True r = (b, o1)" by fastforce
    obtain e w1 where w: "journal_Write True r w = (e, w1)" by fastforce
    have fr: "fst (frames off (jrecords (x # xs))) = b @ fst (frames o1 (jrecords xs))"
      by (simp add: JWrite f split: prod.splits)
    from journal_Write_ok [OF Cons.prems w f] show ?thesis
    proof
      assume "e = None \<and> live w1 (L @ b) o1"
      with Cons.IH [of w1 "L @ b" o1] show ?thesis unfolding fr by (simp add: JWrite w)
    next
      assume "e \<noteq> None \<and> failed w1 (L @ b)"
      then have "failed (jrun xs w1) (L @ b @ fst (frames o1 (jrecords xs)))"
        using jrun_failed failed_mono by (metis append.assoc)
      then show ?thesis unfolding fr by (simp add: JWrite w)
    qed
  next
    case JFlush
    obtain e w1 where w: "journal_Flush w = (e, w1)" by fastforce
    from journal_Flush_ok [OF Cons.prems w] consider
      (a) "live w1 L off" | (b) "off = blockSize" "live w1 L 0" | (c) "failed w1 L" by blast
    then show ?thesis
    proof cases
      case a
      with Cons.IH [of w1 L off] show ?thesis by (simp add: JFlush w)
    next
      case b
      with Cons.IH [of w1 L 0] show ?thesis by (simp add: JFlush w frames_blockSize)
    next
      case c
      then show ?thesis using jrun_failed failed_mono by (simp add: JFlush w)
    qed
  qed
qed

lemma newJournalWriter_live: "live (newJournalWriter \<lparr>f_data = [], f_sched = s\<rparr>) [] 0"
  by (simp add: live_def newJournalWriter_def)

end
