(* ===== verification/Journal_Replay.thy ===== *)
theory Journal_Replay
  imports Journal
begin

text \<open>
  Reading a journal back.  The reader is shown to undo the framing record by
  record, to skip exactly the padding the writer leaves, and to report end of
  file on every proper prefix of a record's frame.
\<close>

section \<open>The reader undoes the framing\<close>

text \<open>
  A reader that tolerates a torn tail, at block offset \<open>off\<close> with the bytes \<open>s\<close>
  still to come: the rest of the current block is buffered, what follows is
  still in the file.
\<close>

definition reader_at :: "journalReader \<Rightarrow> nat \<Rightarrow> bytes \<Rightarrow> bool" where
  "reader_at r off s \<longleftrightarrow> \<not> strictTail r \<and> off \<le> blockSize \<and> r_blockOffset r \<le> blockLen r
     \<and> (r_blockOffset r = off \<or> off = blockSize) \<and> (r_eof r \<longrightarrow> r_src r = [])
     \<and> drop (r_blockOffset r) (r_block r) = take (blockSize - off) s \<and> r_src r = drop (blockSize - off) s"

lemma newJournalReader_at: "reader_at (newJournalReader s) blockSize s"
  by (simp add: reader_at_def newJournalReader_def)

lemma reader_at_avail: "reader_at r off s \<Longrightarrow> blockLen r - r_blockOffset r = min (length s) (blockSize - off)"
  unfolding reader_at_def by (metis length_drop length_take)

lemma fill_ok:
  assumes "reader_at r off s" "drop (blockSize - off) s \<noteq> []"
  shows "\<exists>r'. fill r = (None, r') \<and> reader_at r' 0 (drop (blockSize - off) s) \<and> r_blockOffset r' = 0"
  using assms by (auto simp: fill_def reader_at_def Let_def)

lemma fill_eof:
  assumes "reader_at r off s" "drop (blockSize - off) s = []"
  shows "\<exists>r'. fill r = (Some IoEOF, r') \<and> \<not> strictTail r'"
  using assms by (auto simp: fill_def reader_at_def)

text \<open>Before a chunk the reader skips exactly the padding the writer left.\<close>

lemma refill_ok:
  assumes "reader_at r off (padding off @ t)" "headerSize \<le> length t"
  shows "\<exists>r'. refill r = (None, r') \<and> reader_at r' (base off) t \<and> r_blockOffset r' = base off"
proof (cases "blockSize - off < headerSize")
  case True
  have t: "t \<noteq> []" using assms(2) by (auto simp: headerSize_def)
  have s: "drop (blockSize - off) (padding off @ t) = t" using True by (simp add: padding_def)
  obtain r' where f: "fill r = (None, r')" and r': "reader_at r' 0 t" "r_blockOffset r' = 0"
    using fill_ok [OF assms(1)] t unfolding s by blast
  have "blockLen r - r_blockOffset r < headerSize" using reader_at_avail [OF assms(1)] True by simp
  moreover have "\<not> blockLen r' - r_blockOffset r' < headerSize"
    using reader_at_avail [OF r'(1)] assms(2) by (simp add: headerSize_def blockSize_def)
  moreover have "\<not> strictTail r" using assms(1) by (simp add: reader_at_def)
  ultimately show ?thesis using f r' True by (simp add: refill_def base_def)
next
  case False
  then have p: "padding off = []" and b: "base off = off" by (simp_all add: padding_def base_def)
  with assms have r: "reader_at r off t" by simp
  have "\<not> blockLen r - r_blockOffset r < headerSize"
    using reader_at_avail [OF r] assms(2) False by simp
  moreover have "r_blockOffset r = off"
    using r False by (auto simp: reader_at_def headerSize_def)
  ultimately show ?thesis using r b by (simp add: refill_def)
qed

lemma refill_torn:
  assumes "reader_at r off s" "prefix s (padding off @ t)" "length s < length (padding off) + headerSize"
  shows "\<exists>r'. refill r = (Some IoEOF, r')"
proof -
  have ns: "\<not> strictTail r" using assms(1) by (simp add: reader_at_def)
  have av: "blockLen r - r_blockOffset r < headerSize"
    using reader_at_avail [OF assms(1)] assms(3) by (auto simp: padding_def split: if_splits)
  show ?thesis
  proof (cases "drop (blockSize - off) s = []")
    case True
    with fill_eof [OF assms(1)] av ns show ?thesis by (auto simp: refill_def)
  next
    case False
    then have roll: "blockSize - off < headerSize" "length (padding off) = blockSize - off"
      using assms(3) by (auto simp: padding_def split: if_splits)
    obtain r' where f: "fill r = (None, r')" and r': "reader_at r' 0 (drop (blockSize - off) s)"
      using fill_ok [OF assms(1) False] by blast
    have "blockLen r' - r_blockOffset r' < headerSize"
      using reader_at_avail [OF r'] assms(3) roll unfolding headerSize_def
      by (simp add: min_less_iff_disj) arith
    moreover have "\<not> strictTail r'" using r' by (simp add: reader_at_def)
    ultimately show ?thesis using f av ns by (simp add: refill_def)
  qed
qed

lemma chunk_fields:
  assumes "length data < 65536" "drop off blk = chunk typ data @ t"
  shows "unat (Uint16 (drop (off + 4) blk)) = length data" "blk ! (off + 6) = typ"
    "take (length data) (drop (off + headerSize) blk) = data"
    "Uint32 (drop off blk) = crc32_Update (crc32_Update 0 [typ]) data"
    "length blk = off + headerSize + length data + length t"
proof -
  let ?crc = "PutUint32 (crc32_Update (crc32_Update 0 [typ]) data)" and ?len = "PutUint16 (word_of_nat (length data))"
  have d: "drop (off + k) blk = drop k (?crc @ ?len @ [typ] @ data @ t)" for k
    using arg_cong [OF assms(2), of "drop k"] by (simp add: chunk_def add.commute)
  have ne: "drop off blk \<noteq> []" using assms(2) by (simp add: chunk_def)
  then have off: "off < length blk" by (meson drop_all not_le)
  show "unat (Uint16 (drop (off + 4) blk)) = length data"
    unfolding d using assms(1) by (simp add: unat_of_nat)
  show "take (length data) (drop (off + headerSize) blk) = data" unfolding d by (simp add: headerSize_def)
  show "Uint32 (drop off blk) = crc32_Update (crc32_Update 0 [typ]) data"
    using d [of 0] by simp
  have "length (drop off blk) = headerSize + length data + length t" unfolding assms(2) by simp
  then show "length blk = off + headerSize + length data + length t" using off by simp
  then have "blk ! (off + 6) = drop (off + 6) blk ! 0" by (simp add: headerSize_def)
  then show "blk ! (off + 6) = typ" unfolding d by simp
qed

lemma readChunk_ok:
  assumes "reader_at r off (padding off @ chunk typ data @ s)" "base off + headerSize + length data \<le> blockSize" "typ \<noteq> 0"
  shows "\<exists>r'. readChunk r = (Inr (typ, data), r') \<and> reader_at r' (base off + headerSize + length data) s"
proof -
  let ?o = "base off"
  obtain r1 where f: "refill r = (None, r1)" and r1: "reader_at r1 ?o (chunk typ data @ s)" "r_blockOffset r1 = ?o"
    using refill_ok [OF assms(1)] by auto
  have len: "length data < 65536" using assms(2) by (simp add: blockSize_def)
  have blk: "drop ?o (r_block r1) = chunk typ data @ take (blockSize - (?o + headerSize + length data)) s"
    using r1 assms(2) by (simp add: reader_at_def add.assoc)
  note F = chunk_fields [OF len blk]
  have rc: "readChunk r = (Inr (typ, data), r1\<lparr>r_blockOffset := ?o + headerSize + length data\<rparr>)"
    using F f assms(3) r1(2) by (simp add: readChunk_def Let_def)
  have "drop (?o + headerSize + length data) (r_block r1) = take (blockSize - (?o + headerSize + length data)) s"
    using arg_cong [OF blk, of "drop (headerSize + length data)"] by (simp add: ac_simps)
  moreover have "blockSize - ?o - (headerSize + length data) = blockSize - (?o + headerSize + length data)" by simp
  ultimately have "reader_at (r1\<lparr>r_blockOffset := ?o + headerSize + length data\<rparr>) (?o + headerSize + length data) s"
    using r1 assms(2) F(5) by (auto simp: reader_at_def add.assoc)
  with rc show ?thesis by blast
qed

lemma readChunk_torn:
  assumes "reader_at r off s" "strict_prefix s (padding off @ chunk typ data)"
    "base off + headerSize + length data \<le> blockSize" "typ \<noteq> 0"
  shows "\<exists>r'. readChunk r = (Inl IoEOF, r')"
proof (cases "length s < length (padding off) + headerSize")
  case True
  with refill_torn [OF assms(1) prefix_order.less_imp_le [OF assms(2)]] show ?thesis
    by (auto simp: readChunk_def Let_def)
next
  case False
  let ?o = "base off"
  obtain t where s: "s = padding off @ t" and t: "prefix t (chunk typ data)"
  proof -
    from assms(2) have p: "prefix s (padding off @ chunk typ data)" by (simp add: strict_prefix_def)
    have "prefix (padding off) s"
      using prefix_length_prefix [OF _ p, of "padding off"] False by simp
    then obtain t where "s = padding off @ t" by (auto simp: prefix_def)
    with p that show thesis by simp
  qed
  have short: "length t < headerSize + length data"
    using prefix_length_less [OF assms(2)] s by simp
  have long: "headerSize \<le> length t" using False s by simp
  obtain r1 where f: "refill r = (None, r1)" and r1: "reader_at r1 ?o t" "r_blockOffset r1 = ?o"
    using refill_ok [of r off t] assms(1) long unfolding s by blast
  have blk: "drop ?o (r_block r1) = t" using r1 short assms(3) by (simp add: reader_at_def)
  then have len: "blockLen r1 = ?o + length t"
    using r1 by (auto simp: reader_at_def)
  obtain u where u: "chunk typ data = t @ u" using t by (auto simp: prefix_def)
  have "drop ?o (r_block r1 @ u) = chunk typ data @ []" using blk len u by simp
  note F = chunk_fields [OF _ this]
  have 65: "length data < 65536" using assms(3) by (simp add: blockSize_def)
  have "take 2 (drop (?o + 4) (r_block r1 @ u)) = take 2 (drop (?o + 4) (r_block r1))"
    using len long by (simp add: headerSize_def)
  then have "Uint16 (drop (?o + 4) (r_block r1 @ u)) = Uint16 (drop (?o + 4) (r_block r1))"
    unfolding Uint16_def by (rule arg_cong)
  with F(1) [OF 65] have "unat (Uint16 (drop (?o + 4) (r_block r1))) = length data" by (simp only:)
  moreover have "r_block r1 ! (?o + 6) = typ"
    using F(2) [OF 65] len long by (simp add: nth_append headerSize_def)
  moreover have "blockLen r1 < ?o + headerSize + length data" "blockLen r1 < blockSize"
    using len short assms(3) by simp_all
  moreover have "\<not> strictTail r1" using r1 by (simp add: reader_at_def)
  ultimately show ?thesis using f r1(2) assms(4) by (simp add: readChunk_def Let_def)
qed

lemma chunkType_nz: "chunkType first final \<noteq> 0"
  by (simp add: chunkType_def chunk_defs)

lemma readChunk_strictTail: "readChunk r = (x, r') \<Longrightarrow> strictTail r' = strictTail r"
proof -
  assume a: "readChunk r = (x, r')"
  obtain e r1 where f: "refill r = (e, r1)" by fastforce
  then have "strictTail r1 = strictTail r"
    by (auto simp: refill_def fill_def Let_def split: if_splits option.splits)
  with a f show ?thesis by (auto simp: readChunk_def Let_def split: option.splits if_splits)
qed

lemma frame_unfold:
  assumes "first \<or> 0 < length recd" "frame off first recd = (b, off')"
  obtains b2 where
    "b = padding off @ chunk (chunkType first (fragment off recd = length recd)) (take (fragment off recd) recd) @ b2"
    "frame (base off + headerSize + fragment off recd) False (drop (fragment off recd) recd) = (b2, off')"
proof -
  from assms that show thesis by (subst (asm) frame.simps) (auto simp: Let_def split: prod.splits)
qed

lemma min_fragment [simp]: "min (length recd) (fragment off recd) = fragment off recd"
  by (simp add: fragment_def)

lemma Next_frame:
  "off \<le> blockSize \<Longrightarrow> first \<or> 0 < length recd \<Longrightarrow> frame off first recd = (b, off') \<Longrightarrow>
   reader_at r off (b @ s) \<Longrightarrow> (first \<longrightarrow> acc = []) \<Longrightarrow>
   \<exists>r'. journal_Next r acc (\<not> first) = (Inr (acc @ recd), r') \<and> reader_at r' off' s"
proof (induction off first recd arbitrary: b r acc rule: frame.induct)
  case (1 off first recd)
  let ?n = "fragment off recd" and ?o = "base off + headerSize + fragment off recd"
  let ?ty = "chunkType first (?n = length recd)"
  obtain b2 where b: "b = padding off @ chunk ?ty (take ?n recd) @ b2"
    and f: "frame ?o False (drop ?n recd) = (b2, off')"
    using frame_unfold [OF "1.prems"(2,3)] .
  have bound: "?o \<le> blockSize" using fragment_bound [OF "1.prems"(1)] .
  have at: "reader_at r off (padding off @ chunk ?ty (take ?n recd) @ (b2 @ s))"
    using "1.prems"(4) b by simp
  obtain r1 where rc: "readChunk r = (Inr (?ty, take ?n recd), r1)" and r1: "reader_at r1 ?o (b2 @ s)"
    using readChunk_ok [OF at _ chunkType_nz] bound by auto
  show ?case
  proof (cases "?n = length recd")
    case True
    then have "b2 = []" "off' = ?o" using f by (auto simp: frame.simps)
    with rc r1 True "1.prems"(5) show ?thesis
      by (subst journal_Next.simps) (auto simp: chunkType_def chunk_defs)
  next
    case False
    then have ne: "0 < length (drop ?n recd)" by (simp add: fragment_def)
    have "\<exists>r'. journal_Next r1 (acc @ take ?n recd) (\<not> False) = (Inr ((acc @ take ?n recd) @ drop ?n recd), r')
        \<and> reader_at r' off' s"
      using "1.IH" [OF _ refl bound _ f r1] "1.prems"(2) ne by blast
    with rc False show ?thesis
      by (subst journal_Next.simps) (auto simp: chunkType_def chunk_defs)
  qed
qed

lemma Next_torn:
  "off \<le> blockSize \<Longrightarrow> first \<or> 0 < length recd \<Longrightarrow> frame off first recd = (b, off') \<Longrightarrow>
   reader_at r off s \<Longrightarrow> strict_prefix s b \<Longrightarrow>
   \<exists>r'. journal_Next r acc (\<not> first) = (Inl IoEOF, r')"
proof (induction off first recd arbitrary: b r acc s rule: frame.induct)
  case (1 off first recd)
  let ?n = "fragment off recd" and ?o = "base off + headerSize + fragment off recd"
  let ?ty = "chunkType first (?n = length recd)" and ?c = "chunk (chunkType first (fragment off recd = length recd)) (take (fragment off recd) recd)"
  obtain b2 where b: "b = padding off @ ?c @ b2"
    and f: "frame ?o False (drop ?n recd) = (b2, off')"
    using frame_unfold [OF "1.prems"(2,3)] .
  have bound: "?o \<le> blockSize" using fragment_bound [OF "1.prems"(1)] .
  have ns: "\<not> strictTail r" using "1.prems"(4) by (simp add: reader_at_def)
  show ?case
  proof (cases "strict_prefix s (padding off @ ?c)")
    case True
    obtain r1 where "readChunk r = (Inl IoEOF, r1)"
      using readChunk_torn [OF "1.prems"(4) True _ chunkType_nz] bound by auto
    with readChunk_strictTail [OF this] ns show ?thesis by (subst journal_Next.simps) auto
  next
    case False
    have "prefix s ((padding off @ ?c) @ b2)" using "1.prems"(5) b by (simp add: strict_prefix_def)
    with False obtain t where s: "s = padding off @ ?c @ t"
      by (auto simp: prefix_append strict_prefix_def)
    then have t: "strict_prefix t b2" using "1.prems"(5) b by (simp add: strict_prefix_def)
    have nf: "?n \<noteq> length recd" using f t by (auto simp: frame.simps)
    then have ne: "0 < length (drop ?n recd)" by (simp add: fragment_def)
    obtain r1 where rc: "readChunk r = (Inr (?ty, take ?n recd), r1)" and r1: "reader_at r1 ?o t"
      using readChunk_ok [of r off ?ty "take ?n recd" t, OF _ _ chunkType_nz] bound "1.prems"(4) s by auto
    have "\<exists>r'. journal_Next r1 (acc' @ take ?n recd) (\<not> False) = (Inl IoEOF, r')" for acc'
      using "1.IH" [OF _ refl bound _ f r1 t] "1.prems"(2) ne by blast
    with rc nf show ?thesis
      by (subst journal_Next.simps) (auto simp: chunkType_def chunk_defs)
  qed
qed

section \<open>Replay\<close>

lemma journal_Next_size: "journal_Next r acc p = (Inr x, r') \<Longrightarrow> reader_size r' < reader_size r"
proof (induction r acc p rule: journal_Next.induct)
  case (1 r acc p)
  obtain y r1 where rc: "readChunk r = (y, r1)" by fastforce
  show ?case
  proof (cases y)
    case (Inl e)
    with rc "1.prems" show ?thesis by (subst (asm) journal_Next.simps) (auto split: if_splits)
  next
    case (Inr td)
    obtain t d where td: "td = (t, d)" by fastforce
    have lt: "reader_size r1 < reader_size r" using readChunk_size rc Inr td by blast
    have "r' = r1 \<or> journal_Next r1 (acc @ d) True = (Inr x, r') \<and> (t = chunkFirst \<and> \<not> p \<or> t = chunkMiddle \<and> p)"
      using "1.prems" rc Inr td
      by (subst (asm) journal_Next.simps) (auto split: if_splits)
    then show ?thesis
    proof (elim disjE conjE)
      assume "r' = r1"
      with lt show ?thesis by simp
    next
      assume n: "journal_Next r1 (acc @ d) True = (Inr x, r')" and t: "t = chunkFirst" "\<not> p"
      have "reader_size r' < reader_size r1"
        by (rule "1.IH"(1) [of y r1 td t d]) (use rc Inr td t n in \<open>auto simp: chunk_defs\<close>)
      with lt show ?thesis by simp
    next
      assume n: "journal_Next r1 (acc @ d) True = (Inr x, r')" and t: "t = chunkMiddle" "p"
      have "reader_size r' < reader_size r1"
        by (rule "1.IH"(2) [of y r1 td t d]) (use rc Inr td t n in \<open>auto simp: chunk_defs\<close>)
      with lt show ?thesis by simp
    qed
  qed
qed

text \<open>The replay loop of the manifest and of the log: records until \<open>Next\<close> fails.\<close>

function read_all :: "journalReader \<Rightarrow> bytes list \<times> error" where
  "read_all r =
     (case Next_record r of (Inl err, r') \<Rightarrow> ([], err)
      | (Inr x, r') \<Rightarrow> let (xs, err) = read_all r' in (x # xs, err))"
  by pat_completeness auto
termination
  by (relation "measure reader_size") (auto simp: Next_record_def dest: journal_Next_size [OF sym])

declare read_all.simps [simp del]

lemma frames_take_Suc:
  "length (fst (frames o1 (take k rs))) \<le> length (fst (frames o1 (take (Suc k) rs)))"
proof (induction rs arbitrary: o1 k)
  case (Cons r rs)
  then show ?case by (cases k) (auto split: prod.splits simp: case_prod_beta Let_def)
qed simp

lemma frame_not_Nil: "frame off True r = (b, off') \<Longrightarrow> b \<noteq> []"
  by (subst (asm) frame.simps) (auto simp: Let_def chunk_def split: prod.splits)

text \<open>
  On a prefix of a framed stream the reader returns the records it holds whole,
  all of them, and then end of file.
\<close>

lemma read_all_prefix:
  "off \<le> blockSize \<Longrightarrow> reader_at r off s \<Longrightarrow> prefix s (fst (frames off rs)) \<Longrightarrow>
   \<exists>k\<le>length rs. read_all r = (take k rs, IoEOF)
     \<and> (k < length rs \<longrightarrow> length s < length (fst (frames off (take (Suc k) rs))))"
proof (induction rs arbitrary: off r s)
  case Nil
  obtain b o1 where f: "frame off True [] = (b, o1)" by fastforce
  from Nil.prems have "strict_prefix s b" using frame_not_Nil [OF f] by (auto simp: strict_prefix_def)
  with Next_torn [OF Nil.prems(1) _ f Nil.prems(2), of "[]"] show ?case
    by (subst read_all.simps) (auto simp: Next_record_def)
next
  case (Cons x rs)
  obtain b o1 where f: "frame off True x = (b, o1)" by fastforce
  have fr: "fst (frames off (x # rs)) = b @ fst (frames o1 rs)" by (simp add: f split: prod.splits)
  have o1: "o1 \<le> blockSize" using frame_offset [OF Cons.prems(1), of True x] f by simp
  show ?case
  proof (cases "prefix b s")
    case True
    then obtain t where s: "s = b @ t" by (auto simp: prefix_def)
    with Cons.prems(3) fr have t: "prefix t (fst (frames o1 rs))" by simp
    obtain r1 where n: "journal_Next r [] False = (Inr x, r1)" and r1: "reader_at r1 o1 t"
      using Next_frame [OF Cons.prems(1) _ f, of r t "[]"] Cons.prems(2) s by auto
    obtain k where k: "k \<le> length rs" "read_all r1 = (take k rs, IoEOF)"
      "k < length rs \<longrightarrow> length t < length (fst (frames o1 (take (Suc k) rs)))"
      using Cons.IH [OF o1 r1 t] by blast
    have "read_all r = (take (Suc k) (x # rs), IoEOF)"
      using n k by (subst read_all.simps) (simp add: Next_record_def)
    moreover have "Suc k < length (x # rs) \<longrightarrow> length s < length (fst (frames off (take (Suc (Suc k)) (x # rs))))"
      using k(3) s by (auto simp: f split: prod.splits)
    ultimately show ?thesis using k(1) by (intro exI [of _ "Suc k"]) simp
  next
    case False
    have "strict_prefix s b"
      using Cons.prems(3) False unfolding fr by (auto simp: prefix_append strict_prefix_def)
    with Next_torn [OF Cons.prems(1) _ f Cons.prems(2), of "[]"] have "read_all r = ([], IoEOF)"
      by (subst read_all.simps) (auto simp: Next_record_def)
    moreover have "length s < length b" using \<open>strict_prefix s b\<close> by (rule prefix_length_less)
    ultimately show ?thesis by (intro exI [of _ 0]) (simp add: f split: prod.splits)
  qed
qed

lemma replay_prefix:
  assumes "prefix s (fst (frames 0 rs))"
  shows "\<exists>k\<le>length rs. read_all (newJournalReader s) = (take k rs, IoEOF)
     \<and> (k < length rs \<longrightarrow> length s < length (fst (frames 0 (take (Suc k) rs))))"
  using read_all_prefix [OF _ newJournalReader_at, of s rs] assms by (simp add: frames_blockSize)

text \<open>The file is append-only, whatever the outcomes.\<close>

lemma bufio_Flush_grows: "bufio_Flush b = (e, b') \<Longrightarrow> prefix (dst_data b) (dst_data b')"
  by (rule file_Write_cases [of "b_dst b" "b_buf b"])
     (auto simp: bufio_Flush_def split: option.splits if_splits)

lemma bufio_Write_grows: "bufio_Write b p = (n, e, b') \<Longrightarrow> prefix (dst_data b) (dst_data b')"
proof (induction b p arbitrary: n rule: bufio_Write.induct)
  case (1 b p)
  show ?case
  proof (cases "b_err b \<noteq> None \<or> length p \<le> b_size b - length (b_buf b)")
    case True
    with "1.prems" show ?thesis by (subst (asm) bufio_Write.simps) (auto split: option.splits)
  next
    case False
    then have none: "b_err b = None" and big: "b_size b - length (b_buf b) < length p" by auto
    show ?thesis
    proof (cases "b_buf b = []")
      case True
      obtain k e1 f where w: "file_Write (b_dst b) p = (k, e1, f)" by (cases "file_Write (b_dst b) p") auto
      obtain n2 where w2: "bufio_Write (b\<lparr>b_err := e1, b_dst := f\<rparr>) (drop k p) = (n2, e, b')"
        using "1.prems" none big True w by (auto simp: bufio_Write.simps [of b p] Let_def split: prod.splits)
      have "prefix (dst_data b) (f_data f)"
        by (rule file_Write_cases [of "b_dst b" p]) (use w in auto)
      with "1.IH"(1) [OF none big True w [symmetric] refl refl w2] show ?thesis
        by (auto intro: prefix_order.trans)
    next
      case False
      let ?n = "b_size b - length (b_buf b)" and ?b = "b\<lparr>b_buf := b_buf b @ take (b_size b - length (b_buf b)) p\<rparr>"
      obtain e1 b1 where f: "bufio_Flush ?b = (e1, b1)" by fastforce
      obtain n2 where w: "bufio_Write b1 (drop ?n p) = (n2, e, b')"
        using "1.prems" big False f none by (auto simp: bufio_Write.simps [of b p] Let_def split: prod.splits)
      have "prefix (dst_data b) (dst_data b1)" using bufio_Flush_grows [OF f] by simp
      with "1.IH"(2) [OF none big False refl refl f [symmetric] w] show ?thesis
        by (auto intro: prefix_order.trans)
    qed
  qed
qed

lemma writeAll_grows: "writeAll b p = (e, b') \<Longrightarrow> prefix (dst_data b) (dst_data b')"
proof (induction b p rule: writeAll.induct)
  case (1 b p)
  obtain n e1 b1 where w: "bufio_Write b p = (n, e1, b1)" by (cases "bufio_Write b p") auto
  with "1.prems" "1.IH" [OF _ w [symmetric] refl] bufio_Write_grows [OF w] show ?case
    by (subst (asm) writeAll.simps)
       (auto split: if_splits option.splits intro: prefix_order.trans)
qed

lemma padBlock_grows: "padBlock w = (e, w') \<Longrightarrow> prefix (dst_data (jw_w w)) (dst_data (jw_w w'))"
  by (auto simp: padBlock_def flushBlock_def split: if_splits prod.splits dest: writeAll_grows)

lemma journal_Write_grows:
  "journal_Write first recd w = (e, w') \<Longrightarrow> prefix (dst_data (jw_w w)) (dst_data (jw_w w'))"
proof (induction first recd w rule: journal_Write.induct)
  case (1 first recd w)
  obtain e1 w1 where p: "padBlock w = (e1, w1)" by fastforce
  have "dst_data (jw_w (emitChunk t d w1)) = dst_data (jw_w w1)" for t d by (simp add: emitChunk_def)
  with "1.prems" "1.IH" [OF _ p [symmetric] refl _ refl refl refl] p padBlock_grows [OF p] show ?case
    by (subst (asm) journal_Write.simps)
       (auto simp: Let_def split: if_splits option.splits intro: prefix_order.trans)
qed

lemma journal_Flush_grows: "journal_Flush w = (e, w') \<Longrightarrow> prefix (dst_data (jw_w w)) (dst_data (jw_w w'))"
  by (auto simp: journal_Flush_def Let_def split: if_splits prod.splits option.splits
      dest!: writeAll_grows bufio_Flush_grows intro: prefix_order.trans)

lemma jrun_grows: "prefix (dst_data (jw_w w)) (dst_data (jw_w (jrun xs w)))"
proof (induction xs arbitrary: w)
  case (Cons x xs)
  obtain e w1 where w: "jstep x w = (e, w1)" by fastforce
  then have "prefix (dst_data (jw_w w)) (dst_data (jw_w w1))"
    by (cases x) (auto dest: journal_Write_grows journal_Flush_grows)
  with Cons.IH [of w1] w show ?case by (auto intro: prefix_order.trans)
qed simp

lemma frames_take_mono:
  "k \<le> m \<Longrightarrow> length (fst (frames off (take k rs))) \<le> length (fst (frames off (take m rs)))"
proof (induction rule: dec_induct)
  case (step n)
  then show ?case using frames_take_Suc [of off n rs] by simp
qed simp

text \<open>A record that fits in the rest of the block is one full chunk.\<close>

lemma journal_Write_small:
  "blockOffset w + headerSize + length r \<le> blockSize \<Longrightarrow>
   journal_Write True r w = (None, emitChunk chunkFull r w)"
  by (subst journal_Write.simps)
     (auto simp: padBlock_def Let_def chunkType_def journal_Write.simps [of False "[]"])

lemma read_all_frames:
  "read_all (newJournalReader (fst (frames 0 rs))) = (rs, IoEOF)"
proof -
  obtain k where k: "k \<le> length rs" "read_all (newJournalReader (fst (frames 0 rs))) = (take k rs, IoEOF)"
    "k < length rs \<longrightarrow> length (fst (frames 0 rs)) < length (fst (frames 0 (take (Suc k) rs)))"
    using replay_prefix [of "fst (frames 0 rs)" rs] by auto
  have "k = length rs"
  proof (rule ccontr)
    assume "k \<noteq> length rs"
    with k(1,3) frames_take_mono [of "Suc k" "length rs" 0 rs] show False by auto
  qed
  with k(2) show ?thesis by simp
qed

section \<open>Without failures every call succeeds\<close>

lemma padBlock_healthy:
  "healthy (jw_w w) \<Longrightarrow> padBlock w = (e, w') \<Longrightarrow> e = None \<and> healthy (jw_w w')"
  by (auto simp: padBlock_def flushBlock_def split: if_splits prod.splits dest: writeAll_healthy)

lemma journal_Write_healthy:
  "healthy (jw_w w) \<Longrightarrow> journal_Write first recd w = (e, w') \<Longrightarrow> e = None \<and> healthy (jw_w w')"
proof (induction first recd w rule: journal_Write.induct)
  case (1 first recd w)
  obtain e1 w1 where p: "padBlock w = (e1, w1)" by fastforce
  have h: "e1 = None" "healthy (jw_w w1)" using padBlock_healthy [OF "1.prems"(1) p] by auto
  then have "healthy (jw_w (emitChunk t d w1))" for t d by (simp add: emitChunk_def)
  with "1.prems" h "1.IH" [OF _ p [symmetric] refl _ refl refl refl] p show ?case
    by (subst (asm) journal_Write.simps) (auto simp: Let_def split: if_splits)
qed

lemma journal_Flush_healthy:
  assumes "healthy (jw_w w)" "journal_Flush w = (e, w')" shows "e = None \<and> healthy (jw_w w')"
proof -
  obtain e1 b1 where w: "writeAll (jw_w w) (drop (flushedOffset w) (block w)) = (e1, b1)" by fastforce
  have h: "e1 = None" "healthy b1" using writeAll_healthy [OF assms(1) w] by auto
  obtain e2 b2 where f: "bufio_Flush b1 = (e2, b2)" by fastforce
  obtain e3 b3 where g: "bufio_Flush (jw_w w) = (e3, b3)" by fastforce
  show ?thesis
    using assms(2) w h f g bufio_Flush_healthy [OF h(2) f] bufio_Flush_healthy [OF assms(1) g]
    by (auto simp: journal_Flush_def Let_def split: if_splits)
qed

section \<open>Properties\<close>

abbreviation jfile :: "journalWriter \<Rightarrow> bytes" where "jfile w \<equiv> f_data (b_dst (jw_w w))"

text \<open>
  C4.  The journal survives failures and crashes.  Start with an empty file and
  make any sequence of writes and flushes, with any schedule of write failures;
  lose any tail of the file.  Reading the rest back yields a prefix of the records
  written, in order and unaltered, followed by end of file, never a corruption.
  Moreover a flush that reported success is durable: as long as the bytes that
  were in the file at that flush are still there, every record written before it
  is replayed, whatever was written or failed afterwards.
\<close>

theorem journal_crash_safe:
  fixes sched ops1 ops2 n
  defines "w0 \<equiv> newJournalWriter \<lparr>f_data = [], f_sched = sched\<rparr>"
  defines "w1 \<equiv> jrun ops1 w0"
  defines "w2 \<equiv> snd (journal_Flush w1)"
  defines "w3 \<equiv> jrun ops2 w2"
  shows "\<exists>k. read_all (newJournalReader (take n (jfile w3))) = (take k (jrecords (ops1 @ ops2)), IoEOF)
    \<and> (fst (journal_Flush w1) = None \<and> length (jfile w2) \<le> n \<longrightarrow> length (jrecords ops1) \<le> k)"
proof -
  let ?rs = "jrecords (ops1 @ ops2)" and ?s = "take n (jfile w3)"
  have run: "w3 = jrun (ops1 @ JFlush # ops2) w0" by (simp add: w3_def w2_def w1_def jrun_append)
  have recs: "jrecords (ops1 @ JFlush # ops2) = ?rs" by (simp add: jrecords_append)
  have "prefix (jfile w3) (fst (frames 0 ?rs))"
    using jrun_ok [OF newJournalWriter_live [of sched], of "ops1 @ JFlush # ops2", unfolded recs]
    unfolding run w0_def by (auto simp: failed_def dest: live_prefix)
  then have pre: "prefix ?s (fst (frames 0 ?rs))" by (meson prefix_order.trans take_is_prefix)
  from replay_prefix [OF this] obtain k where k: "k \<le> length ?rs"
    "read_all (newJournalReader ?s) = (take k ?rs, IoEOF)"
    "k < length ?rs \<longrightarrow> length ?s < length (fst (frames 0 (take (Suc k) ?rs)))" by blast
  have "length (jrecords ops1) \<le> k" if ok: "fst (journal_Flush w1) = None" and n: "length (jfile w2) \<le> n"
  proof (rule ccontr)
    assume "\<not> length (jrecords ops1) \<le> k"
    then have lt: "Suc k \<le> length (jrecords ops1)" by simp
    have fl: "journal_Flush w1 = (None, w2)" using ok by (simp add: w2_def prod_eq_iff)
    have "jfile w2 = fst (frames 0 (jrecords ops1))"
      using jrun_ok [OF newJournalWriter_live [of sched], of ops1] journal_Flush_ok [OF _ fl]
        journal_Flush_failed [OF _ fl] unfolding w1_def w0_def by auto
    moreover have "take (length (jrecords ops1)) ?rs = jrecords ops1" by (simp add: jrecords_append)
    ultimately have "length (fst (frames 0 (take (Suc k) ?rs))) \<le> length (jfile w2)"
      using frames_take_mono [OF lt, of 0 ?rs] by simp
    moreover have "length (jfile w2) \<le> length ?s"
      using prefix_length_le [OF jrun_grows [of w2 ops2]] n by (simp add: w3_def)
    moreover have "k < length ?rs" using lt by (simp add: jrecords_append)
    ultimately show False using k(3) by (auto simp: min_def split: if_splits)
  qed
  with k(2) show ?thesis by (intro exI [of _ k]) simp
qed

theorem journal_crash_safe_witness:
  "\<exists>k. read_all (newJournalReader (take 40 (jfile (jrun [JWrite [4]] (snd (journal_Flush (jrun [JWrite [1, 2], JWrite []]
       (newJournalWriter \<lparr>f_data = [], f_sched = [IO_ok, IO_fail 3 IoError]\<rparr>))))))))
     = (take k [[1, 2], [], [4]], IoEOF) \<and> 2 \<le> k"
proof -
  let ?w = "jrun [JWrite [1, 2], JWrite []] (newJournalWriter \<lparr>f_data = [], f_sched = [IO_ok, IO_fail 3 IoError]\<rparr>)"
  have "?w = (newJournalWriter \<lparr>f_data = [], f_sched = [IO_ok, IO_fail 3 IoError]\<rparr>)
      \<lparr>block := chunk chunkFull [1, 2] @ chunk chunkFull []\<rparr>"
    by (simp add: journal_Write_small newJournalWriter_def emitChunk_def headerSize_def blockSize_def)
  then have "fst (journal_Flush ?w) = None \<and> length (jfile (snd (journal_Flush ?w))) \<le> 40"
    by (simp add: journal_Flush_def newJournalWriter_def writeAll.simps bufio_Write.simps bufio_Flush_def
        journalBufSize_def push_bit_eq_mult file_Write_def blockSize_def headerSize_def)
  with journal_crash_safe [where sched = "[IO_ok, IO_fail 3 IoError]" and n = 40
      and ?ops1.0 = "[JWrite [1, 2], JWrite []]" and ?ops2.0 = "[JWrite [4]]"]
  show ?thesis by auto
qed


end
