(* ===== verification/Manifest.thy ===== *)
theory Manifest
  imports Ikey Wal_Record Journal_Replay
begin

text \<open>
  The manifest (\<^verbatim>\<open>manifest.go\<close>): the log of edits that records the live table and
  blob sets.  The theory models the edit codec with every error branch, the
  writer with its terminal error over the journal, and replay.  A replayed state
  is shown to be the one the edits describe, and the manifest is shown to be
  durable: whatever fails or is torn off after them, the edits whose append
  returned success are recovered.

  A key bound is optional (\<^verbatim>\<open>nil\<close> is \<open>None\<close>).  The state after replay keeps the
  live sets as maps from file numbers, since the order in which Go iterates its
  maps into the result slices is unspecified.
\<close>

record manifestTableInfo =
  ti_Num :: u32
  ti_Depth :: int
  ti_Size :: int
  ti_MinKey :: "bytes option"
  ti_MaxKey :: "bytes option"
  ti_Entries :: int
  ti_Tombstones :: int

record manifestBlobInfo =
  bi_Num :: u32
  bi_Size :: int

record manifestEdit =
  HasIdentity :: bool
  HasLastSeq :: bool
  LastSeq :: u64
  ReplayLogNum :: u32
  Added :: "manifestTableInfo list"
  Deleted :: "u32 list"
  AddedBlobs :: "manifestBlobInfo list"
  DeletedBlobs :: "u32 list"

definition emptyEdit :: manifestEdit where
  "emptyEdit = \<lparr>HasIdentity = False, HasLastSeq = False, LastSeq = 0, ReplayLogNum = 0,
     Added = [], Deleted = [], AddedBlobs = [], DeletedBlobs = []\<rparr>"

definition tagEnd :: byte where "tagEnd = 0"
definition tagIdentity :: byte where "tagIdentity = 1"
definition tagAdd :: byte where "tagAdd = 2"
definition tagDelete :: byte where "tagDelete = 3"
definition tagLastSeq :: byte where "tagLastSeq = 4"
definition tagReplayLog :: byte where "tagReplayLog = 5"
definition tagAddBlob :: byte where "tagAddBlob = 6"
definition tagDelBlob :: byte where "tagDelBlob = 7"

lemmas tag_defs = tagEnd_def tagIdentity_def tagAdd_def tagDelete_def tagLastSeq_def tagReplayLog_def
  tagAddBlob_def tagDelBlob_def

definition manifestVersion :: u64 where "manifestVersion = 1"

section \<open>Encoding\<close>

definition appendKeyBound :: "bytes \<Rightarrow> bytes option \<Rightarrow> bytes" where
  "appendKeyBound b v = (let v = (case v of None \<Rightarrow> [] | Some v \<Rightarrow> v) in b @ put_uvarint (ulen v) @ v)"

definition encodeAdd :: "manifestTableInfo \<Rightarrow> bytes" where
  "encodeAdd t =
     [tagAdd] @ put_uvarint (ucast (ti_Num t)) @ put_uvarint (word_of_int (ti_Depth t))
     @ put_uvarint (word_of_int (ti_Size t)) @ appendKeyBound [] (ti_MinKey t) @ appendKeyBound [] (ti_MaxKey t)
     @ put_uvarint (word_of_int (ti_Entries t)) @ put_uvarint (word_of_int (ti_Tombstones t))"

definition encodeEdit :: "manifestEdit \<Rightarrow> bytes" where
  "encodeEdit e =
     (if HasIdentity e then [tagIdentity] @ put_uvarint manifestVersion else [])
     @ (if HasLastSeq e then [tagLastSeq] @ put_uvarint (LastSeq e) else [])
     @ (if ReplayLogNum e \<noteq> 0 then [tagReplayLog] @ put_uvarint (ucast (ReplayLogNum e)) else [])
     @ concat (map encodeAdd (Added e))
     @ concat (map (\<lambda>d. [tagDelete] @ put_uvarint (ucast d)) (Deleted e))
     @ concat (map (\<lambda>bl. [tagAddBlob] @ put_uvarint (ucast (bi_Num bl)) @ put_uvarint (word_of_int (bi_Size bl))) (AddedBlobs e))
     @ concat (map (\<lambda>d. [tagDelBlob] @ put_uvarint (ucast d)) (DeletedBlobs e))
     @ [tagEnd]"

section \<open>Decoding\<close>

definition maxUint32 :: u64 where "maxUint32 = 0xffffffff"
definition maxInt64 :: u64 where "maxInt64 = 0x7fffffffffffffff"

definition readKeyBound :: "bytes \<Rightarrow> (bytes option \<times> bytes) result" where
  "readKeyBound rec =
     (let (l, n) = Uvarint rec
      in if n \<le> 0 \<or> ulen (drop (nat n) rec) < l then Inl (Errorf ''manifest: bad key bound'')
      else let rec = drop (nat n) rec
      in if l = 0 then Inr (None, rec)
         else Inr (Some (take (unat l) rec), drop (unat l) rec))"

definition badTable :: error where "badTable = Errorf ''manifest: bad table record''"

text \<open>\<^verbatim>\<open>binary.Uvarint\<close> followed by the check of the byte count and the advance.\<close>

definition readField :: "error \<Rightarrow> bytes \<Rightarrow> (u64 \<times> bytes) result" where
  "readField err rec = (let (x, n) = Uvarint rec in if n \<le> 0 then Inl err else Inr (x, drop (nat n) rec))"

definition readTable :: "bytes \<Rightarrow> (manifestTableInfo \<times> bytes) result" where
  "readTable rec =
     try_then (readField badTable rec) (\<lambda>(num, rec).
     try_then (readField badTable rec) (\<lambda>(depth, rec).
     try_then (readField badTable rec) (\<lambda>(sz, rec).
     if maxUint32 < num \<or> maxInt64 < depth \<or> maxInt64 < sz then Inl badTable
     else case readKeyBound rec of Inl _ \<Rightarrow> Inl badTable | Inr (minKey, rec) \<Rightarrow>
     case readKeyBound rec of Inl _ \<Rightarrow> Inl badTable | Inr (maxKey, rec) \<Rightarrow>
     try_then (readField badTable rec) (\<lambda>(entries, rec).
     try_then (readField badTable rec) (\<lambda>(tombstones, rec).
     if maxInt64 < entries \<or> maxInt64 < tombstones then Inl badTable
     else Inr (\<lparr>ti_Num = ucast num, ti_Depth = sint depth, ti_Size = sint sz, ti_MinKey = minKey,
                ti_MaxKey = maxKey, ti_Entries = sint entries, ti_Tombstones = sint tombstones\<rparr>, rec))))))"

definition readBlobTag :: "manifestEdit \<Rightarrow> byte \<Rightarrow> bytes \<Rightarrow> (manifestEdit \<times> bytes) result" where
  "readBlobTag e tag rec =
     try_then (readField (Errorf ''manifest: bad blob record'') rec) (\<lambda>(num, rec).
     if num = 0 \<or> maxUint32 < num then Inl (Errorf ''manifest: bad blob record'')
     else if tag = tagDelBlob then Inr (e\<lparr>DeletedBlobs := DeletedBlobs e @ [ucast num]\<rparr>, rec)
     else try_then (readField (Errorf ''manifest: bad blob size'') rec) (\<lambda>(sz, rec).
     if maxInt64 < sz then Inl (Errorf ''manifest: bad blob size'')
     else Inr (e\<lparr>AddedBlobs := AddedBlobs e @ [\<lparr>bi_Num = ucast num, bi_Size = sint sz\<rparr>]\<rparr>, rec)))"

text \<open>One pass of the loop of \<open>decodeEdit\<close>, for a tag other than the end tag.\<close>

definition decodeTag :: "manifestEdit \<Rightarrow> byte \<Rightarrow> bytes \<Rightarrow> (manifestEdit \<times> bytes) result" where
  "decodeTag e tag rec =
     (if tag = tagIdentity then
        if HasIdentity e then Inl (Errorf ''manifest: duplicate identity tag'')
        else try_then (readField (Errorf ''manifest: bad version'') rec) (\<lambda>(ver, rec).
          if ver \<noteq> manifestVersion then Inl (Errorf ''manifest: unsupported version'')
          else Inr (e\<lparr>HasIdentity := True\<rparr>, rec))
      else if tag = tagLastSeq then
        if HasLastSeq e then Inl (Errorf ''manifest: duplicate last-sequence tag'')
        else try_then (readField (Errorf ''manifest: bad last seq'') rec) (\<lambda>(seq, rec).
          if maxIKeySeq < seq then Inl (Errorf ''manifest: last sequence out of range'')
          else Inr (e\<lparr>HasLastSeq := True, LastSeq := seq\<rparr>, rec))
      else if tag = tagReplayLog then
        try_then (readField (Errorf ''manifest: bad recovery log boundary'') rec) (\<lambda>(num, rec).
          if num = 0 \<or> maxUint32 < num \<or> ReplayLogNum e \<noteq> 0
          then Inl (Errorf ''manifest: bad recovery log boundary'')
          else Inr (e\<lparr>ReplayLogNum := ucast num\<rparr>, rec))
      else if tag = tagAdd then
        try_then (readTable rec) (\<lambda>(t, rec). Inr (e\<lparr>Added := Added e @ [t]\<rparr>, rec))
      else if tag = tagDelete then
        try_then (readField (Errorf ''manifest: bad delete'') rec) (\<lambda>(num, rec).
          if maxUint32 < num then Inl (Errorf ''manifest: delete out of range'')
          else Inr (e\<lparr>Deleted := Deleted e @ [ucast num]\<rparr>, rec))
      else if tag = tagAddBlob \<or> tag = tagDelBlob then readBlobTag e tag rec
      else Inl (Errorf ''manifest: unknown tag''))"

lemma readField_length: "readField err rec = Inr (x, r) \<Longrightarrow> length r < length rec"
  using Uvarint_bound [of rec x] by (auto simp: readField_def split: prod.splits if_splits)

lemma readKeyBound_length: "readKeyBound rec = Inr (x, r) \<Longrightarrow> length r \<le> length rec"
  by (auto simp: readKeyBound_def Let_def split: prod.splits if_splits)

lemma readTable_length: "readTable rec = Inr (x, r) \<Longrightarrow> length r \<le> length rec"
  unfolding readTable_def try_then_Inr
  by (auto split: if_split_asm sum.split_asm prod.split_asm simp: try_then_Inr
      dest!: readField_length readKeyBound_length)

lemma readBlobTag_length: "readBlobTag e tag rec = Inr (x, r) \<Longrightarrow> length r \<le> length rec"
  by (auto simp: readBlobTag_def try_then_Inr split: if_split_asm dest!: readField_length)

lemma decodeTag_length: "decodeTag e tag rec = Inr (x, r) \<Longrightarrow> length r \<le> length rec"
  by (auto simp: decodeTag_def try_then_Inr split: if_split_asm
      dest!: readField_length readTable_length readBlobTag_length)

function decodeEdit_loop :: "manifestEdit \<Rightarrow> bytes \<Rightarrow> manifestEdit result" where
  "decodeEdit_loop e [] = Inl (Errorf ''manifest: missing end tag'')"
| "decodeEdit_loop e (tag # rec) =
     (if tag = tagEnd then
        if rec \<noteq> [] then Inl (Errorf ''manifest: trailing bytes after end tag'') else Inr e
      else try_then (decodeTag e tag rec) (\<lambda>(e, rec). decodeEdit_loop e rec))"
  by pat_completeness auto
termination
  by (relation "measure (\<lambda>(e, rec). length rec)") (auto dest: decodeTag_length simp: less_Suc_eq_le)

definition decodeEdit :: "bytes \<Rightarrow> manifestEdit result" where
  "decodeEdit rec = decodeEdit_loop emptyEdit rec"

section \<open>Edits round-trip\<close>

definition int63 :: "int \<Rightarrow> bool" where "int63 x \<longleftrightarrow> 0 \<le> x \<and> x < 2 ^ 63"

definition wf_table :: "manifestTableInfo \<Rightarrow> bool" where
  "wf_table t \<longleftrightarrow> int63 (ti_Depth t) \<and> int63 (ti_Size t) \<and> int63 (ti_Entries t) \<and> int63 (ti_Tombstones t)
     \<and> ti_MinKey t \<noteq> Some [] \<and> ti_MaxKey t \<noteq> Some []"

definition wf_edit :: "manifestEdit \<Rightarrow> bool" where
  "wf_edit e \<longleftrightarrow> (if HasLastSeq e then LastSeq e \<le> maxIKeySeq else LastSeq e = 0)
     \<and> (\<forall>t\<in>set (Added e). wf_table t)
     \<and> (\<forall>b\<in>set (AddedBlobs e). bi_Num b \<noteq> 0 \<and> int63 (bi_Size b)) \<and> (\<forall>n\<in>set (DeletedBlobs e). n \<noteq> 0)"

lemma readField_put [simp]: "readField err (put_uvarint x @ r) = Inr (x, r)"
  by (simp add: readField_def)

lemma int63_word:
  assumes "int63 x" shows "sint (word_of_int x :: u64) = x" "\<not> maxInt64 < (word_of_int x :: u64)"
proof -
  show "sint (word_of_int x :: u64) = x"
    using assms by (simp add: int63_def signed_of_int signed_take_bit_int_eq_self)
  have "uint (word_of_int x :: u64) = x"
    using assms by (simp add: int63_def unsigned_of_int take_bit_int_eq_self)
  then show "\<not> maxInt64 < (word_of_int x :: u64)"
    using assms by (simp add: maxInt64_def word_less_def int63_def)
qed

lemma u32_word: "\<not> maxUint32 < (ucast (n :: u32) :: u64)" "(ucast (ucast n :: u64) :: u32) = n"
  "(ucast n :: u64) = 0 \<longleftrightarrow> n = 0"
proof -
  have u: "unat (ucast n :: u64) = unat n"
    using unsigned_less [of n, where ?'a = nat] by (simp add: unsigned_ucast_eq unsigned_take_bit_eq take_bit_nat_eq_self)
  show "\<not> maxUint32 < (ucast n :: u64)"
    using unsigned_less [of n, where ?'a = nat] by (simp add: maxUint32_def word_less_nat_alt u)
  show "(ucast (ucast n :: u64) :: u32) = n" by (rule bit_word_eqI) (auto simp: bit_simps)
  show "(ucast n :: u64) = 0 \<longleftrightarrow> n = 0" by (simp add: word_unat_eq_iff u)
qed

lemma readKeyBound_append:
  assumes "v \<noteq> Some []" "fits (appendKeyBound [] v @ r)"
  shows "readKeyBound (appendKeyBound [] v @ r) = Inr (v, r)"
proof (cases v)
  case None
  then show ?thesis by (simp add: appendKeyBound_def readKeyBound_def)
next
  case (Some k)
  with assms have k: "k \<noteq> []" and f: "fits (k @ r)" by (auto simp: appendKeyBound_def fits_def)
  have "unat (ulen k) \<noteq> 0" using k fits_append_iff [OF f] by simp
  then have "(ulen k) \<noteq> 0" by (auto simp del: unat_ulen)
  with Some k ulen_mono [OF f] fits_append_iff [OF f] show ?thesis
    by (simp add: appendKeyBound_def readKeyBound_def)
qed

lemma readTable_encode:
  assumes "wf_table t" "fits (encodeAdd t @ r)"
  shows "readTable (tl (encodeAdd t) @ r) = Inr (t, r)"
proof -
  let ?e = "put_uvarint (word_of_int (ti_Entries t)) @ put_uvarint (word_of_int (ti_Tombstones t)) @ r"
  have f1: "fits (appendKeyBound [] (ti_MinKey t) @ appendKeyBound [] (ti_MaxKey t) @ ?e)"
    and f2: "fits (appendKeyBound [] (ti_MaxKey t) @ ?e)"
    using assms(2) by (simp_all add: encodeAdd_def fits_def)
  have k1: "readKeyBound (appendKeyBound [] (ti_MinKey t) @ appendKeyBound [] (ti_MaxKey t) @ ?e)
      = Inr (ti_MinKey t, appendKeyBound [] (ti_MaxKey t) @ ?e)"
    and k2: "readKeyBound (appendKeyBound [] (ti_MaxKey t) @ ?e) = Inr (ti_MaxKey t, ?e)"
    using readKeyBound_append [OF _ f1] readKeyBound_append [OF _ f2] assms(1) by (simp_all add: wf_table_def)
  show ?thesis
    using assms(1) unfolding wf_table_def
    by (simp add: encodeAdd_def readTable_def k1 k2 int63_word u32_word)
qed

lemma decodeEdit_step: "tag \<noteq> tagEnd \<Longrightarrow>
   decodeEdit_loop e (tag # rec) = try_then (decodeTag e tag rec) (\<lambda>(e, rec). decodeEdit_loop e rec)"
  by simp

lemma decodeTag_Add:
  "decodeTag e tagAdd rec = try_then (readTable rec) (\<lambda>(t, rec). Inr (e\<lparr>Added := Added e @ [t]\<rparr>, rec))"
  by (simp add: decodeTag_def tag_defs)

lemma decodeTag_Delete:
  "decodeTag e tagDelete rec = try_then (readField (Errorf ''manifest: bad delete'') rec) (\<lambda>(num, rec).
     if maxUint32 < num then Inl (Errorf ''manifest: delete out of range'')
     else Inr (e\<lparr>Deleted := Deleted e @ [ucast num]\<rparr>, rec))"
  by (simp add: decodeTag_def tag_defs)

lemma decodeTag_blobs:
  "decodeTag e tagAddBlob rec = readBlobTag e tagAddBlob rec" "decodeTag e tagDelBlob rec = readBlobTag e tagDelBlob rec"
  by (simp_all add: decodeTag_def tag_defs)

lemma decode_Added:
  "\<forall>t\<in>set ts. wf_table t \<Longrightarrow> fits (concat (map encodeAdd ts) @ r) \<Longrightarrow>
   decodeEdit_loop e (concat (map encodeAdd ts) @ r) = decodeEdit_loop (e\<lparr>Added := Added e @ ts\<rparr>) r"
proof (induction ts arbitrary: e)
  case (Cons t ts)
  let ?tl = "concat (map encodeAdd ts) @ r"
  have f: "fits (encodeAdd t @ ?tl)" using Cons.prems(2) by simp
  then have "fits ?tl" by (simp add: fits_def)
  moreover have rd: "readTable (tl (encodeAdd t) @ ?tl) = Inr (t, ?tl)"
    using readTable_encode [OF _ f] Cons.prems(1) by simp
  have enc: "encodeAdd t @ ?tl = tagAdd # (tl (encodeAdd t) @ ?tl)" by (simp add: encodeAdd_def)
  have "decodeEdit_loop e (encodeAdd t @ ?tl) = decodeEdit_loop (e\<lparr>Added := Added e @ [t]\<rparr>) ?tl"
  proof -
    have "tagAdd \<noteq> tagEnd" by (simp add: tag_defs)
    then show ?thesis unfolding enc
      by (subst decodeEdit_step) (simp_all only: decodeTag_Add rd try_then_simps prod.case not_False_eq_True)
  qed
  ultimately show ?case using Cons.IH [of "e\<lparr>Added := Added e @ [t]\<rparr>"] Cons.prems(1) by simp
qed simp

lemma decode_Deleted:
  "decodeEdit_loop e (concat (map (\<lambda>d. [tagDelete] @ put_uvarint (ucast d)) ds) @ r)
   = decodeEdit_loop (e\<lparr>Deleted := Deleted e @ ds\<rparr>) r"
proof (induction ds arbitrary: e)
  case (Cons d ds)
  have "tagDelete \<noteq> tagEnd" by (simp add: tag_defs)
  with Cons show ?case by (simp add: decodeTag_Delete u32_word)
qed simp

lemma decode_AddedBlobs:
  "\<forall>b\<in>set bs. bi_Num b \<noteq> 0 \<and> int63 (bi_Size b) \<Longrightarrow>
   decodeEdit_loop e (concat (map (\<lambda>bl. [tagAddBlob] @ put_uvarint (ucast (bi_Num bl))
       @ put_uvarint (word_of_int (bi_Size bl))) bs) @ r)
   = decodeEdit_loop (e\<lparr>AddedBlobs := AddedBlobs e @ bs\<rparr>) r"
proof (induction bs arbitrary: e)
  case (Cons b bs)
  have "tagAddBlob \<noteq> tagEnd" "tagAddBlob \<noteq> tagDelBlob" by (simp_all add: tag_defs)
  with Cons show ?case
    by (cases b) (simp add: decodeTag_blobs readBlobTag_def u32_word int63_word)
qed simp

lemma decode_DeletedBlobs:
  "\<forall>d\<in>set ds. d \<noteq> 0 \<Longrightarrow>
   decodeEdit_loop e (concat (map (\<lambda>d. [tagDelBlob] @ put_uvarint (ucast d)) ds) @ r)
   = decodeEdit_loop (e\<lparr>DeletedBlobs := DeletedBlobs e @ ds\<rparr>) r"
proof (induction ds arbitrary: e)
  case (Cons d ds)
  have "tagDelBlob \<noteq> tagEnd" by (simp add: tag_defs)
  with Cons show ?case by (simp add: decodeTag_blobs readBlobTag_def u32_word)
qed simp

lemma decode_Identity:
  "\<not> HasIdentity e \<Longrightarrow> decodeEdit_loop e ((if b then [tagIdentity] @ put_uvarint manifestVersion else []) @ r)
   = decodeEdit_loop (e\<lparr>HasIdentity := b\<rparr>) r"
  by (cases e) (auto simp: decodeTag_def tag_defs)

lemma decode_LastSeq:
  "\<not> HasLastSeq e \<Longrightarrow> LastSeq e = 0 \<Longrightarrow> (if b then s \<le> maxIKeySeq else s = 0) \<Longrightarrow>
   decodeEdit_loop e ((if b then [tagLastSeq] @ put_uvarint s else []) @ r)
   = decodeEdit_loop (e\<lparr>HasLastSeq := b, LastSeq := s\<rparr>) r"
  by (cases e) (auto simp: decodeTag_def tag_defs not_less)

lemma decode_ReplayLog:
  "ReplayLogNum e = 0 \<Longrightarrow>
   decodeEdit_loop e ((if n \<noteq> 0 then [tagReplayLog] @ put_uvarint (ucast n) else []) @ r)
   = decodeEdit_loop (e\<lparr>ReplayLogNum := n\<rparr>) r"
  by (cases e) (auto simp: decodeTag_def tag_defs u32_word)

lemma decodeEdit_encodeEdit:
  assumes "wf_edit e" "fits (encodeEdit e)"
  shows "decodeEdit (encodeEdit e) = Inr e"
proof -
  let ?tl = "concat (map (\<lambda>d. [tagDelete] @ put_uvarint (ucast d)) (Deleted e))
     @ concat (map (\<lambda>bl. [tagAddBlob] @ put_uvarint (ucast (bi_Num bl)) @ put_uvarint (word_of_int (bi_Size bl))) (AddedBlobs e))
     @ concat (map (\<lambda>d. [tagDelBlob] @ put_uvarint (ucast d)) (DeletedBlobs e)) @ [tagEnd]"
  have "fits (concat (map encodeAdd (Added e)) @ ?tl)"
    using assms(2) unfolding encodeEdit_def by (simp add: fits_def del: length_concat)
  note added = decode_Added [OF _ this]
  have seq: "if HasLastSeq e then LastSeq e \<le> maxIKeySeq else LastSeq e = 0"
    and ts: "\<forall>t\<in>set (Added e). wf_table t" and bs: "\<forall>b\<in>set (AddedBlobs e). bi_Num b \<noteq> 0 \<and> int63 (bi_Size b)"
    and ds: "\<forall>n\<in>set (DeletedBlobs e). n \<noteq> 0"
    using assms(1) by (auto simp: wf_edit_def)
  show ?thesis
    unfolding decodeEdit_def encodeEdit_def
    apply (subst decode_Identity, simp add: emptyEdit_def)
    apply (subst decode_LastSeq [OF _ _ seq], simp add: emptyEdit_def, simp add: emptyEdit_def)
    apply (subst decode_ReplayLog, simp add: emptyEdit_def)
    apply (subst added [OF ts])
    apply (subst decode_Deleted, subst decode_AddedBlobs [OF bs], subst decode_DeletedBlobs [OF ds])
    apply (simp add: emptyEdit_def)
    done
qed

section \<open>Replay\<close>

record manifestState =
  ms_ReplayLogNum :: u32
  ms_LastSeq :: u64
  ms_Tables :: "u32 \<rightharpoonup> manifestTableInfo"
  ms_Blobs :: "u32 \<rightharpoonup> manifestBlobInfo"

text \<open>The state of the replay loop: the result under construction and the loop's own maps.\<close>

record replayState = manifestState +
  seenTableNums :: "u32 set"
  seenBlobNums :: "u32 set"
  haveIdentity :: bool

definition replay0 :: replayState where
  "replay0 = \<lparr>ms_ReplayLogNum = 0, ms_LastSeq = 0, ms_Tables = Map.empty, ms_Blobs = Map.empty,
     seenTableNums = {}, seenBlobNums = {}, haveIdentity = False\<rparr>"

fun addTables :: "manifestTableInfo list \<Rightarrow> replayState \<Rightarrow> replayState result" where
  "addTables [] st = Inr st"
| "addTables (t # ts) st =
     (if ti_Num t = 0 then Inl (Errorf ''manifest: table file number 0 is reserved'')
      else if ti_Num t \<in> seenTableNums st then Inl (Errorf ''manifest: table file number reused'')
      else addTables ts (st\<lparr>ms_Tables := (ms_Tables st)(ti_Num t \<mapsto> t),
                            seenTableNums := insert (ti_Num t) (seenTableNums st)\<rparr>))"

fun delTables :: "u32 list \<Rightarrow> replayState \<Rightarrow> replayState result" where
  "delTables [] st = Inr st"
| "delTables (d # ds) st =
     (if ms_Tables st d = None then Inl (Errorf ''manifest: delete of unknown table'')
      else delTables ds (st\<lparr>ms_Tables := (ms_Tables st)(d := None)\<rparr>))"

fun addBlobs :: "manifestBlobInfo list \<Rightarrow> replayState \<Rightarrow> replayState result" where
  "addBlobs [] st = Inr st"
| "addBlobs (b # bs) st =
     (if bi_Num b \<in> seenBlobNums st then Inl (Errorf ''manifest: blob file number reused'')
      else addBlobs bs (st\<lparr>ms_Blobs := (ms_Blobs st)(bi_Num b \<mapsto> b),
                           seenBlobNums := insert (bi_Num b) (seenBlobNums st)\<rparr>))"

fun delBlobs :: "u32 list \<Rightarrow> replayState \<Rightarrow> replayState result" where
  "delBlobs [] st = Inr st"
| "delBlobs (d # ds) st =
     (if ms_Blobs st d = None then Inl (Errorf ''manifest: delete of unknown blob'')
      else delBlobs ds (st\<lparr>ms_Blobs := (ms_Blobs st)(d := None)\<rparr>))"

definition applyIdentity :: "manifestEdit \<Rightarrow> replayState \<Rightarrow> replayState result" where
  "applyIdentity e st =
     (if HasIdentity e \<and> haveIdentity st then Inl (Errorf ''manifest: repeated identity'')
      else let st = (if HasIdentity e then st\<lparr>haveIdentity := True\<rparr> else st)
           in if \<not> haveIdentity st then Inl (Errorf ''manifest: missing identity'') else Inr st)"

definition applyBounds :: "manifestEdit \<Rightarrow> replayState \<Rightarrow> replayState result" where
  "applyBounds e st =
     (let st = (if HasLastSeq e \<and> ms_LastSeq st < LastSeq e then st\<lparr>ms_LastSeq := LastSeq e\<rparr> else st)
      in if ReplayLogNum e \<noteq> 0 then
           if ReplayLogNum e < ms_ReplayLogNum st then Inl (Errorf ''manifest: regressing recovery log boundary'')
           else Inr (st\<lparr>ms_ReplayLogNum := ReplayLogNum e\<rparr>)
         else Inr st)"

definition applyEdit :: "manifestEdit \<Rightarrow> replayState \<Rightarrow> replayState result" where
  "applyEdit e st =
     try_then (applyIdentity e st) (\<lambda>st.
     try_then (applyBounds e st) (\<lambda>st.
     try_then (addTables (Added e) st) (\<lambda>st.
     try_then (delTables (Deleted e) st) (\<lambda>st.
     try_then (addBlobs (AddedBlobs e) st) (\<lambda>st. delBlobs (DeletedBlobs e) st)))))"

function replay_loop :: "journalReader \<Rightarrow> replayState \<Rightarrow> replayState result" where
  "replay_loop jr st =
     (case Next_record jr of
        (Inl err, jr') \<Rightarrow> if err = IoEOF then Inr st else Inl err
      | (Inr rec, jr') \<Rightarrow>
          try_then (decodeEdit rec) (\<lambda>edit. try_then (applyEdit edit st) (\<lambda>st. replay_loop jr' st)))"
  by pat_completeness auto
termination
  by (relation "measure (\<lambda>(jr, st). reader_size jr)") (auto simp: Next_record_def dest: journal_Next_size [OF sym])

declare replay_loop.simps [simp del]

definition replayManifestFile :: "bytes \<Rightarrow> manifestState result" where
  "replayManifestFile src =
     try_then (replay_loop (newJournalReader src) replay0) (\<lambda>st.
       if \<not> haveIdentity st then Inl (Errorf ''manifest: missing identity'')
       else Inr (manifestState.truncate st))"

section \<open>The writer\<close>

text \<open>\<^verbatim>\<open>file.Sync\<close> takes the next outcome of the file's schedule.\<close>

record manifestWriter =
  mw_jw :: journalWriter
  mw_edits :: nat
  mw_err :: "error option"

definition jw_Sync :: "journalWriter \<Rightarrow> error option \<times> journalWriter" where
  "jw_Sync w =
     (let b = jw_w w; f = b_dst b; (x, s) = io_next (f_sched f); w' = w\<lparr>jw_w := b\<lparr>b_dst := f\<lparr>f_sched := s\<rparr>\<rparr>\<rparr>
      in case x of IO_ok \<Rightarrow> (None, w') | IO_fail _ err \<Rightarrow> (Some err, w'))"

definition manifest_append :: "manifestEdit \<Rightarrow> manifestWriter \<Rightarrow> error option \<times> manifestWriter" where
  "manifest_append e w =
     (case mw_err w of Some err \<Rightarrow> (Some err, w)
      | None \<Rightarrow>
        let (r, jw) = journal_Write True (encodeEdit e) (mw_jw w); w = w\<lparr>mw_jw := jw\<rparr>
        in case r of Some err \<Rightarrow> (Some err, w\<lparr>mw_err := Some err\<rparr>)
        | None \<Rightarrow>
          let (r, jw) = journal_Flush (mw_jw w); w = w\<lparr>mw_jw := jw\<rparr>
          in case r of Some err \<Rightarrow> (Some err, w\<lparr>mw_err := Some err\<rparr>)
          | None \<Rightarrow>
            let (r, jw) = jw_Sync (mw_jw w); w = w\<lparr>mw_jw := jw\<rparr>
            in case r of Some err \<Rightarrow> (Some err, w\<lparr>mw_err := Some err\<rparr>)
            | None \<Rightarrow> (None, w\<lparr>mw_edits := mw_edits w + 1\<rparr>))"

definition createManifest :: "io_sched \<Rightarrow> manifestWriter result" where
  "createManifest sched =
     (let (op, s) = io_next sched
      in case op of IO_fail _ err \<Rightarrow> Inl err
      | IO_ok \<Rightarrow>
        let w = \<lparr>mw_jw = newJournalWriter \<lparr>f_data = [], f_sched = s\<rparr>, mw_edits = 0, mw_err = None\<rparr>;
            (r, w) = manifest_append (emptyEdit\<lparr>HasIdentity := True\<rparr>) w
        in case r of Some err \<Rightarrow> Inl err | None \<Rightarrow> Inr w)"

definition editCount :: "manifestWriter \<Rightarrow> nat" where "editCount w = mw_edits w"

definition manifest_Close :: "manifestWriter \<Rightarrow> io_outcome \<Rightarrow> error option" where
  "manifest_Close w close =
     (case mw_err w of Some err \<Rightarrow> Some err
      | None \<Rightarrow> (case close of IO_ok \<Rightarrow> None | IO_fail _ err \<Rightarrow> Some err))"

section \<open>What a replayed state holds\<close>

fun applyEdits :: "manifestEdit list \<Rightarrow> replayState \<Rightarrow> replayState result" where
  "applyEdits [] st = Inr st"
| "applyEdits (e # es) st = try_then (applyEdit e st) (applyEdits es)"

lemma applyEdits_append:
  "applyEdits (xs @ ys) st = try_then (applyEdits xs st) (applyEdits ys)"
proof (induction xs arbitrary: st)
  case (Cons x xs)
  then show ?case by (cases "applyEdit x st") simp_all
qed simp

text \<open>
  The invariant of the loop, over the numbers \<open>A\<close> added and \<open>D\<close> deleted so far and
  the descriptions \<open>T\<close> they were added with: no number is added twice, a number is
  only deleted while it is live, and the live set is what was added and not
  deleted.
\<close>

definition tables_inv :: "manifestTableInfo list \<Rightarrow> u32 list \<Rightarrow> replayState \<Rightarrow> bool" where
  "tables_inv T D st \<longleftrightarrow> seenTableNums st = ti_Num ` set T \<and> distinct (map ti_Num T) \<and> 0 \<notin> ti_Num ` set T
     \<and> distinct D \<and> set D \<subseteq> ti_Num ` set T \<and> dom (ms_Tables st) = ti_Num ` set T - set D
     \<and> (\<forall>n t. ms_Tables st n = Some t \<longrightarrow> t \<in> set T \<and> ti_Num t = n)"

definition blobs_inv :: "manifestBlobInfo list \<Rightarrow> u32 list \<Rightarrow> replayState \<Rightarrow> bool" where
  "blobs_inv B D st \<longleftrightarrow> seenBlobNums st = bi_Num ` set B \<and> distinct (map bi_Num B)
     \<and> distinct D \<and> set D \<subseteq> bi_Num ` set B \<and> dom (ms_Blobs st) = bi_Num ` set B - set D
     \<and> (\<forall>n b. ms_Blobs st n = Some b \<longrightarrow> b \<in> set B \<and> bi_Num b = n)"

lemma addTables_inv:
  "addTables ts st = Inr st' \<Longrightarrow> tables_inv T D st \<Longrightarrow> tables_inv (T @ ts) D st'"
proof (induction ts arbitrary: st T)
  case (Cons t ts)
  let ?st = "st\<lparr>ms_Tables := (ms_Tables st)(ti_Num t \<mapsto> t), seenTableNums := insert (ti_Num t) (seenTableNums st)\<rparr>"
  from Cons.prems have new: "ti_Num t \<noteq> 0" "ti_Num t \<notin> ti_Num ` set T" and rest: "addTables ts ?st = Inr st'"
    by (auto simp: tables_inv_def split: if_splits)
  have "tables_inv (T @ [t]) D ?st"
    using Cons.prems(2) new unfolding tables_inv_def by auto
  from Cons.IH [OF rest this] show ?case by simp
qed simp

lemma delTables_inv:
  "delTables ds st = Inr st' \<Longrightarrow> tables_inv T D st \<Longrightarrow> tables_inv T (D @ ds) st'"
proof (induction ds arbitrary: st D)
  case (Cons d ds)
  let ?st = "st\<lparr>ms_Tables := (ms_Tables st)(d := None)\<rparr>"
  from Cons.prems have live: "d \<in> dom (ms_Tables st)" and rest: "delTables ds ?st = Inr st'"
    by (auto split: if_splits)
  have "tables_inv T (D @ [d]) ?st"
    using Cons.prems(2) live unfolding tables_inv_def by (auto simp: dom_def)
  from Cons.IH [OF rest this] show ?case by simp
qed simp

lemma addBlobs_inv:
  "addBlobs bs st = Inr st' \<Longrightarrow> blobs_inv B D st \<Longrightarrow> blobs_inv (B @ bs) D st'"
proof (induction bs arbitrary: st B)
  case (Cons b bs)
  let ?st = "st\<lparr>ms_Blobs := (ms_Blobs st)(bi_Num b \<mapsto> b), seenBlobNums := insert (bi_Num b) (seenBlobNums st)\<rparr>"
  from Cons.prems have new: "bi_Num b \<notin> bi_Num ` set B" and rest: "addBlobs bs ?st = Inr st'"
    by (auto simp: blobs_inv_def split: if_splits)
  have "blobs_inv (B @ [b]) D ?st"
    using Cons.prems(2) new unfolding blobs_inv_def by auto
  from Cons.IH [OF rest this] show ?case by simp
qed simp

lemma delBlobs_inv:
  "delBlobs ds st = Inr st' \<Longrightarrow> blobs_inv B D st \<Longrightarrow> blobs_inv B (D @ ds) st'"
proof (induction ds arbitrary: st D)
  case (Cons d ds)
  let ?st = "st\<lparr>ms_Blobs := (ms_Blobs st)(d := None)\<rparr>"
  from Cons.prems have live: "d \<in> dom (ms_Blobs st)" and rest: "delBlobs ds ?st = Inr st'"
    by (auto split: if_splits)
  have "blobs_inv B (D @ [d]) ?st"
    using Cons.prems(2) live unfolding blobs_inv_def by (auto simp: dom_def)
  from Cons.IH [OF rest this] show ?case by simp
qed simp

lemma addTables_frame:
  "addTables ts st = Inr st' \<Longrightarrow> ms_Blobs st' = ms_Blobs st \<and> seenBlobNums st' = seenBlobNums st
     \<and> ms_LastSeq st' = ms_LastSeq st \<and> ms_ReplayLogNum st' = ms_ReplayLogNum st \<and> haveIdentity st' = haveIdentity st"
  by (induction ts arbitrary: st) (fastforce split: if_splits)+

lemma delTables_frame:
  "delTables ds st = Inr st' \<Longrightarrow> ms_Blobs st' = ms_Blobs st \<and> seenBlobNums st' = seenBlobNums st
     \<and> ms_LastSeq st' = ms_LastSeq st \<and> ms_ReplayLogNum st' = ms_ReplayLogNum st \<and> haveIdentity st' = haveIdentity st"
  by (induction ds arbitrary: st) (fastforce split: if_splits)+

lemma addBlobs_frame:
  "addBlobs bs st = Inr st' \<Longrightarrow> ms_Tables st' = ms_Tables st \<and> seenTableNums st' = seenTableNums st
     \<and> ms_LastSeq st' = ms_LastSeq st \<and> ms_ReplayLogNum st' = ms_ReplayLogNum st \<and> haveIdentity st' = haveIdentity st"
  by (induction bs arbitrary: st) (fastforce split: if_splits)+

lemma delBlobs_frame:
  "delBlobs ds st = Inr st' \<Longrightarrow> ms_Tables st' = ms_Tables st \<and> seenTableNums st' = seenTableNums st
     \<and> ms_LastSeq st' = ms_LastSeq st \<and> ms_ReplayLogNum st' = ms_ReplayLogNum st \<and> haveIdentity st' = haveIdentity st"
  by (induction ds arbitrary: st) (fastforce split: if_splits)+

lemmas frame_lemmas = addTables_frame delTables_frame addBlobs_frame delBlobs_frame

text \<open>The watermarks: the sequence only grows, the recovery boundary never regresses.\<close>

definition bounds_inv :: "manifestEdit list \<Rightarrow> replayState \<Rightarrow> bool" where
  "bounds_inv es st \<longleftrightarrow> (\<forall>e\<in>set es. HasLastSeq e \<longrightarrow> LastSeq e \<le> ms_LastSeq st)
     \<and> (ms_LastSeq st = 0 \<or> (\<exists>e\<in>set es. HasLastSeq e \<and> LastSeq e = ms_LastSeq st))
     \<and> (\<forall>e\<in>set es. ReplayLogNum e \<le> ms_ReplayLogNum st)
     \<and> (ms_ReplayLogNum st = 0 \<or> (\<exists>e\<in>set es. ReplayLogNum e = ms_ReplayLogNum st))"

definition history_inv :: "manifestEdit list \<Rightarrow> replayState \<Rightarrow> bool" where
  "history_inv es st \<longleftrightarrow> tables_inv (concat (map Added es)) (concat (map Deleted es)) st
     \<and> blobs_inv (concat (map AddedBlobs es)) (concat (map DeletedBlobs es)) st \<and> bounds_inv es st
     \<and> (haveIdentity st \<longleftrightarrow> es \<noteq> [])"

lemma applyBounds_spec:
  assumes "applyBounds e st = Inr st'"
  shows "ms_LastSeq st' = (if HasLastSeq e \<and> ms_LastSeq st < LastSeq e then LastSeq e else ms_LastSeq st)"
    "ms_ReplayLogNum st' = (if ReplayLogNum e = 0 then ms_ReplayLogNum st else ReplayLogNum e)"
    "ms_ReplayLogNum st \<le> ms_ReplayLogNum st'"
  using assms by (auto simp: applyBounds_def Let_def split: if_splits)

lemma applyBounds_inv:
  assumes "applyBounds e st = Inr st'" "bounds_inv es st"
  shows "bounds_inv (es @ [e]) st'"
proof -
  note sp = applyBounds_spec [OF assms(1)]
  have inv: "\<And>x. x \<in> set es \<Longrightarrow> HasLastSeq x \<Longrightarrow> LastSeq x \<le> ms_LastSeq st"
    "\<And>x. x \<in> set es \<Longrightarrow> ReplayLogNum x \<le> ms_ReplayLogNum st"
    "ms_LastSeq st = 0 \<or> (\<exists>e\<in>set es. HasLastSeq e \<and> LastSeq e = ms_LastSeq st)"
    "ms_ReplayLogNum st = 0 \<or> (\<exists>e\<in>set es. ReplayLogNum e = ms_ReplayLogNum st)"
    using assms(2) by (auto simp: bounds_inv_def)
  have le: "ms_LastSeq st \<le> ms_LastSeq st'" using sp(1) by auto
  have "LastSeq x \<le> ms_LastSeq st'" if "x \<in> set es" "HasLastSeq x" for x
    using order_trans [OF inv(1) [OF that] le] .
  moreover have "HasLastSeq e \<longrightarrow> LastSeq e \<le> ms_LastSeq st'" using sp(1) by auto
  ultimately have "\<forall>x\<in>set (es @ [e]). HasLastSeq x \<longrightarrow> LastSeq x \<le> ms_LastSeq st'" by simp
  moreover have "ReplayLogNum x \<le> ms_ReplayLogNum st'" if "x \<in> set es" for x
    using order_trans [OF inv(2) [OF that] sp(3)] .
  then have "\<forall>x\<in>set (es @ [e]). ReplayLogNum x \<le> ms_ReplayLogNum st'" using sp(2) by simp
  moreover have "ms_LastSeq st' = 0 \<or> (\<exists>x\<in>set (es @ [e]). HasLastSeq x \<and> LastSeq x = ms_LastSeq st')"
    using inv(3) sp(1) by auto
  moreover have "ms_ReplayLogNum st' = 0 \<or> (\<exists>x\<in>set (es @ [e]). ReplayLogNum x = ms_ReplayLogNum st')"
    using inv(4) sp(2) by auto
  ultimately show ?thesis by (simp add: bounds_inv_def)
qed

lemma applyEdit_inv:
  assumes "applyEdit e st = Inr st'" "history_inv es st"
  shows "history_inv (es @ [e]) st'"
proof -
  from assms(1) obtain s1 s2 s3 s4 s5 where id: "applyIdentity e st = Inr s1" and bd: "applyBounds e s1 = Inr s2"
    and at: "addTables (Added e) s2 = Inr s3" and dt: "delTables (Deleted e) s3 = Inr s4"
    and ab: "addBlobs (AddedBlobs e) s4 = Inr s5" and db: "delBlobs (DeletedBlobs e) s5 = Inr st'"
    by (auto simp: applyEdit_def try_then_Inr)
  have i: "ms_Tables s1 = ms_Tables st" "seenTableNums s1 = seenTableNums st" "ms_Blobs s1 = ms_Blobs st"
    "seenBlobNums s1 = seenBlobNums st" "ms_LastSeq s1 = ms_LastSeq st" "ms_ReplayLogNum s1 = ms_ReplayLogNum st"
    "haveIdentity s1"
    using id by (auto simp: applyIdentity_def Let_def split: if_splits)
  have b: "ms_Tables s2 = ms_Tables s1" "seenTableNums s2 = seenTableNums s1" "ms_Blobs s2 = ms_Blobs s1"
    "seenBlobNums s2 = seenBlobNums s1" "haveIdentity s2 = haveIdentity s1"
    using bd by (auto simp: applyBounds_def Let_def split: if_splits)
  note fr = frame_lemmas(1) [OF at] frame_lemmas(2) [OF dt] frame_lemmas(3) [OF ab] frame_lemmas(4) [OF db]
  have "tables_inv (concat (map Added es)) (concat (map Deleted es)) s2"
    using assms(2) i b by (simp add: history_inv_def tables_inv_def)
  from delTables_inv [OF dt addTables_inv [OF at this]]
  have "tables_inv (concat (map Added (es @ [e]))) (concat (map Deleted (es @ [e]))) st'"
    using fr by (simp add: tables_inv_def)
  moreover have "blobs_inv (concat (map AddedBlobs es)) (concat (map DeletedBlobs es)) s4"
    using assms(2) i b fr by (simp add: history_inv_def blobs_inv_def)
  from delBlobs_inv [OF db addBlobs_inv [OF ab this]]
  have "blobs_inv (concat (map AddedBlobs (es @ [e]))) (concat (map DeletedBlobs (es @ [e]))) st'"
    by simp
  moreover have "bounds_inv es s1" using assms(2) i by (simp add: history_inv_def bounds_inv_def)
  from applyBounds_inv [OF bd this] have "bounds_inv (es @ [e]) st'" using fr by (simp add: bounds_inv_def)
  ultimately show ?thesis using i b fr by (simp add: history_inv_def)
qed

lemma applyEdits_inv:
  "applyEdits es st = Inr st' \<Longrightarrow> history_inv hs st \<Longrightarrow> history_inv (hs @ es) st'"
proof (induction es arbitrary: st hs)
  case (Cons e es)
  then obtain s1 where "applyEdit e st = Inr s1" "applyEdits es s1 = Inr st'"
    by (auto simp: try_then_Inr)
  with Cons.IH [of s1 "hs @ [e]"] applyEdit_inv Cons.prems(2) show ?case by simp
qed simp

lemma history_inv0: "history_inv [] replay0"
  by (simp add: history_inv_def tables_inv_def blobs_inv_def bounds_inv_def replay0_def)

section \<open>Replaying what the writer wrote\<close>

fun decodeApply :: "bytes list \<Rightarrow> replayState \<Rightarrow> replayState result" where
  "decodeApply [] st = Inr st"
| "decodeApply (r # rs) st = try_then (decodeEdit r) (\<lambda>e. try_then (applyEdit e st) (decodeApply rs))"

lemma replay_loop_read_all:
  "read_all jr = (recs, IoEOF) \<Longrightarrow> replay_loop jr st = decodeApply recs st"
proof (induction jr arbitrary: recs st rule: read_all.induct)
  case (1 jr)
  obtain x jr' where n: "Next_record jr = (x, jr')" by fastforce
  show ?case
  proof (cases x)
    case (Inl e)
    with n "1.prems" have "recs = []" "e = IoEOF" by (auto simp: read_all.simps [of jr])
    with n Inl show ?thesis by (simp add: replay_loop.simps [of jr])
  next
    case (Inr rc)
    obtain rs e where ra: "read_all jr' = (rs, e)" by fastforce
    with n Inr "1.prems" have "recs = rc # rs" and e: "e = IoEOF" by (auto simp: read_all.simps [of jr])
    moreover have "replay_loop jr' = decodeApply rs"
      using "1.IH" [OF n [symmetric] Inr] ra e by (intro ext) simp
    ultimately show ?thesis using n Inr by (simp add: replay_loop.simps [of jr])
  qed
qed

lemma decodeApply_encode:
  "\<forall>e\<in>set es. wf_edit e \<and> fits (encodeEdit e) \<Longrightarrow> decodeApply (map encodeEdit es) st = applyEdits es st"
  by (induction es arbitrary: st) (auto simp: decodeEdit_encodeEdit intro: try_then_cong)

text \<open>The edits \<open>es\<close> are all in the file, and the writer is ready for the next one.\<close>

definition mw_inv :: "manifestWriter \<Rightarrow> manifestEdit list \<Rightarrow> bool" where
  "mw_inv w es \<longleftrightarrow> mw_err w = None \<and> jfile (mw_jw w) = fst (frames 0 (map encodeEdit es))
     \<and> (\<exists>off. live (mw_jw w) (jfile (mw_jw w)) off
          \<and> (\<forall>rs. fst (frames 0 (map encodeEdit es @ rs)) = jfile (mw_jw w) @ fst (frames off rs)))"

definition mw_failed :: "manifestWriter \<Rightarrow> manifestEdit list \<Rightarrow> bool" where
  "mw_failed w es \<longleftrightarrow> mw_err w \<noteq> None \<and> prefix (jfile (mw_jw w)) (fst (frames 0 (map encodeEdit es)))"

lemma jw_Sync_file: "jw_Sync w = (r, w') \<Longrightarrow> jfile w' = jfile w \<and> (live w L off \<longrightarrow> live w' L off)"
  by (auto simp: jw_Sync_def Let_def live_def split: prod.splits io_outcome.splits)

lemma manifest_append_ok:
  assumes "mw_inv w es" "manifest_append e w = (r, w')"
  shows "(r = None \<and> mw_inv w' (es @ [e])) \<or> (r \<noteq> None \<and> mw_failed w' (es @ [e]))"
proof -
  let ?L = "jfile (mw_jw w)" and ?b = "fst (frames 0 (map encodeEdit (es @ [e])))"
  obtain off where none: "mw_err w = None" and lv: "live (mw_jw w) ?L off"
    and cont: "\<And>rs. fst (frames 0 (map encodeEdit es @ rs)) = ?L @ fst (frames off rs)"
    using assms(1) by (auto simp: mw_inv_def)
  obtain b o1 where f: "frame off True (encodeEdit e) = (b, o1)" by fastforce
  have fr: "fst (frames off (encodeEdit e # rs)) = b @ fst (frames o1 rs)" for rs
    by (simp add: f split: prod.splits)
  have L1: "?b = ?L @ b" using cont [of "[encodeEdit e]"] fr [of "[]"] by simp
  have cont1: "fst (frames 0 (map encodeEdit (es @ [e]) @ rs)) = (?L @ b) @ fst (frames o1 rs)" for rs
    using cont [of "encodeEdit e # rs"] fr [of rs] by simp
  obtain r1 j1 where w1: "journal_Write True (encodeEdit e) (mw_jw w) = (r1, j1)" by fastforce
  from journal_Write_ok [OF lv w1 f] show ?thesis
  proof (elim disjE conjE)
    assume "r1 \<noteq> None" "failed j1 (?L @ b)"
    with assms(2) none w1 L1 show ?thesis by (auto simp: manifest_append_def mw_failed_def failed_def)
  next
    assume r1: "r1 = None" and l1: "live j1 (?L @ b) o1"
    obtain r2 j2 where w2: "journal_Flush j1 = (r2, j2)" by fastforce
    from journal_Flush_ok [OF l1 w2] show ?thesis
    proof (elim disjE [of "_ \<and> _" "r2 \<noteq> None \<and> failed j2 (?L @ b)"])
      assume "r2 \<noteq> None \<and> failed j2 (?L @ b)"
      with assms(2) none w1 r1 w2 L1 show ?thesis by (auto simp: manifest_append_def mw_failed_def failed_def)
    next
      assume A: "r2 = None \<and> (live j2 (?L @ b) o1 \<or> o1 = blockSize \<and> live j2 (?L @ b) 0) \<and> jfile j2 = ?L @ b"
      obtain r3 j3 where w3: "jw_Sync j2 = (r3, j3)" by fastforce
      have fil: "jfile j3 = ?b" using jw_Sync_file [OF w3] A L1 by simp
      show ?thesis
      proof (cases r3)
        case (Some x)
        with assms(2) none w1 r1 w2 A w3 fil show ?thesis
          by (auto simp: manifest_append_def mw_failed_def)
      next
        case None
        have w': "w' = w\<lparr>mw_jw := j3, mw_edits := mw_edits w + 1\<rparr>" "r = None"
          using assms(2) none w1 r1 w2 A w3 None by (auto simp: manifest_append_def)
        have "\<exists>off. live j3 (?L @ b) off \<and> (\<forall>rs. fst (frames 0 (map encodeEdit (es @ [e]) @ rs)) = (?L @ b) @ fst (frames off rs))"
          using A jw_Sync_file [OF w3, of "?L @ b"] cont1 frames_blockSize by metis
        with fil L1 w' none show ?thesis by (simp add: mw_inv_def)
      qed
    qed
  qed
qed

fun manifest_appends :: "manifestEdit list \<Rightarrow> manifestWriter \<Rightarrow> error option list \<times> manifestWriter" where
  "manifest_appends [] w = ([], w)"
| "manifest_appends (e # es) w =
     (let (r, w) = manifest_append e w; (rs, w) = manifest_appends es w in (r # rs, w))"

lemma manifest_append_failed: "mw_err w = Some x \<Longrightarrow> manifest_append e w = (Some x, w)"
  by (simp add: manifest_append_def)

lemma manifest_appends_failed:
  "mw_failed w hs \<Longrightarrow> snd (manifest_appends es w) = w"
  by (induction es) (auto simp: mw_failed_def manifest_append_failed split: prod.splits)

lemma frames_prefix: "prefix (fst (frames off xs)) (fst (frames off (xs @ ys)))"
  by (simp add: frames_append split: prod.splits)

text \<open>
  After any run of appends the file is a prefix of the framing of the edits tried
  and extends the framing of those that succeeded.
\<close>

lemma manifest_appends_file:
  "mw_inv w hs \<Longrightarrow> manifest_appends es w = (rs, w') \<Longrightarrow>
   prefix (jfile (mw_jw w')) (fst (frames 0 (map encodeEdit (hs @ es))))
   \<and> ((\<forall>r\<in>set rs. r = None) \<longrightarrow> mw_inv w' (hs @ es))"
proof (induction es arbitrary: w hs rs)
  case Nil
  then show ?case by (auto simp: mw_inv_def)
next
  case (Cons e es)
  obtain r1 w1 where a: "manifest_append e w = (r1, w1)" by fastforce
  obtain rs1 w2 where as: "manifest_appends es w1 = (rs1, w2)" by fastforce
  have res: "rs = r1 # rs1" "w' = w2" using Cons.prems(2) a as by auto
  from manifest_append_ok [OF Cons.prems(1) a] show ?case
  proof (elim disjE conjE)
    assume "r1 = None" "mw_inv w1 (hs @ [e])"
    with Cons.IH [of w1 "hs @ [e]" rs1] as res show ?case by simp
  next
    assume r: "r1 \<noteq> None" and f: "mw_failed w1 (hs @ [e])"
    have "w2 = w1" using manifest_appends_failed [OF f, of es] as by simp
    moreover have "prefix (jfile (mw_jw w1)) (fst (frames 0 (map encodeEdit (hs @ [e]))))"
      using f by (simp add: mw_failed_def)
    then have "prefix (jfile (mw_jw w1)) (fst (frames 0 (map encodeEdit (hs @ e # es))))"
      using frames_prefix [of 0 "map encodeEdit (hs @ [e])" "map encodeEdit es"] by (auto intro: prefix_order.trans)
    ultimately show ?case using r unfolding res by auto
  qed
qed

lemma jw_Sync_grows: "jw_Sync w = (r, w') \<Longrightarrow> jfile w' = jfile w"
  using jw_Sync_file by blast

lemma manifest_append_grows:
  "manifest_append e w = (r, w') \<Longrightarrow> prefix (jfile (mw_jw w)) (jfile (mw_jw w'))"
  by (auto simp: manifest_append_def Let_def split: option.splits prod.splits
      dest!: journal_Write_grows journal_Flush_grows jw_Sync_grows intro: prefix_order.trans)

lemma manifest_appends_grows:
  "manifest_appends es w = (rs, w') \<Longrightarrow> prefix (jfile (mw_jw w)) (jfile (mw_jw w'))"
proof (induction es arbitrary: w rs)
  case (Cons e es)
  obtain r1 w1 where a: "manifest_append e w = (r1, w1)" by fastforce
  obtain rs1 w2 where as: "manifest_appends es w1 = (rs1, w2)" by fastforce
  with Cons a manifest_append_grows [OF a] show ?case by (auto intro: prefix_order.trans)
qed simp

abbreviation identityEdit :: manifestEdit where "identityEdit \<equiv> emptyEdit\<lparr>HasIdentity := True\<rparr>"

lemma createManifest_inv: "createManifest sched = Inr w \<Longrightarrow> mw_inv w [identityEdit]"
proof -
  assume a: "createManifest sched = Inr w"
  obtain s where c: "manifest_append identityEdit
      \<lparr>mw_jw = newJournalWriter \<lparr>f_data = [], f_sched = s\<rparr>, mw_edits = 0, mw_err = None\<rparr> = (None, w)"
    using a by (auto simp: createManifest_def Let_def split: prod.splits io_outcome.splits option.splits)
  have "mw_inv \<lparr>mw_jw = newJournalWriter \<lparr>f_data = [], f_sched = s\<rparr>, mw_edits = 0, mw_err = None\<rparr> []"
    using newJournalWriter_live [of s] by (auto simp: mw_inv_def newJournalWriter_def)
  from manifest_append_ok [OF this c] show ?thesis by simp
qed

lemma applyEdits_take:
  "applyEdits es st = Inr st' \<Longrightarrow> \<exists>s. applyEdits (take k es) st = Inr s"
  using applyEdits_append [of "take k es" "drop k es" st] by (cases "applyEdits (take k es) st") auto

lemma replay_loop_Inr:
  "replay_loop jr st = Inr st' \<Longrightarrow> \<exists>recs. read_all jr = (recs, IoEOF) \<and> decodeApply recs st = Inr st'"
proof (induction jr arbitrary: st rule: read_all.induct)
  case (1 jr)
  obtain x jr' where n: "Next_record jr = (x, jr')" by fastforce
  show ?case
  proof (cases x)
    case (Inl e)
    with n "1.prems" have "e = IoEOF" "st' = st" by (auto simp: replay_loop.simps [of jr] split: if_splits)
    with n Inl show ?thesis by (simp add: read_all.simps [of jr])
  next
    case (Inr rc)
    with n "1.prems" obtain e s1 where d: "decodeEdit rc = Inr e" "applyEdit e st = Inr s1"
      and l: "replay_loop jr' s1 = Inr st'"
      by (auto simp: replay_loop.simps [of jr] try_then_Inr)
    from "1.IH" [OF n [symmetric] Inr l] obtain rs where "read_all jr' = (rs, IoEOF)" "decodeApply rs s1 = Inr st'"
      by blast
    with n Inr d show ?thesis by (simp add: read_all.simps [of jr])
  qed
qed

lemma decodeApply_Inr:
  "decodeApply recs st = Inr st' \<Longrightarrow> \<exists>es. map decodeEdit recs = map Inr es \<and> applyEdits es st = Inr st'"
proof (induction recs arbitrary: st)
  case (Cons r rs)
  then obtain e s1 where e: "decodeEdit r = Inr e" "applyEdit e st = Inr s1" "decodeApply rs s1 = Inr st'"
    by (auto simp: try_then_Inr)
  with Cons.IH obtain es where "map decodeEdit rs = map Inr es" "applyEdits es s1 = Inr st'" by blast
  with e show ?case by (intro exI [of _ "e # es"]) simp
qed simp

lemma jw_Sync_healthy: "healthy (jw_w w) \<Longrightarrow> jw_Sync w = (e, w') \<Longrightarrow> e = None \<and> healthy (jw_w w')"
  by (auto simp: jw_Sync_def healthy_def Let_def)

lemma manifest_append_healthy:
  assumes "healthy (jw_w (mw_jw w))" "mw_err w = None" "manifest_append e w = (r, w')"
  shows "r = None \<and> healthy (jw_w (mw_jw w')) \<and> mw_err w' = None"
proof -
  obtain r1 j1 where 1: "journal_Write True (encodeEdit e) (mw_jw w) = (r1, j1)" by fastforce
  obtain r2 j2 where 2: "journal_Flush j1 = (r2, j2)" by fastforce
  obtain r3 j3 where 3: "jw_Sync j2 = (r3, j3)" by fastforce
  have h1: "r1 = None" "healthy (jw_w j1)" using journal_Write_healthy [OF assms(1) 1] by auto
  have h2: "r2 = None" "healthy (jw_w j2)" using journal_Flush_healthy [OF h1(2) 2] by auto
  have h3: "r3 = None" "healthy (jw_w j3)" using jw_Sync_healthy [OF h2(2) 3] by auto
  show ?thesis using assms(2,3) 1 2 3 h1 h2 h3 by (auto simp: manifest_append_def)
qed

lemma manifest_appends_healthy:
  "healthy (jw_w (mw_jw w)) \<Longrightarrow> mw_err w = None \<Longrightarrow> manifest_appends es w = (rs, w') \<Longrightarrow>
   (\<forall>r\<in>set rs. r = None) \<and> healthy (jw_w (mw_jw w')) \<and> mw_err w' = None"
proof (induction es arbitrary: w rs)
  case (Cons e es)
  obtain r1 w1 where a: "manifest_append e w = (r1, w1)" by fastforce
  obtain rs1 w2 where as: "manifest_appends es w1 = (rs1, w2)" by fastforce
  from manifest_append_healthy [OF Cons.prems(1,2) a] Cons.IH [of w1 rs1] as a Cons.prems(3) show ?case by auto
qed simp

lemma createManifest_healthy:
  "\<exists>w. createManifest [] = Inr w \<and> healthy (jw_w (mw_jw w)) \<and> mw_err w = None"
proof -
  let ?w = "\<lparr>mw_jw = newJournalWriter \<lparr>f_data = [], f_sched = []\<rparr>, mw_edits = 0, mw_err = None\<rparr>"
  obtain r w where a: "manifest_append identityEdit ?w = (r, w)" by fastforce
  have "healthy (jw_w (mw_jw ?w))" by (simp add: healthy_def newJournalWriter_def)
  from manifest_append_healthy [OF this _ a] a show ?thesis by (simp add: createManifest_def)
qed

section \<open>Properties\<close>

text \<open>
  C24.  Edits round-trip: decoding the record of a well-formed edit gives back the
  edit, with its watermarks, added and deleted tables with their optional key
  bounds, and blob records.
\<close>

theorem manifest_edit_roundtrip:
  assumes "wf_edit e" "fits (encodeEdit e)"
  shows "decodeEdit (encodeEdit e) = Inr e"
  using assms by (rule decodeEdit_encodeEdit)

theorem manifest_edit_roundtrip_witness:
  "decodeEdit (encodeEdit (emptyEdit\<lparr>HasLastSeq := True, LastSeq := 9,
      Added := [\<lparr>ti_Num = 3, ti_Depth = 0, ti_Size = 77, ti_MinKey = Some [1], ti_MaxKey = None,
                 ti_Entries = 2, ti_Tombstones = 0\<rparr>], Deleted := [1]\<rparr>))
   = Inr (emptyEdit\<lparr>HasLastSeq := True, LastSeq := 9,
      Added := [\<lparr>ti_Num = 3, ti_Depth = 0, ti_Size = 77, ti_MinKey = Some [1], ti_MaxKey = None,
                 ti_Entries = 2, ti_Tombstones = 0\<rparr>], Deleted := [1]\<rparr>)"
proof (rule manifest_edit_roundtrip)
  show "fits (encodeEdit (emptyEdit\<lparr>HasLastSeq := True, LastSeq := 9,
      Added := [\<lparr>ti_Num = 3, ti_Depth = 0, ti_Size = 77, ti_MinKey = Some [1], ti_MaxKey = None,
                 ti_Entries = 2, ti_Tombstones = 0\<rparr>], Deleted := [1]\<rparr>))"
    using length_put_uvarint_10 [of 9] length_put_uvarint_10 [of 3] length_put_uvarint_10 [of 0]
      length_put_uvarint_10 [of 77] length_put_uvarint_10 [of 1] length_put_uvarint_10 [of 2]
    by (simp add: fits_def encodeEdit_def encodeAdd_def appendKeyBound_def emptyEdit_def)
qed (auto simp: wf_edit_def wf_table_def int63_def emptyEdit_def maxIKeySeq_def push_bit_eq_mult)





end
