(* ===== verification/Skiplist.thy ===== *)
theory Skiplist
  imports Ikey "HOL-Library.Multiset"
begin

text \<open>
  The skip list of the memtable (\<^verbatim>\<open>memtable_skiplist.go\<close>): nodes, links, keys and
  values packed in one byte arena and addressed by 32-bit offsets.  The random
  source is the stream of its draws, so every result holds for all heights the
  source may produce.  The spare capacity of the arena holds only zero bytes, so
  growing it in place and copying it into a larger array give the same bytes; the
  model keeps the bytes.  The walks along the links are partial functions: on a
  cyclic arena the code would not return.

  The lemmas go in two steps.  \<open>rep\<close> reads the arena as a store of nodes; allocation
  and link updates on bytes are the same operations on the store.  \<open>sl_inv\<close> says
  that every level links exactly the nodes of sufficient height, in key order; a
  search then returns, and an insertion puts the entry in front of the first entry
  that is not below it.
\<close>

section \<open>Definitions\<close>

definition maxHeight :: nat where "maxHeight = 12"
definition branching :: nat where "branching = 4"
definition nodeHeaderLen :: u32 where "nodeHeaderLen = 4 + 4 + 2 + 2"
definition nilNode :: u32 where "nilNode = 0"

record skiplist =
  sl_arena :: bytes
  sl_head :: u32
  sl_height :: nat
  sl_rng :: "nat \<Rightarrow> nat"
  sl_drawn :: nat

text \<open>Overwriting bytes of a slice from an index on, as \<^verbatim>\<open>copy\<close> and \<^verbatim>\<open>PutUint32\<close> do.\<close>

definition write_at :: "bytes \<Rightarrow> nat \<Rightarrow> bytes \<Rightarrow> bytes" where
  "write_at a i b = take i a @ take (length a - i) b @ drop (i + length b) a"

definition allocNode :: "bytes \<Rightarrow> bytes \<Rightarrow> nat \<Rightarrow> skiplist \<Rightarrow> u32 \<times> skiplist" where
  "allocNode key val height s =
     (let off = word_of_nat (length (sl_arena s));
          sz = unat nodeHeaderLen + height * 4 + length key + length val;
          arena = sl_arena s @ replicate sz 0;
          arena = write_at arena (unat off) (PutUint32 (word_of_nat (length key)));
          arena = write_at arena (unat (off + 4)) (PutUint32 (word_of_nat (length val)));
          arena = write_at arena (unat (off + 8)) (PutUint16 (word_of_nat height));
          dataOff = off + nodeHeaderLen + word_of_nat height * 4;
          arena = write_at arena (unat dataOff) key;
          arena = write_at arena (unat (dataOff + word_of_nat (length key))) val
      in (off, s\<lparr>sl_arena := arena\<rparr>))"

definition newSkiplist :: "(nat \<Rightarrow> nat) \<Rightarrow> skiplist" where
  "newSkiplist rng =
     (let (off, s) = allocNode [] [] maxHeight
                       \<lparr>sl_arena = [0], sl_head = 0, sl_height = 0, sl_rng = rng, sl_drawn = 0\<rparr>
      in s\<lparr>sl_head := off, sl_height := 1\<rparr>)"

definition skiplistKeyAt :: "bytes \<Rightarrow> u32 \<Rightarrow> bytes" where
  "skiplistKeyAt arena off =
     (let h = Uint16 (drop (unat (off + 8)) arena); kl = Uint32 (drop (unat off) arena);
          dataOff = off + nodeHeaderLen + ucast h * 4
      in take (unat (dataOff + kl) - unat dataOff) (drop (unat dataOff) arena))"

definition skiplistValueAt :: "bytes \<Rightarrow> u32 \<Rightarrow> bytes" where
  "skiplistValueAt arena off =
     (let h = Uint16 (drop (unat (off + 8)) arena); kl = Uint32 (drop (unat off) arena);
          vl = Uint32 (drop (unat (off + 4)) arena);
          dataOff = off + nodeHeaderLen + ucast h * 4 + kl
      in take (unat (dataOff + vl) - unat dataOff) (drop (unat dataOff) arena))"

definition sl_key :: "skiplist \<Rightarrow> u32 \<Rightarrow> bytes" where "sl_key s off = skiplistKeyAt (sl_arena s) off"
definition sl_value :: "skiplist \<Rightarrow> u32 \<Rightarrow> bytes" where "sl_value s off = skiplistValueAt (sl_arena s) off"

definition sl_next :: "skiplist \<Rightarrow> u32 \<Rightarrow> nat \<Rightarrow> u32" where
  "sl_next s off level = Uint32 (drop (unat (off + nodeHeaderLen + word_of_nat level * 4)) (sl_arena s))"

definition setNext :: "u32 \<Rightarrow> nat \<Rightarrow> u32 \<Rightarrow> skiplist \<Rightarrow> skiplist" where
  "setNext off level target s =
     s\<lparr>sl_arena := write_at (sl_arena s) (unat (off + nodeHeaderLen + word_of_nat level * 4)) (PutUint32 target)\<rparr>"

function randomHeight :: "nat \<Rightarrow> skiplist \<Rightarrow> nat \<times> skiplist" where
  "randomHeight h s =
     (if h < maxHeight then
        let d = sl_rng s (sl_drawn s) mod branching; s = s\<lparr>sl_drawn := sl_drawn s + 1\<rparr>
        in if d = 0 then randomHeight (h + 1) s else (h, s)
      else (h, s))"
  by pat_completeness auto
termination by (relation "measure (\<lambda>(h, s). maxHeight - h)") auto

declare randomHeight.simps [simp del]

partial_function (option) findGE_walk :: "skiplist \<Rightarrow> bytes \<Rightarrow> nat \<Rightarrow> u32 \<Rightarrow> u32 option" where
  "findGE_walk s key level x =
     (let nxt = sl_next s x level
      in if nxt = nilNode \<or> 0 \<le> ikeyCompare (sl_key s nxt) key then Some x else findGE_walk s key level nxt)"

declare findGE_walk.simps [code]

fun findGE_levels :: "skiplist \<Rightarrow> bytes \<Rightarrow> nat \<Rightarrow> u32 \<Rightarrow> u32 list \<Rightarrow> (u32 \<times> u32 list) option" where
  "findGE_levels s key 0 x prev = Some (x, prev)"
| "findGE_levels s key (Suc level) x prev =
     Option.bind (findGE_walk s key level x) (\<lambda>x. findGE_levels s key level x (prev[level := x]))"

definition findGE :: "skiplist \<Rightarrow> bytes \<Rightarrow> u32 list \<Rightarrow> (u32 \<times> u32 list) option" where
  "findGE s key prev =
     Option.bind (findGE_levels s key (sl_height s) (sl_head s) prev) (\<lambda>(x, prev). Some (sl_next s x 0, prev))"

fun link_levels :: "u32 \<Rightarrow> u32 list \<Rightarrow> nat list \<Rightarrow> skiplist \<Rightarrow> skiplist" where
  "link_levels n prev [] s = s"
| "link_levels n prev (i # is) s =
     link_levels n prev is (setNext (prev ! i) i n (setNext n i (sl_next s (prev ! i) i) s))"

definition sl_insert :: "bytes \<Rightarrow> bytes \<Rightarrow> skiplist \<Rightarrow> skiplist option" where
  "sl_insert key val s =
     Option.bind (findGE s key (replicate maxHeight 0)) (\<lambda>(_, prev).
       let (h, s) = randomHeight 1 s;
           (prev, s) = (if sl_height s < h
                        then (foldl (\<lambda>p i. p[i := sl_head s]) prev [sl_height s..<h], s\<lparr>sl_height := h\<rparr>)
                        else (prev, s));
           (n, s) = allocNode key val h s
       in Some (link_levels n prev [0..<h] s))"

definition sl_seek :: "bytes \<Rightarrow> skiplist \<Rightarrow> u32 option" where
  "sl_seek target s = Option.bind (findGE s target []) (\<lambda>(n, _). Some n)"

definition sl_first :: "skiplist \<Rightarrow> u32" where "sl_first s = sl_next s (sl_head s) 0"

section \<open>The arena as a store of nodes\<close>

record node =
  n_links :: "u32 list"
  n_key :: bytes
  n_val :: bytes

definition enc_node :: "node \<Rightarrow> bytes" where
  "enc_node n =
     PutUint32 (word_of_nat (length (n_key n))) @ PutUint32 (word_of_nat (length (n_val n)))
     @ PutUint16 (word_of_nat (length (n_links n))) @ [0, 0] @ concat (map PutUint32 (n_links n)) @ n_key n @ n_val n"

definition nsize :: "node \<Rightarrow> nat" where
  "nsize n = 12 + 4 * length (n_links n) + length (n_key n) + length (n_val n)"

definition noff :: "node list \<Rightarrow> nat \<Rightarrow> nat" where
  "noff nodes i = 1 + sum_list (map nsize (take i nodes))"

definition addr :: "node list \<Rightarrow> nat \<Rightarrow> u32" where
  "addr nodes i = word_of_nat (noff nodes i)"

definition rep :: "skiplist \<Rightarrow> node list \<Rightarrow> bool" where
  "rep s nodes \<longleftrightarrow> sl_arena s = 0 # concat (map enc_node nodes) \<and> length (sl_arena s) < 2 ^ 32
     \<and> (\<forall>n\<in>set nodes. 1 \<le> length (n_links n) \<and> length (n_links n) \<le> maxHeight)"

lemma length_links_bytes [simp]: "length (concat (map PutUint32 xs)) = 4 * length xs"
  by (induction xs) auto

lemma length_enc_node [simp]: "length (enc_node n) = nsize n"
  by (simp add: enc_node_def nsize_def)

lemma length_enc_nodes: "length (concat (map enc_node ns)) = sum_list (map nsize ns)"
  by (induction ns) auto

lemma rep_length: "rep s nodes \<Longrightarrow> length (sl_arena s) = noff nodes (length nodes)"
  by (simp add: rep_def noff_def length_enc_nodes)

lemma noff_Suc: "i < length nodes \<Longrightarrow> noff nodes (Suc i) = noff nodes i + nsize (nodes ! i)"
  by (simp add: noff_def take_Suc_conv_app_nth)

lemma noff_mono: "i \<le> j \<Longrightarrow> noff nodes i \<le> noff nodes j"
proof -
  assume "i \<le> j"
  then have "take j nodes = take i nodes @ take (j - i) (drop i nodes)"
    by (metis le_add_diff_inverse take_add)
  then show ?thesis by (simp add: noff_def)
qed

lemma noff_le: "rep s nodes \<Longrightarrow> i < length nodes \<Longrightarrow> noff nodes i + nsize (nodes ! i) \<le> length (sl_arena s)"
  using noff_mono [of "Suc i" "length nodes" nodes] by (simp add: rep_length noff_Suc)

lemma unat_u32: "n < 2 ^ 32 \<Longrightarrow> unat (word_of_nat n :: u32) = n"
  by (simp add: unat_of_nat)

lemma rep_bound: "rep s nodes \<Longrightarrow> i < length nodes \<Longrightarrow> noff nodes i + nsize (nodes ! i) < 2 ^ 32"
proof -
  assume r: "rep s nodes" "i < length nodes"
  have "length (sl_arena s) < 2 ^ 32" using r(1) unfolding rep_def by blast
  with noff_le [OF r] show ?thesis by (rule le_less_trans)
qed

lemma rep_heights:
  "rep s nodes \<Longrightarrow> i < length nodes \<Longrightarrow> 1 \<le> length (n_links (nodes ! i)) \<and> length (n_links (nodes ! i)) \<le> maxHeight"
  by (simp add: rep_def)

lemma addr_plus: "addr nodes i + word_of_nat k = word_of_nat (noff nodes i + k)"
  by (simp add: addr_def)

lemma addr_inj:
  assumes "rep s nodes" "i < length nodes" "j < length nodes" "addr nodes i = addr nodes j" shows "i = j"
proof -
  have b: "noff nodes i < 2 ^ 32" "noff nodes j < 2 ^ 32"
    using rep_bound [OF assms(1)] assms(2,3) by (fastforce)+
  from arg_cong [where f = unat, OF assms(4)] have eq: "noff nodes i = noff nodes j"
    unfolding addr_def by (simp only: unat_u32 [OF b(1)] unat_u32 [OF b(2)])
  have less: "noff nodes a < noff nodes b" if "a < b" "a < length nodes" for a b
    using noff_mono [of "Suc a" b nodes] that by (simp add: noff_Suc nsize_def)
  show ?thesis using less [of i j] less [of j i] assms(2,3) eq by (cases i j rule: linorder_cases) auto
qed

lemma addr_not_nil: "rep s nodes \<Longrightarrow> i < length nodes \<Longrightarrow> addr nodes i \<noteq> nilNode"
proof
  assume r: "rep s nodes" "i < length nodes" and eq: "addr nodes i = nilNode"
  have b: "noff nodes i < 2 ^ 32" using rep_bound [OF r] by simp
  from arg_cong [where f = unat, OF eq] have "noff nodes i = 0"
    unfolding addr_def nilNode_def by (simp only: unat_u32 [OF b] unsigned_0)
  then show False by (simp add: noff_def)
qed

lemma drop_node:
  assumes "rep s nodes" "i < length nodes"
  shows "drop (noff nodes i) (sl_arena s) = enc_node (nodes ! i) @ concat (map enc_node (drop (Suc i) nodes))"
proof -
  have "concat (map enc_node nodes)
      = concat (map enc_node (take i nodes)) @ enc_node (nodes ! i) @ concat (map enc_node (drop (Suc i) nodes))"
    using id_take_nth_drop [OF assms(2)] by (metis concat.simps(2) concat_append list.simps(9) map_append)
  then show ?thesis using assms by (simp add: rep_def noff_def length_enc_nodes)
qed

lemma drop_in_node:
  assumes "rep s nodes" "i < length nodes" "k \<le> nsize (nodes ! i)"
  shows "drop (unat (addr nodes i + word_of_nat k)) (sl_arena s)
    = drop k (enc_node (nodes ! i)) @ concat (map enc_node (drop (Suc i) nodes))"
proof -
  have "unat (addr nodes i + word_of_nat k) = noff nodes i + k"
    unfolding addr_plus using rep_bound [OF assms(1,2)] assms(3) by (intro unat_u32) simp
  then show ?thesis using drop_node [OF assms(1,2)] assms(3)
    by (simp add: drop_drop [symmetric] add.commute [of "noff nodes i"] del: drop_drop)
qed

lemma node_fields:
  "Uint32 (enc_node n @ r) = word_of_nat (length (n_key n))"
  "Uint32 (drop 4 (enc_node n) @ r) = word_of_nat (length (n_val n))"
  "Uint16 (drop 8 (enc_node n) @ r) = word_of_nat (length (n_links n))"
  "drop 12 (enc_node n) = concat (map PutUint32 (n_links n)) @ n_key n @ n_val n"
  by (simp_all add: enc_node_def)

lemma drop_links:
  "l < length xs \<Longrightarrow> drop (4 * l) (concat (map PutUint32 xs)) = PutUint32 (xs ! l) @ concat (map PutUint32 (drop (Suc l) xs))"
proof (induction xs arbitrary: l)
  case (Cons x xs)
  then show ?case by (cases l) auto
qed simp

lemma sl_next_rep:
  assumes "rep s nodes" "i < length nodes" "l < length (n_links (nodes ! i))"
  shows "sl_next s (addr nodes i) l = n_links (nodes ! i) ! l"
proof -
  have a: "addr nodes i + nodeHeaderLen + word_of_nat l * 4 = addr nodes i + word_of_nat (12 + l * 4)"
    by (simp add: nodeHeaderLen_def)
  have "drop (12 + l * 4) (enc_node (nodes ! i)) = drop (4 * l) (drop 12 (enc_node (nodes ! i)))"
    by (simp add: mult.commute add.commute)
  then have d: "drop (12 + l * 4) (enc_node (nodes ! i)) = PutUint32 (n_links (nodes ! i) ! l)
      @ concat (map PutUint32 (drop (Suc l) (n_links (nodes ! i)))) @ n_key (nodes ! i) @ n_val (nodes ! i)"
    using assms(3) by (simp add: node_fields drop_links)
  have "12 + l * 4 \<le> nsize (nodes ! i)" using assms(3) by (simp add: nsize_def)
  then show ?thesis unfolding sl_next_def a
    by (subst drop_in_node [OF assms(1,2)]) (simp_all add: d)
qed

lemma addr_data:
  assumes "rep s nodes" "i < length nodes" "k \<le> length (n_key (nodes ! i)) + length (n_val (nodes ! i))"
  shows "unat (addr nodes i + nodeHeaderLen + ucast (word_of_nat (length (n_links (nodes ! i))) :: u16) * 4 + word_of_nat k)
    = noff nodes i + (12 + 4 * length (n_links (nodes ! i)) + k)" (is "unat ?w = _ + ?n")
proof -
  let ?h = "length (n_links (nodes ! i))"
  have "?h < 65536" using rep_heights [OF assms(1,2)] by (simp add: maxHeight_def)
  then have h: "ucast (word_of_nat ?h :: u16) = (word_of_nat ?h :: u32)"
    by (simp add: word_unat_eq_iff unsigned_ucast_eq unat_of_nat take_bit_nat_eq_self)
  have "?w = addr nodes i + word_of_nat ?n" unfolding h by (simp add: nodeHeaderLen_def)
  then show ?thesis unfolding addr_plus using rep_bound [OF assms(1,2)] assms(3)
    by (simp only:) (rule unat_u32, simp add: nsize_def)
qed

lemma drop_data:
  assumes "rep s nodes" "i < length nodes"
  shows "drop (noff nodes i + (12 + 4 * length (n_links (nodes ! i)))) (sl_arena s)
    = n_key (nodes ! i) @ n_val (nodes ! i) @ concat (map enc_node (drop (Suc i) nodes))"
proof -
  have "drop (noff nodes i + (12 + k)) (sl_arena s) = drop k (drop 12 (drop (noff nodes i) (sl_arena s)))" for k
    by (simp add: add.commute add.left_commute)
  then show ?thesis unfolding drop_node [OF assms] by (simp add: node_fields nsize_def del: drop_drop)
qed

lemma node_reads:
  assumes "rep s nodes" "i < length nodes"
  shows "Uint32 (drop (unat (addr nodes i)) (sl_arena s)) = word_of_nat (length (n_key (nodes ! i)))"
    "Uint32 (drop (unat (addr nodes i + 4)) (sl_arena s)) = word_of_nat (length (n_val (nodes ! i)))"
    "Uint16 (drop (unat (addr nodes i + 8)) (sl_arena s)) = word_of_nat (length (n_links (nodes ! i)))"
  using drop_in_node [OF assms, of 0] drop_in_node [OF assms, of 4] drop_in_node [OF assms, of 8]
  by (simp_all add: node_fields nsize_def)

lemma skiplistKeyAt_rep:
  assumes "rep s nodes" "i < length nodes"
  shows "skiplistKeyAt (sl_arena s) (addr nodes i) = n_key (nodes ! i)"
  using drop_data [OF assms] addr_data [OF assms, of 0] addr_data [OF assms, of "length (n_key (nodes ! i))"]
  by (simp add: skiplistKeyAt_def Let_def node_reads [OF assms])

lemma skiplistValueAt_rep:
  assumes "rep s nodes" "i < length nodes"
  shows "skiplistValueAt (sl_arena s) (addr nodes i) = n_val (nodes ! i)"
proof -
  let ?k = "length (n_key (nodes ! i))"
  let ?o = "noff nodes i + (12 + 4 * length (n_links (nodes ! i)))"
  have "drop (noff nodes i + (12 + 4 * length (n_links (nodes ! i)) + ?k)) (sl_arena s) = drop ?k (drop ?o (sl_arena s))"
    by (simp add: add.commute add.left_commute)
  then have d: "drop (noff nodes i + (12 + 4 * length (n_links (nodes ! i)) + ?k)) (sl_arena s)
      = n_val (nodes ! i) @ concat (map enc_node (drop (Suc i) nodes))"
    unfolding drop_data [OF assms] by simp
  have e: "unat (addr nodes i + nodeHeaderLen + ucast (word_of_nat (length (n_links (nodes ! i))) :: u16) * 4
        + word_of_nat ?k + word_of_nat (length (n_val (nodes ! i))))
      = noff nodes i + (12 + 4 * length (n_links (nodes ! i)) + ?k) + length (n_val (nodes ! i))"
    using addr_data [OF assms, of "?k + length (n_val (nodes ! i))"] by (simp add: add.assoc)
  show ?thesis
    unfolding skiplistValueAt_def Let_def node_reads [OF assms] e addr_data [OF assms le_add1] d by simp
qed

lemma sl_key_rep: "rep s nodes \<Longrightarrow> i < length nodes \<Longrightarrow> sl_key s (addr nodes i) = n_key (nodes ! i)"
  by (simp add: sl_key_def skiplistKeyAt_rep)

lemma sl_value_rep: "rep s nodes \<Longrightarrow> i < length nodes \<Longrightarrow> sl_value s (addr nodes i) = n_val (nodes ! i)"
  by (simp add: sl_value_def skiplistValueAt_rep)

section \<open>Updating links and allocating nodes\<close>

definition set_link :: "nat \<Rightarrow> nat \<Rightarrow> u32 \<Rightarrow> node list \<Rightarrow> node list" where
  "set_link i l t nodes = nodes[i := (nodes ! i)\<lparr>n_links := (n_links (nodes ! i))[l := t]\<rparr>]"

lemma length_set_link [simp]: "length (set_link i l t nodes) = length nodes"
  by (simp add: set_link_def)

lemma set_link_nth:
  "j < length nodes \<Longrightarrow> n_key (set_link i l t nodes ! j) = n_key (nodes ! j)"
  "j < length nodes \<Longrightarrow> n_val (set_link i l t nodes ! j) = n_val (nodes ! j)"
  "j < length nodes \<Longrightarrow> length (n_links (set_link i l t nodes ! j)) = length (n_links (nodes ! j))"
  "i < length nodes \<Longrightarrow> l < length (n_links (nodes ! i)) \<Longrightarrow> j < length nodes \<Longrightarrow>
   n_links (set_link i l t nodes ! j) ! m = (if i = j \<and> l = m then t else n_links (nodes ! j) ! m)"
  by (cases "i < length nodes"; auto simp: set_link_def nth_list_update)+

lemma nsize_set_link: "map nsize (set_link i l t nodes) = map nsize nodes"
  by (cases "i < length nodes") (simp_all add: set_link_def map_update list_update_same_conv nsize_def list_update_beyond)

lemma addr_set_link [simp]: "addr (set_link i l t nodes) = addr nodes"
  by (rule ext) (simp add: addr_def noff_def take_map [symmetric] nsize_set_link)

lemma write_at_append:
  "write_at (a @ b) (length a + i) c = a @ write_at b i c"
  "i + length c \<le> length a \<Longrightarrow> write_at (a @ b) i c = write_at a i c @ b"
  by (simp_all add: write_at_def)

lemma zero_links: "concat (replicate n (PutUint32 0)) = replicate (n * 4) 0"
proof -
  have "PutUint32 0 = replicate 4 0" by code_simp
  then show ?thesis by (induction n) (simp_all add: replicate_add add.commute)
qed

lemma enc_set_link:
  assumes "l < length (n_links n)"
  shows "enc_node (n\<lparr>n_links := (n_links n)[l := t]\<rparr>) = write_at (enc_node n) (12 + 4 * l) (PutUint32 t)"
proof -
  let ?xs = "n_links n"
  have "concat (map PutUint32 (?xs[l := t]))
      = concat (map PutUint32 (take l ?xs)) @ PutUint32 t @ concat (map PutUint32 (drop (Suc l) ?xs))"
    using assms by (simp add: upd_conv_take_nth_drop)
  moreover have "concat (map PutUint32 ?xs)
      = concat (map PutUint32 (take l ?xs)) @ PutUint32 (?xs ! l) @ concat (map PutUint32 (drop (Suc l) ?xs))"
    using id_take_nth_drop [OF assms] by (metis concat.simps(2) concat_append list.simps(9) map_append)
  moreover let ?A = "PutUint32 (word_of_nat (length (n_key n))) @ PutUint32 (word_of_nat (length (n_val n)))
      @ PutUint16 (word_of_nat (length ?xs)) @ [0, 0] @ concat (map PutUint32 (take l ?xs))"
  have "write_at (?A @ PutUint32 (?xs ! l) @ r) (length ?A + 0) (PutUint32 t) = ?A @ PutUint32 t @ r" for r
    unfolding write_at_append(1) by (simp add: write_at_def)
  moreover have "length ?A + 0 = 12 + 4 * l" using assms by simp
  moreover have "enc_node (n\<lparr>n_links := ?xs[l := t]\<rparr>)
      = PutUint32 (word_of_nat (length (n_key n))) @ PutUint32 (word_of_nat (length (n_val n)))
      @ PutUint16 (word_of_nat (length ?xs)) @ [0, 0] @ concat (map PutUint32 (?xs[l := t])) @ n_key n @ n_val n"
    by (simp add: enc_node_def)
  ultimately show ?thesis by (simp only: enc_node_def [of n] append_assoc)
qed

lemma setNext_rep:
  assumes "rep s nodes" "i < length nodes" "l < length (n_links (nodes ! i))"
  shows "rep (setNext (addr nodes i) l t s) (set_link i l t nodes)"
proof -
  let ?n = "nodes ! i" and ?a = "concat (map enc_node (take i nodes))" and ?b = "concat (map enc_node (drop (Suc i) nodes))"
  have split: "sl_arena s = (0 # ?a) @ enc_node ?n @ ?b"
    using assms(1) id_take_nth_drop [OF assms(2)]
    by (metis append_Cons concat.simps(2) concat_append list.simps(9) map_append rep_def)
  have off: "unat (addr nodes i + nodeHeaderLen + word_of_nat l * 4) = length (0 # ?a) + (12 + 4 * l)"
  proof -
    have "addr nodes i + nodeHeaderLen + word_of_nat l * 4 = addr nodes i + word_of_nat (12 + 4 * l)"
      by (simp add: nodeHeaderLen_def mult.commute)
    moreover have "unat (addr nodes i + word_of_nat (12 + 4 * l)) = noff nodes i + (12 + 4 * l)"
      unfolding addr_plus using rep_bound [OF assms(1,2)] assms(3) by (intro unat_u32) (simp add: nsize_def)
    ultimately show ?thesis by (simp only: noff_def length_enc_nodes list.size)
  qed
  have "write_at (sl_arena s) (length (0 # ?a) + (12 + 4 * l)) (PutUint32 t)
      = (0 # ?a) @ write_at (enc_node ?n) (12 + 4 * l) (PutUint32 t) @ ?b"
    unfolding split write_at_append(1) using assms(3) by (subst write_at_append(2)) (simp_all add: nsize_def)
  also have "\<dots> = 0 # concat (map enc_node (set_link i l t nodes))"
    unfolding enc_set_link [OF assms(3), symmetric] set_link_def using assms(2)
    by (simp add: upd_conv_take_nth_drop)
  finally have arena: "sl_arena (setNext (addr nodes i) l t s) = 0 # concat (map enc_node (set_link i l t nodes))"
    by (simp add: setNext_def off)
  have len: "length (sl_arena (setNext (addr nodes i) l t s)) = length (sl_arena s)"
    unfolding arena using assms(1) by (simp add: rep_def length_enc_nodes nsize_set_link)
  have "\<forall>n\<in>set (set_link i l t nodes). 1 \<le> length (n_links n) \<and> length (n_links n) \<le> maxHeight"
    using assms(1) set_link_nth(3) [of _ nodes i l t] rep_heights [OF assms(1)]
    by (metis in_set_conv_nth length_set_link)
  moreover have "length (sl_arena s) < 2 ^ 32" using assms(1) unfolding rep_def by blast
  ultimately show ?thesis unfolding rep_def len using arena by blast
qed

definition node_bytes :: "bytes \<Rightarrow> bytes \<Rightarrow> nat \<Rightarrow> node" where
  "node_bytes k v h = \<lparr>n_links = replicate h 0, n_key = k, n_val = v\<rparr>"

lemma allocNode_rep:
  assumes "rep s nodes" "1 \<le> h" "h \<le> maxHeight"
    and fit: "length (sl_arena s) + 12 + 4 * h + length k + length v < 2 ^ 32"
    and al: "allocNode k v h s = (n, s')"
  shows "rep s' (nodes @ [node_bytes k v h]) \<and> n = addr (nodes @ [node_bytes k v h]) (length nodes)
    \<and> s' = s\<lparr>sl_arena := sl_arena s @ enc_node (node_bytes k v h)\<rparr>"
proof -
  let ?a = "sl_arena s" and ?L = "length (sl_arena s)" and ?z = "\<lambda>n. replicate n (0 :: byte)"
  have u: "unat (word_of_nat ?L + word_of_nat j :: u32) = ?L + j" if "j \<le> 12 + 4 * h + length k" for j
    using fit that unat_u32 [of "?L + j"] by simp
  have u0: "unat (word_of_nat ?L :: u32) = ?L" using u [of 0] by simp
  have u4: "unat (word_of_nat ?L + 4 :: u32) = ?L + 4" using u [of 4] by simp
  have u8: "unat (word_of_nat ?L + 8 :: u32) = ?L + 8" using u [of 8] by simp
  have ud: "unat (word_of_nat ?L + nodeHeaderLen + word_of_nat h * 4 :: u32) = ?L + (12 + h * 4)"
    using u [of "12 + h * 4"] by (simp add: nodeHeaderLen_def add.assoc)
  have uv: "unat (word_of_nat ?L + nodeHeaderLen + word_of_nat h * 4 + word_of_nat (length k) :: u32)
      = ?L + (12 + h * 4 + length k)"
    using u [of "12 + h * 4 + length k"] by (simp add: nodeHeaderLen_def add.assoc)
  have hdr: "unat nodeHeaderLen = 12" by (simp add: nodeHeaderLen_def)
  have enc: "enc_node (node_bytes k v h)
      = PutUint32 (word_of_nat (length k)) @ PutUint32 (word_of_nat (length v))
        @ PutUint16 (word_of_nat h) @ ?z 2 @ ?z (h * 4) @ k @ v"
    by (simp add: enc_node_def node_bytes_def zero_links numeral_2_eq_2)
  have w: "write_at (x @ replicate N 0) p b = (x @ b) @ replicate m 0"
    if "N = length b + m" "p = length x" for x b :: bytes and m N p
    using write_at_append(1) [of x "replicate (length b + m) 0" 0 b] that
    by (simp add: write_at_def replicate_add)
  let ?k = "PutUint32 (word_of_nat (length k))" and ?v = "PutUint32 (word_of_nat (length v))" and ?h = "PutUint16 (word_of_nat h)"
  have s1: "write_at (?a @ replicate (12 + h * 4 + length k + length v) 0) ?L ?k
      = (?a @ ?k) @ replicate (8 + h * 4 + length k + length v) 0"
    by (subst w [where m = "8 + h * 4 + length k + length v"]) simp_all
  have s2: "write_at ((?a @ ?k) @ replicate (8 + h * 4 + length k + length v) 0) (?L + 4) ?v
      = (?a @ ?k @ ?v) @ replicate (4 + h * 4 + length k + length v) 0"
    by (subst w [where m = "4 + h * 4 + length k + length v"]) simp_all
  have s3: "write_at ((?a @ ?k @ ?v) @ replicate (4 + h * 4 + length k + length v) 0) (?L + 8) ?h
      = (?a @ ?k @ ?v @ ?h) @ replicate (2 + h * 4 + length k + length v) 0"
    by (subst w [where m = "2 + h * 4 + length k + length v"]) simp_all
  have s4: "write_at ((?a @ ?k @ ?v @ ?h) @ replicate (2 + h * 4 + length k + length v) 0) (?L + (12 + h * 4)) k
      = (?a @ ?k @ ?v @ ?h @ ?z 2 @ ?z (h * 4) @ k) @ replicate (length v) 0"
    using w [of "length k + length v" k "length v" "?L + (12 + h * 4)" "?a @ ?k @ ?v @ ?h @ ?z 2 @ ?z (h * 4)"]
    by (simp add: replicate_add numeral_2_eq_2)
  have s5: "write_at ((?a @ ?k @ ?v @ ?h @ ?z 2 @ ?z (h * 4) @ k) @ replicate (length v) 0) (?L + (12 + h * 4 + length k)) v
      = ?a @ ?k @ ?v @ ?h @ ?z 2 @ ?z (h * 4) @ k @ v"
    by (subst w [where m = "0"]) simp_all
  have arena: "sl_arena s' = ?a @ enc_node (node_bytes k v h)"
    using al unfolding allocNode_def Let_def u0 u4 u8 ud uv hdr enc s1 s2 s3 s4 s5 by auto
  have s': "s' = s\<lparr>sl_arena := ?a @ enc_node (node_bytes k v h)\<rparr>" "n = word_of_nat ?L"
    using al arena by (auto simp: allocNode_def Let_def)
  have "length (sl_arena s') < 2 ^ 32"
    unfolding arena using fit by (simp add: nsize_def node_bytes_def)
  moreover have "\<forall>x\<in>set (nodes @ [node_bytes k v h]). 1 \<le> length (n_links x) \<and> length (n_links x) \<le> maxHeight"
    using assms(1-3) by (auto simp: rep_def node_bytes_def)
  ultimately have "rep s' (nodes @ [node_bytes k v h])"
    using assms(1) arena by (simp add: rep_def)
  with s' show ?thesis using rep_length [OF assms(1)] by (simp add: addr_def noff_def)
qed

section \<open>Levels and search\<close>

text \<open>\<open>linked nodes l x js\<close>: following the links of level \<open>l\<close> from node \<open>x\<close> visits the nodes \<open>js\<close> and ends.\<close>

fun linked :: "node list \<Rightarrow> nat \<Rightarrow> nat \<Rightarrow> nat list \<Rightarrow> bool" where
  "linked nodes l x [] \<longleftrightarrow> x < length nodes \<and> l < length (n_links (nodes ! x)) \<and> n_links (nodes ! x) ! l = nilNode"
| "linked nodes l x (j # js) \<longleftrightarrow> x < length nodes \<and> l < length (n_links (nodes ! x))
     \<and> n_links (nodes ! x) ! l = addr nodes j \<and> linked nodes l j js"

definition at_level :: "node list \<Rightarrow> nat \<Rightarrow> nat list \<Rightarrow> nat list" where
  "at_level nodes l os = filter (\<lambda>j. l < length (n_links (nodes ! j))) os"

definition node_entry :: "node \<Rightarrow> bytes \<times> bytes" where "node_entry n = (n_key n, n_val n)"

definition sl_inv :: "skiplist \<Rightarrow> node list \<Rightarrow> nat list \<Rightarrow> bool" where
  "sl_inv s nodes os \<longleftrightarrow>
     rep s nodes \<and> nodes \<noteq> [] \<and> length (n_links (nodes ! 0)) = maxHeight \<and> node_entry (nodes ! 0) = ([], []) \<and> sl_head s = addr nodes 0
     \<and> 1 \<le> sl_height s \<and> sl_height s \<le> maxHeight
     \<and> distinct (0 # os) \<and> set os = {1..<length nodes}
     \<and> (\<forall>j\<in>set os. length (n_links (nodes ! j)) \<le> sl_height s)
     \<and> sorted_wrt (\<lambda>i j. ikeyCompare (n_key (nodes ! i)) (n_key (nodes ! j)) \<le> 0) os
     \<and> (\<forall>l<maxHeight. linked nodes l 0 (at_level nodes l os))"

lemma linked_suffix: "linked nodes l x (as @ bs) \<Longrightarrow> linked nodes l (last (x # as)) bs"
  by (induction as arbitrary: x) auto

lemma linked_bound: "linked nodes l x js \<Longrightarrow> x < length nodes \<and> l < length (n_links (nodes ! x))"
  by (cases js) auto

lemma sl_next_linked:
  assumes "rep s nodes" "linked nodes l x js"
  shows "sl_next s (addr nodes x) l = (case js of [] \<Rightarrow> nilNode | j # _ \<Rightarrow> addr nodes j)"
  using assms linked_bound [OF assms(2)] by (cases js) (auto simp: sl_next_rep)

lemma findGE_walk_linked:
  assumes "rep s nodes" "linked nodes l x (as @ bs)"
    "\<forall>j\<in>set as. ikeyCompare (n_key (nodes ! j)) k < 0" "\<forall>j\<in>set bs. 0 \<le> ikeyCompare (n_key (nodes ! j)) k"
  shows "findGE_walk s k l (addr nodes x) = Some (addr nodes (last (x # as)))"
  using assms(2-)
proof (induction as arbitrary: x)
  case Nil
  have nx: "sl_next s (addr nodes x) l = (case bs of [] \<Rightarrow> nilNode | j # _ \<Rightarrow> addr nodes j)"
    using sl_next_linked [OF assms(1)] Nil.prems(1) by simp
  have "sl_next s (addr nodes x) l = nilNode \<or> 0 \<le> ikeyCompare (sl_key s (sl_next s (addr nodes x) l)) k"
  proof (cases bs)
    case (Cons j js)
    then have "linked nodes l j js" using Nil.prems(1) by simp
    then have "j < length nodes" using linked_bound by blast
    with Cons nx Nil.prems(3) show ?thesis by (simp add: sl_key_rep [OF assms(1)])
  qed (simp add: nx)
  then show ?case by (subst findGE_walk.simps) (simp add: Let_def)
next
  case (Cons j as)
  have l: "linked nodes l j (as @ bs)" using Cons.prems(1) by simp
  have j: "j < length nodes" using linked_bound [OF l] by simp
  have "sl_next s (addr nodes x) l = addr nodes j" using sl_next_linked [OF assms(1) Cons.prems(1)] by simp
  moreover have "\<not> 0 \<le> ikeyCompare (sl_key s (addr nodes j)) k"
    using Cons.prems(2) by (simp add: sl_key_rep [OF assms(1) j])
  ultimately show ?case using Cons.IH [OF l] Cons.prems(2,3) addr_not_nil [OF assms(1) j]
    by (subst findGE_walk.simps) (simp add: Let_def)
qed

text \<open>The predecessor of a key at a level: the last node of that level among those below the key.\<close>

definition pred_at :: "node list \<Rightarrow> nat \<Rightarrow> nat list \<Rightarrow> nat" where
  "pred_at nodes l lo = last (0 # at_level nodes l lo)"

lemma pred_at_split:
  assumes "distinct (0 # lo)" "length (n_links (nodes ! 0)) = maxHeight" "l \<le> m" "m < maxHeight"
  shows "\<exists>as bs. at_level nodes l lo = as @ bs \<and> last (0 # as) = pred_at nodes m lo"
proof (cases "at_level nodes m lo = []")
  case True
  then show ?thesis by (auto simp: pred_at_def)
next
  case False
  let ?p = "pred_at nodes m lo"
  have "?p \<in> set (at_level nodes m lo)" using False by (simp add: pred_at_def)
  then have "?p \<in> set (at_level nodes l lo)" using assms(3) by (auto simp: at_level_def)
  then obtain as bs where "at_level nodes l lo = as @ ?p # bs" by (meson split_list)
  then have "at_level nodes l lo = (as @ [?p]) @ bs \<and> last (0 # as @ [?p]) = ?p" by simp
  then show ?thesis by blast
qed

lemma findGE_levels_ok:
  assumes inv: "sl_inv s nodes os" and os: "os = lo @ hi"
    and lo: "\<forall>j\<in>set lo. ikeyCompare (n_key (nodes ! j)) k < 0"
    and hi: "\<forall>j\<in>set hi. 0 \<le> ikeyCompare (n_key (nodes ! j)) k"
    and m: "n \<le> m" "m < maxHeight"
  shows "\<exists>x prev'. findGE_levels s k n (addr nodes (pred_at nodes m lo)) prev = Some (addr nodes x, prev')
    \<and> length prev' = length prev \<and> x = (if n = 0 then pred_at nodes m lo else pred_at nodes 0 lo)
    \<and> (\<forall>i<length prev. prev' ! i = (if i < n then addr nodes (pred_at nodes i lo) else prev ! i))"
  using m
proof (induction n arbitrary: m prev)
  case (Suc n)
  have r: "rep s nodes" and d: "distinct (0 # lo)" and h0: "length (n_links (nodes ! 0)) = maxHeight"
    and lk: "linked nodes n 0 (at_level nodes n os)"
    using inv os Suc.prems by (auto simp: sl_inv_def)
  obtain as bs where ab: "at_level nodes n lo = as @ bs" "last (0 # as) = pred_at nodes m lo"
    using pred_at_split [OF d h0, of n m] Suc.prems by auto
  have "at_level nodes n os = as @ bs @ at_level nodes n hi" by (simp add: os at_level_def ab(1) [unfolded at_level_def])
  with lk have "linked nodes n (pred_at nodes m lo) (bs @ at_level nodes n hi)"
    using linked_suffix [of nodes n 0 as "bs @ at_level nodes n hi"] ab(2) by simp
  moreover have "\<forall>j\<in>set bs. ikeyCompare (n_key (nodes ! j)) k < 0"
    "\<forall>j\<in>set (at_level nodes n hi). 0 \<le> ikeyCompare (n_key (nodes ! j)) k"
    using lo hi arg_cong [where f = set, OF ab(1)] by (auto simp: at_level_def)
  ultimately have w: "findGE_walk s k n (addr nodes (pred_at nodes m lo)) = Some (addr nodes (last (pred_at nodes m lo # bs)))"
    by (rule findGE_walk_linked [OF r])
  have p: "last (pred_at nodes m lo # bs) = pred_at nodes n lo"
    using ab by (cases bs) (simp_all add: pred_at_def)
  have nm: "n \<le> n" "n < maxHeight" using Suc.prems by simp_all
  from Suc.IH [OF nm, of "prev[n := addr nodes (pred_at nodes n lo)]"] obtain x prev' where IH:
    "findGE_levels s k n (addr nodes (pred_at nodes n lo)) (prev[n := addr nodes (pred_at nodes n lo)]) = Some (addr nodes x, prev')"
    "length prev' = length prev" "x = (if n = 0 then pred_at nodes n lo else pred_at nodes 0 lo)"
    "\<forall>i<length prev. prev' ! i = (if i < n then addr nodes (pred_at nodes i lo)
       else (prev[n := addr nodes (pred_at nodes n lo)]) ! i)"
    by auto
  have "findGE_levels s k (Suc n) (addr nodes (pred_at nodes m lo)) prev = Some (addr nodes x, prev')"
    using w unfolding p by (simp add: IH(1))
  moreover have "x = pred_at nodes 0 lo" using IH(3) by auto
  moreover have "\<forall>i<length prev. prev' ! i = (if i < Suc n then addr nodes (pred_at nodes i lo) else prev ! i)"
    using IH(4) by (auto simp: nth_list_update less_Suc_eq)
  ultimately show ?case using IH(2) by auto
qed simp

text \<open>The split of the order at a key.\<close>

definition below :: "node list \<Rightarrow> bytes \<Rightarrow> nat list \<Rightarrow> nat list" where
  "below nodes k os = takeWhile (\<lambda>j. ikeyCompare (n_key (nodes ! j)) k < 0) os"

definition above_eq :: "node list \<Rightarrow> bytes \<Rightarrow> nat list \<Rightarrow> nat list" where
  "above_eq nodes k os = dropWhile (\<lambda>j. ikeyCompare (n_key (nodes ! j)) k < 0) os"

lemma split_order:
  assumes "sl_inv s nodes os"
  shows "os = below nodes k os @ above_eq nodes k os"
    "\<forall>j\<in>set (below nodes k os). ikeyCompare (n_key (nodes ! j)) k < 0"
    "\<forall>j\<in>set (above_eq nodes k os). 0 \<le> ikeyCompare (n_key (nodes ! j)) k"
proof -
  show "os = below nodes k os @ above_eq nodes k os" by (simp add: below_def above_eq_def)
  show "\<forall>j\<in>set (below nodes k os). ikeyCompare (n_key (nodes ! j)) k < 0"
    by (auto simp: below_def dest: set_takeWhileD)
  have "sorted_wrt (\<lambda>i j. ikeyCompare (n_key (nodes ! i)) (n_key (nodes ! j)) \<le> 0) os"
    using assms by (simp add: sl_inv_def)
  then show "\<forall>j\<in>set (above_eq nodes k os). 0 \<le> ikeyCompare (n_key (nodes ! j)) k"
    unfolding above_eq_def
  proof (induction os)
    case (Cons i os)
    show ?case
    proof (cases "ikeyCompare (n_key (nodes ! i)) k < 0")
      case False
      then have "0 \<le> ikeyCompare (n_key (nodes ! j)) k" if "j \<in> set os" for j
        using Cons.prems that by (auto simp: order_simps)
      with False show ?thesis by auto
    qed (use Cons in auto)
  qed simp
qed

lemma findGE_ok:
  assumes inv: "sl_inv s nodes os"
  shows "\<exists>prev'. findGE s k prev = Some (case above_eq nodes k os of [] \<Rightarrow> nilNode | j # _ \<Rightarrow> addr nodes j, prev')
    \<and> length prev' = length prev
    \<and> (\<forall>i<length prev. prev' ! i = (if i < sl_height s then addr nodes (pred_at nodes i (below nodes k os)) else prev ! i))"
proof -
  note sp = split_order [OF inv, of k]
  let ?lo = "below nodes k os" and ?hi = "above_eq nodes k os"
  have r: "rep s nodes" and hd: "sl_head s = addr nodes 0" and h: "1 \<le> sl_height s" "sl_height s \<le> maxHeight"
    and lk: "linked nodes 0 0 (at_level nodes 0 os)" and d: "distinct (0 # os)" "set os = {1..<length nodes}"
    using inv by (auto simp: sl_inv_def maxHeight_def)
  obtain n where n: "sl_height s = Suc n" using h by (cases "sl_height s") auto
  let ?m = "maxHeight - 1"
  have top: "linked nodes n 0 (at_level nodes n os)" using inv n h by (auto simp: sl_inv_def)
  have walk: "findGE_walk s k n (addr nodes 0) = Some (addr nodes (pred_at nodes n ?lo))"
    using findGE_walk_linked [OF r, of n 0 "at_level nodes n ?lo" "at_level nodes n ?hi" k] top sp
    by (auto simp: at_level_def pred_at_def filter_append [symmetric])
  have nm: "n \<le> n" "n < maxHeight" using n h by simp_all
  obtain x prev' where lv: "findGE_levels s k n (addr nodes (pred_at nodes n ?lo)) (prev[n := addr nodes (pred_at nodes n ?lo)])
        = Some (addr nodes x, prev')" "length prev' = length prev" "x = (if n = 0 then pred_at nodes n ?lo else pred_at nodes 0 ?lo)"
    "\<forall>i<length prev. prev' ! i = (if i < n then addr nodes (pred_at nodes i ?lo)
       else (prev[n := addr nodes (pred_at nodes n ?lo)]) ! i)"
    using findGE_levels_ok [OF inv sp nm, of "prev[n := addr nodes (pred_at nodes n ?lo)]"] unfolding length_list_update
    by blast
  have x: "x = pred_at nodes 0 ?lo" using lv(3) by simp
  have pos: "0 < length (n_links (nodes ! j))" if "j \<in> set os" for j
    using rep_heights [OF r, of j] that d(2) by auto
  have all0: "at_level nodes 0 xs = xs" if "set xs \<subseteq> set os" for xs
    unfolding at_level_def using that pos by (intro filter_True) auto
  have los: "set ?lo \<subseteq> set os" by (auto simp: below_def dest: set_takeWhileD)
  have "linked nodes 0 0 (?lo @ ?hi)" unfolding sp(1) [symmetric] using lk all0 [of os] by simp
  then have "linked nodes 0 (pred_at nodes 0 ?lo) ?hi"
    unfolding pred_at_def all0 [OF los] by (rule linked_suffix)
  then have nx: "sl_next s (addr nodes x) 0 = (case ?hi of [] \<Rightarrow> nilNode | j # _ \<Rightarrow> addr nodes j)"
    unfolding x by (rule sl_next_linked [OF r])
  have "findGE s k prev = Some (sl_next s (addr nodes x) 0, prev')"
    by (simp add: findGE_def n hd walk lv(1))
  moreover have "\<forall>i<length prev. prev' ! i = (if i < Suc n then addr nodes (pred_at nodes i ?lo) else prev ! i)"
    using lv(4) by (auto simp: nth_list_update less_Suc_eq)
  ultimately show ?thesis using lv(2) n nx by auto
qed

section \<open>Insertion\<close>

text \<open>Linking changes the links of nodes, not their number, keys, values or heights.\<close>

definition same_shape :: "node list \<Rightarrow> node list \<Rightarrow> bool" where
  "same_shape nodes nodes' \<longleftrightarrow> length nodes' = length nodes
     \<and> (\<forall>j<length nodes. n_key (nodes' ! j) = n_key (nodes ! j) \<and> n_val (nodes' ! j) = n_val (nodes ! j)
          \<and> length (n_links (nodes' ! j)) = length (n_links (nodes ! j)))"

lemma same_shape_refl [simp]: "same_shape nodes nodes" by (simp add: same_shape_def)

lemma same_shape_trans: "same_shape a b \<Longrightarrow> same_shape b c \<Longrightarrow> same_shape a c"
  by (auto simp: same_shape_def)

lemma same_shape_set_link [simp]: "same_shape nodes (set_link i l t nodes)"
  by (simp add: same_shape_def set_link_nth)

lemma same_shape_noff: "same_shape nodes nodes' \<Longrightarrow> noff nodes' = noff nodes"
proof -
  assume s: "same_shape nodes nodes'"
  then have "map nsize nodes' = map nsize nodes"
    by (intro nth_equalityI) (auto simp: same_shape_def nsize_def)
  then show ?thesis by (intro ext) (simp add: noff_def take_map [symmetric])
qed

lemma same_shape_addr: "same_shape nodes nodes' \<Longrightarrow> addr nodes' = addr nodes"
  by (simp add: fun_eq_iff addr_def same_shape_noff)

lemma same_shape_at_level: "same_shape nodes nodes' \<Longrightarrow> set os \<subseteq> {..<length nodes} \<Longrightarrow> at_level nodes' l os = at_level nodes l os"
  unfolding at_level_def by (intro filter_cong) (auto simp: same_shape_def)

lemma linked_frame:
  assumes "q < length nodes" "m < length (n_links (nodes ! q))" "l \<noteq> m \<or> q \<notin> set (x # js)"
  shows "linked (set_link q m t nodes) l x js \<longleftrightarrow> linked nodes l x js"
  using assms(3)
proof (induction js arbitrary: x)
  case Nil
  then show ?case using assms(1,2) by (auto simp: set_link_nth)
next
  case (Cons j js)
  have "linked (set_link q m t nodes) l j js \<longleftrightarrow> linked nodes l j js" using Cons by auto
  then show ?case using Cons.prems assms(1,2) by (auto simp: set_link_nth)
qed

lemma linked_insert:
  assumes "linked nodes l x (as @ bs)" "distinct (x # as @ bs)" "N < length nodes" "l < length (n_links (nodes ! N))"
    "N \<notin> set (x # as @ bs)" "p = last (x # as)"
  shows "linked (set_link p l (addr nodes N) (set_link N l (n_links (nodes ! p) ! l) nodes)) l x (as @ N # bs)"
  using assms
proof (induction as arbitrary: x)
  case Nil
  let ?t = "n_links (nodes ! x) ! l" and ?n1 = "set_link N l (n_links (nodes ! x) ! l) nodes"
  have x: "x < length nodes" "l < length (n_links (nodes ! x))" using linked_bound [OF Nil.prems(1)] by auto
  have x1: "x < length ?n1" "l < length (n_links (?n1 ! x))" using x by (simp_all add: set_link_nth)
  have "linked ?n1 l N bs"
    using Nil.prems by (cases bs) (auto simp: set_link_nth linked_frame)
  moreover have "x \<notin> set (N # bs)" using Nil.prems by auto
  ultimately have "linked (set_link x l (addr nodes N) ?n1) l N bs"
    using linked_frame [OF x1, of l N bs] by simp
  then show ?case using x x1 Nil.prems by (simp add: set_link_nth)
next
  case (Cons j as)
  have j: "linked nodes l j (as @ bs)" "distinct (j # as @ bs)" "N \<notin> set (j # as @ bs)" "p = last (j # as)"
    using Cons.prems by auto
  note IH = Cons.IH [OF j(1,2) Cons.prems(3,4) j(3,4)]
  have p: "p < length nodes" "l < length (n_links (nodes ! p))"
    using linked_bound [OF linked_suffix [OF j(1)]] j(4) by auto
  have "x \<noteq> p" using Cons.prems(2) j(4) by (metis append_Cons distinct.simps(2) last_in_set list.distinct(1) set_append UnI1 list.set_intros(2) last_ConsR)
  moreover have "x \<noteq> N" using Cons.prems by auto
  ultimately show ?case using IH Cons.prems(1) p Cons.prems(3,4) by (simp add: set_link_nth)
qed

lemma link_levels_ok:
  assumes "rep s nodes" "N < length nodes" "\<forall>i\<in>set is. i < length (n_links (nodes ! N)) \<and> i < length prev"
    "distinct is" "distinct (0 # lo @ hi)" "N \<notin> set (0 # lo @ hi)" "set (lo @ hi) \<subseteq> {..<length nodes}"
    "\<forall>i\<in>set is. prev ! i = addr nodes (pred_at nodes i lo) \<and> linked nodes i 0 (at_level nodes i lo @ at_level nodes i hi)"
  shows "\<exists>nodes'. rep (link_levels (addr nodes N) prev is s) nodes' \<and> same_shape nodes nodes'
    \<and> (\<forall>i\<in>set is. linked nodes' i 0 (at_level nodes i lo @ N # at_level nodes i hi))
    \<and> (\<forall>l x js. l \<notin> set is \<longrightarrow> linked nodes' l x js = linked nodes l x js)
    \<and> sl_head (link_levels (addr nodes N) prev is s) = sl_head s
    \<and> sl_height (link_levels (addr nodes N) prev is s) = sl_height s"
  using assms
proof (induction "is" arbitrary: s nodes)
  case Nil
  then show ?case by (intro exI [of _ nodes]) simp
next
  case (Cons i "is")
  let ?p = "pred_at nodes i lo"
  let ?n1 = "set_link N i (n_links (nodes ! ?p) ! i) nodes"
  let ?n2 = "set_link ?p i (addr nodes N) ?n1"
  have lk: "linked nodes i 0 (at_level nodes i lo @ at_level nodes i hi)" and pi: "prev ! i = addr nodes ?p"
    and iN: "i < length (n_links (nodes ! N))" using Cons.prems by auto
  have p: "?p < length nodes" "i < length (n_links (nodes ! ?p))"
    using linked_bound [OF linked_suffix [OF lk]] by (auto simp: pred_at_def)
  have nx: "sl_next s (prev ! i) i = n_links (nodes ! ?p) ! i"
    unfolding pi by (rule sl_next_rep [OF Cons.prems(1) p])
  define s2 where "s2 = setNext (prev ! i) i (addr nodes N) (setNext (addr nodes N) i (sl_next s (prev ! i) i) s)"
  have r1: "rep (setNext (addr nodes N) i (sl_next s (prev ! i) i) s) ?n1"
    unfolding nx by (rule setNext_rep [OF Cons.prems(1,2) iN])
  have r2: "rep s2 ?n2"
    using setNext_rep [OF r1, of ?p i "addr nodes N"] p by (simp add: s2_def pi set_link_nth)
  have sh: "same_shape nodes ?n2" using same_shape_trans [OF same_shape_set_link same_shape_set_link] .
  have ad: "addr ?n2 = addr nodes" by simp
  have lv: "at_level ?n2 l lo = at_level nodes l lo" "at_level ?n2 l hi = at_level nodes l hi" for l
    using same_shape_at_level [OF sh] Cons.prems(7) by auto
  have pr: "pred_at ?n2 l lo = pred_at nodes l lo" for l
    unfolding pred_at_def [of ?n2 l lo] lv pred_at_def [of nodes l lo] ..
  have dl: "distinct (0 # at_level nodes i lo @ at_level nodes i hi)" "N \<notin> set (0 # at_level nodes i lo @ at_level nodes i hi)"
    using Cons.prems(5,6) by (auto simp: at_level_def)
  have new: "linked ?n2 i 0 (at_level nodes i lo @ N # at_level nodes i hi)"
    using linked_insert [OF lk dl(1) Cons.prems(2) iN dl(2)] by (simp add: pred_at_def)
  have old: "linked ?n2 l x js = linked nodes l x js" if "l \<noteq> i" for l x js
    using that p Cons.prems(2) iN by (simp add: linked_frame set_link_nth)
  have rest: "\<forall>j\<in>set is. j \<noteq> i" using Cons.prems(4) by auto
  have "\<exists>nodes'. rep (link_levels (addr ?n2 N) prev is s2) nodes' \<and> same_shape ?n2 nodes'
    \<and> (\<forall>i\<in>set is. linked nodes' i 0 (at_level ?n2 i lo @ N # at_level ?n2 i hi))
    \<and> (\<forall>l x js. l \<notin> set is \<longrightarrow> linked nodes' l x js = linked ?n2 l x js)
    \<and> sl_head (link_levels (addr ?n2 N) prev is s2) = sl_head s2
    \<and> sl_height (link_levels (addr ?n2 N) prev is s2) = sl_height s2"
  proof (rule Cons.IH [OF r2])
    show "\<forall>j\<in>set is. prev ! j = addr ?n2 (pred_at ?n2 j lo) \<and> linked ?n2 j 0 (at_level ?n2 j lo @ at_level ?n2 j hi)"
      using Cons.prems(8) rest by (auto simp: pr lv old)
  qed (use Cons.prems in \<open>auto simp: set_link_nth\<close>)
  then obtain nodes' where n': "rep (link_levels (addr nodes N) prev is s2) nodes'" "same_shape ?n2 nodes'"
    "\<forall>i\<in>set is. linked nodes' i 0 (at_level nodes i lo @ N # at_level nodes i hi)"
    "\<forall>l x js. l \<notin> set is \<longrightarrow> linked nodes' l x js = linked ?n2 l x js"
    "sl_head (link_levels (addr nodes N) prev is s2) = sl_head s2" "sl_height (link_levels (addr nodes N) prev is s2) = sl_height s2"
    unfolding ad lv by blast
  have "i \<notin> set is" using Cons.prems(4) by simp
  show ?case
  proof (intro exI [of _ nodes'] conjI)
    show "rep (link_levels (addr nodes N) prev (i # is) s) nodes'" using n'(1) by (simp add: s2_def)
    show "same_shape nodes nodes'" by (rule same_shape_trans [OF sh n'(2)])
    show "\<forall>j\<in>set (i # is). linked nodes' j 0 (at_level nodes j lo @ N # at_level nodes j hi)"
      using n'(3,4) new \<open>i \<notin> set is\<close> by auto
    show "\<forall>l x js. l \<notin> set (i # is) \<longrightarrow> linked nodes' l x js = linked nodes l x js"
      using n'(4) old by auto
    show "sl_head (link_levels (addr nodes N) prev (i # is) s) = sl_head s"
      "sl_height (link_levels (addr nodes N) prev (i # is) s) = sl_height s"
      using n'(5,6) by (simp_all add: s2_def setNext_def)
  qed
qed

lemma randomHeight_ok:
  "randomHeight h s = (h', s') \<Longrightarrow> h \<le> maxHeight \<Longrightarrow> h \<le> h' \<and> h' \<le> maxHeight \<and> (\<exists>d. s' = s\<lparr>sl_drawn := d\<rparr>)"
proof (induction h s arbitrary: h' s' rule: randomHeight.induct)
  case (1 h s)
  let ?s = "s\<lparr>sl_drawn := sl_drawn s + 1\<rparr>"
  show ?case
  proof (cases "h < maxHeight \<and> sl_rng s (sl_drawn s) mod branching = 0")
    case True
    then have "randomHeight (h + 1) ?s = (h', s')" using "1.prems"(1) by (subst (asm) randomHeight.simps) (simp add: Let_def)
    with "1.IH" [OF _ refl refl] True have "h + 1 \<le> h' \<and> h' \<le> maxHeight \<and> (\<exists>d. s' = ?s\<lparr>sl_drawn := d\<rparr>)" by simp
    then show ?thesis by auto
  next
    case False
    then have "h' = h \<and> (s' = ?s \<or> s' = s)"
      using "1.prems"(1) by (subst (asm) randomHeight.simps) (auto simp: Let_def split: if_splits)
    then show ?thesis using "1.prems"(2) by (auto intro: exI [of _ "sl_drawn s + 1"] exI [of _ "sl_drawn s"])
  qed
qed

lemma foldl_update:
  "length (foldl (\<lambda>p i. p[i := a]) prev is) = length prev"
  "j < length prev \<Longrightarrow> foldl (\<lambda>p i. p[i := a]) prev is ! j = (if j \<in> set is then a else prev ! j)"
  by (induction "is" arbitrary: prev) (auto simp: nth_list_update)

lemma rep_arena: "rep s nodes \<Longrightarrow> sl_arena s' = sl_arena s \<Longrightarrow> rep s' nodes"
  unfolding rep_def by metis

lemma at_level_append [simp]: "at_level nodes l (xs @ ys) = at_level nodes l xs @ at_level nodes l ys"
  by (simp add: at_level_def)

lemma extend_nodes:
  assumes "rep s nodes" "rep s' (nodes @ [x])" "j < length nodes"
  shows "(nodes @ [x]) ! j = nodes ! j" "addr (nodes @ [x]) j = addr nodes j"
  using assms(3) by (simp_all add: nth_append addr_def noff_def)

lemma linked_extend:
  "set (y # js) \<subseteq> {..<length nodes} \<Longrightarrow> linked nodes l y js \<Longrightarrow> linked (nodes @ [x]) l y js"
proof (induction js arbitrary: y)
  case (Cons j js)
  have "addr (nodes @ [x]) j = addr nodes j" using Cons.prems(1) by (simp add: addr_def noff_def)
  then show ?case using Cons by (auto simp: nth_append)
qed (auto simp: nth_append)

text \<open>The predecessors an insertion links behind, for a new node of height \<open>h\<close>.\<close>

definition insert_prev :: "skiplist \<Rightarrow> nat \<Rightarrow> u32 list \<Rightarrow> u32 list" where
  "insert_prev s h prev = (if sl_height s < h then foldl (\<lambda>p i. p[i := sl_head s]) prev [sl_height s..<h] else prev)"

lemma insert_prev_ok:
  assumes inv: "sl_inv s nodes os" and h: "h \<le> maxHeight" and len: "length prev = maxHeight" and lo: "set lo \<subseteq> set os"
    and prev: "\<And>i. i < sl_height s \<Longrightarrow> prev ! i = addr nodes (pred_at nodes i lo)"
  shows "length (insert_prev s h prev) = maxHeight"
    "\<And>i. i < h \<Longrightarrow> insert_prev s h prev ! i = addr nodes (pred_at nodes i lo)"
proof -
  show "length (insert_prev s h prev) = maxHeight" by (simp add: insert_prev_def foldl_update len)
  fix i assume i: "i < h"
  show "insert_prev s h prev ! i = addr nodes (pred_at nodes i lo)"
  proof (cases "i < sl_height s")
    case True
    then show ?thesis using prev i h len by (auto simp: insert_prev_def foldl_update)
  next
    case False
    then have "at_level nodes i lo = []"
      using inv lo by (fastforce simp: at_level_def filter_empty_conv sl_inv_def)
    then show ?thesis using False i h len inv by (simp add: insert_prev_def foldl_update sl_inv_def pred_at_def)
  qed
qed

text \<open>The store after allocation, before linking: the old levels are as they were.\<close>

lemma extended_levels:
  assumes inv: "sl_inv s nodes os" and os: "os = lo @ hi"
  shows "set os \<subseteq> {..<length nodes}"
    "addr (nodes @ [x]) (pred_at (nodes @ [x]) l lo) = addr nodes (pred_at nodes l lo)"
    "l < maxHeight \<Longrightarrow> linked (nodes @ [x]) l 0 (at_level (nodes @ [x]) l lo @ at_level (nodes @ [x]) l hi)"
proof -
  have ne: "nodes \<noteq> []" and d: "set os = {1..<length nodes}" using inv by (auto simp: sl_inv_def)
  show sub: "set os \<subseteq> {..<length nodes}" using d by auto
  have lvl: "at_level (nodes @ [x]) l xs = at_level nodes l xs" if "set xs \<subseteq> set os" for xs
    unfolding at_level_def using that sub by (intro filter_cong) (auto simp: nth_append)
  have "pred_at nodes l lo \<in> set (0 # lo)"
    using last_in_set [of "0 # at_level nodes l lo"] by (auto simp: pred_at_def at_level_def)
  then have "pred_at nodes l lo < length nodes" using os sub ne by auto
  then show "addr (nodes @ [x]) (pred_at (nodes @ [x]) l lo) = addr nodes (pred_at nodes l lo)"
    using lvl [of lo] os by (simp add: pred_at_def addr_def noff_def)
  assume l: "l < maxHeight"
  have "set (0 # at_level nodes l os) \<subseteq> {..<length nodes}" using sub ne by (auto simp: at_level_def)
  from linked_extend [OF this] have "linked (nodes @ [x]) l 0 (at_level nodes l os)"
    using inv l by (simp add: sl_inv_def)
  then show "linked (nodes @ [x]) l 0 (at_level (nodes @ [x]) l lo @ at_level (nodes @ [x]) l hi)"
    using lvl [of lo] lvl [of hi] os by simp
qed

text \<open>Once every level up to the height of the new node is linked through it, the invariant holds again.\<close>

lemma sl_inv_linked:
  assumes inv: "sl_inv s nodes os" and os: "os = lo @ hi"
    and lo: "\<forall>j\<in>set lo. ikeyCompare (n_key (nodes ! j)) k < 0"
    and hi: "\<forall>j\<in>set hi. 0 \<le> ikeyCompare (n_key (nodes ! j)) k"
    and h: "1 \<le> h" "h \<le> maxHeight" and r: "rep s' nodes'" and shp: "same_shape (nodes @ [node_bytes k v h]) nodes'"
    and new: "\<And>i. i < h \<Longrightarrow> linked nodes' i 0 (at_level (nodes @ [node_bytes k v h]) i lo
       @ length nodes # at_level (nodes @ [node_bytes k v h]) i hi)"
    and old: "\<And>l x js. h \<le> l \<Longrightarrow> linked nodes' l x js = linked (nodes @ [node_bytes k v h]) l x js"
    and st: "sl_head s' = sl_head s" "sl_height s' = max (sl_height s) h"
  shows "sl_inv s' nodes' (lo @ length nodes # hi)"
  unfolding sl_inv_def
proof (intro conjI)
  let ?N = "length nodes" and ?n1 = "nodes @ [node_bytes k v h]"
  note ext = extended_levels [OF inv os]
  have sh: "length nodes' = Suc ?N" "\<And>j. j < ?N \<Longrightarrow> n_key (nodes' ! j) = n_key (nodes ! j)"
    "\<And>j. j < ?N \<Longrightarrow> length (n_links (nodes' ! j)) = length (n_links (nodes ! j))"
    "n_key (nodes' ! ?N) = k" "length (n_links (nodes' ! ?N)) = h"
    using shp by (auto simp: same_shape_def nth_append node_bytes_def less_Suc_eq all_conj_distrib)
  have ne: "nodes \<noteq> []" and d: "distinct (0 # os)" "set os = {1..<?N}"
    and hs: "\<And>j. j \<in> set os \<Longrightarrow> length (n_links (nodes ! j)) \<le> sl_height s"
    and srt: "sorted_wrt (\<lambda>i j. ikeyCompare (n_key (nodes ! i)) (n_key (nodes ! j)) \<le> 0) os"
    using inv by (auto simp: sl_inv_def)
  have "n_val (nodes' ! 0) = n_val (nodes ! 0)"
    using shp ne by (auto simp: same_shape_def nth_append)
  then show "nodes' \<noteq> []" "length (n_links (nodes' ! 0)) = maxHeight" "node_entry (nodes' ! 0) = ([], [])" using sh ne inv by (auto simp: sl_inv_def node_entry_def)
  show "rep s' nodes'" by (rule r)
  show "sl_head s' = addr nodes' 0"
    using same_shape_addr [OF shp] st inv by (simp add: sl_inv_def addr_def noff_def)
  show "1 \<le> sl_height s'" "sl_height s' \<le> maxHeight" using st h inv by (auto simp: sl_inv_def)
  show "distinct (0 # lo @ ?N # hi)" "set (lo @ ?N # hi) = {1..<length nodes'}" using d os ne sh(1) by (auto simp: Suc_le_eq)
  show "\<forall>j\<in>set (lo @ ?N # hi). length (n_links (nodes' ! j)) \<le> sl_height s'"
  proof
    fix j assume "j \<in> set (lo @ ?N # hi)"
    then consider "j = ?N" | "j \<in> set os" "j < ?N" using os ext(1) by auto
    then show "length (n_links (nodes' ! j)) \<le> sl_height s'"
      by cases (use st hs sh(3,5) in \<open>auto simp: le_max_iff_disj\<close>)
  qed
  have key: "n_key (nodes' ! j) = n_key (nodes ! j)" if "j \<in> set lo \<union> set hi" for j
    using that os ext(1) sh(2) by auto
  have "sorted_wrt (\<lambda>i j. ikeyCompare (n_key (nodes' ! i)) (n_key (nodes' ! j)) \<le> 0) (lo @ hi)"
    using srt unfolding os by (rule sorted_wrt_mono_rel [rotated]) (simp add: key)
  moreover have "ikeyCompare (n_key (nodes' ! i)) k \<le> 0" if "i \<in> set lo" for i
    using lo that key [of i] by (simp add: less_imp_le)
  moreover have "ikeyCompare k (n_key (nodes' ! j)) \<le> 0" if "j \<in> set hi" for j
    using hi that key [of j] by (auto simp: order_simps)
  ultimately show "sorted_wrt (\<lambda>i j. ikeyCompare (n_key (nodes' ! i)) (n_key (nodes' ! j)) \<le> 0) (lo @ ?N # hi)"
    by (auto simp: sorted_wrt_append sh(4))
  have lv: "at_level nodes' l (lo @ ?N # hi) = at_level ?n1 l lo @ (if l < h then [?N] else []) @ at_level ?n1 l hi" for l
  proof -
    have "at_level nodes' l lo = at_level ?n1 l lo" "at_level nodes' l hi = at_level ?n1 l hi"
      by (rule same_shape_at_level [OF shp], use os ext(1) in auto)+
    then show ?thesis using sh(5) by (simp add: at_level_def)
  qed
  show "\<forall>l<maxHeight. linked nodes' l 0 (at_level nodes' l (lo @ ?N # hi))"
    unfolding lv using new old ext(3) by (auto simp: not_less)
qed

lemma sl_insert_ok:
  assumes inv: "sl_inv s nodes os"
    and fit: "length (sl_arena s) + 12 + 4 * maxHeight + length k + length v < 2 ^ 32"
  shows "\<exists>s' nodes'. sl_insert k v s = Some s'
    \<and> sl_inv s' nodes' (below nodes k os @ length nodes # above_eq nodes k os)
    \<and> same_shape (nodes @ [node_bytes k v (length (n_links (nodes' ! length nodes)))]) nodes'
    \<and> length (sl_arena s') \<le> length (sl_arena s) + 12 + 4 * maxHeight + length k + length v"
proof -
  let ?N = "length nodes" and ?lo = "below nodes k os" and ?hi = "above_eq nodes k os"
  note sp = split_order [OF inv, of k]
  have r: "rep s nodes" and ht: "sl_height s \<le> maxHeight" and d: "distinct (0 # os)" "set os = {1..<?N}" and ne: "nodes \<noteq> []"
    using inv by (auto simp: sl_inv_def)
  obtain prev where fg: "findGE s k (replicate maxHeight 0)
        = Some (case ?hi of [] \<Rightarrow> nilNode | j # _ \<Rightarrow> addr nodes j, prev)"
      "length prev = maxHeight" "\<And>i. i < sl_height s \<Longrightarrow> prev ! i = addr nodes (pred_at nodes i ?lo)"
    using findGE_ok [OF inv, of k "replicate maxHeight 0"] ht by auto
  obtain h s1 where rh: "randomHeight 1 s = (h, s1)" by fastforce
  obtain dr where h: "1 \<le> h" "h \<le> maxHeight" and s1: "s1 = s\<lparr>sl_drawn := dr\<rparr>"
    using randomHeight_ok [OF rh] by (auto simp: maxHeight_def)
  define s2 where "s2 = s1\<lparr>sl_height := max (sl_height s) h\<rparr>"
  have pre: "(if sl_height s1 < h then (foldl (\<lambda>p i. p[i := sl_head s1]) prev [sl_height s1..<h], s1\<lparr>sl_height := h\<rparr>)
      else (prev, s1)) = (insert_prev s h prev, s2)"
    by (auto simp: insert_prev_def s2_def s1)
  have plo: "set ?lo \<subseteq> set os" using arg_cong [where f = set, OF sp(1)] by auto
  note prev2 = insert_prev_ok [OF inv h(2) fg(2) plo fg(3)]
  have r2: "rep s2 nodes" using r by (rule rep_arena) (simp add: s2_def s1)
  obtain n s3 where al: "allocNode k v h s2 = (n, s3)" by fastforce
  let ?nd = "node_bytes k v h" and ?n1 = "nodes @ [node_bytes k v h]"
  have "length (sl_arena s2) + 12 + 4 * h + length k + length v < 2 ^ 32"
    using fit h by (simp add: s2_def s1)
  note an = allocNode_rep [OF r2 h this al]
  have r3: "rep s3 ?n1" and n: "n = addr ?n1 ?N" and s3: "s3 = s2\<lparr>sl_arena := sl_arena s2 @ enc_node ?nd\<rparr>"
    using an by auto
  note ext = extended_levels(2,3) [OF inv sp(1), where x = ?nd]
  let ?s4 = "link_levels n (insert_prev s h prev) [0..<h] s3"
  have "\<exists>nodes'. rep ?s4 nodes' \<and> same_shape ?n1 nodes'
    \<and> (\<forall>i\<in>set [0..<h]. linked nodes' i 0 (at_level ?n1 i ?lo @ ?N # at_level ?n1 i ?hi))
    \<and> (\<forall>l x js. l \<notin> set [0..<h] \<longrightarrow> linked nodes' l x js = linked ?n1 l x js)
    \<and> sl_head ?s4 = sl_head s3 \<and> sl_height ?s4 = sl_height s3"
    unfolding n
  proof (rule link_levels_ok [OF r3])
    show "\<forall>i\<in>set [0..<h]. insert_prev s h prev ! i = addr ?n1 (pred_at ?n1 i ?lo)
        \<and> linked ?n1 i 0 (at_level ?n1 i ?lo @ at_level ?n1 i ?hi)"
      using prev2(2) ext h by simp
    show "\<forall>i\<in>set [0..<h]. i < length (n_links (?n1 ! ?N)) \<and> i < length (insert_prev s h prev)"
      using h prev2(1) by (simp add: nth_append node_bytes_def)
    show "distinct (0 # ?lo @ ?hi)" "set (?lo @ ?hi) \<subseteq> {..<length ?n1}" "?N \<notin> set (0 # ?lo @ ?hi)"
      unfolding sp(1) [symmetric] using d ne by auto
  qed simp_all
  then obtain nodes' where n': "rep ?s4 nodes'" "same_shape ?n1 nodes'"
    "\<And>i. i < h \<Longrightarrow> linked nodes' i 0 (at_level ?n1 i ?lo @ ?N # at_level ?n1 i ?hi)"
    "\<And>l x js. h \<le> l \<Longrightarrow> linked nodes' l x js = linked ?n1 l x js"
    "sl_head ?s4 = sl_head s3" "sl_height ?s4 = sl_height s3"
    by auto
  have "sl_inv ?s4 nodes' (?lo @ ?N # ?hi)"
    by (rule sl_inv_linked [OF inv sp h n'(1-4)]) (use n'(5,6) in \<open>simp_all add: s3 s2_def s1\<close>)
  moreover have "length (n_links (nodes' ! ?N)) = h" using n'(2) by (auto simp: same_shape_def nth_append node_bytes_def)
  moreover have "sl_insert k v s = Some ?s4" by (simp add: sl_insert_def fg(1) rh [simplified] pre al)
  moreover have "length (sl_arena ?s4) = length (sl_arena s3)"
    using rep_length [OF n'(1)] rep_length [OF r3] same_shape_noff [OF n'(2)] n'(2) by (simp add: same_shape_def)
  moreover have "length (sl_arena s3) \<le> length (sl_arena s) + 12 + 4 * maxHeight + length k + length v"
    using h by (simp add: s3 s2_def s1 nsize_def node_bytes_def)
  ultimately show ?thesis using n'(2) by (intro exI [of _ ?s4] exI [of _ nodes']) simp
qed

section \<open>The list as an ordered buffer\<close>

definition ins :: "bytes \<Rightarrow> bytes \<Rightarrow> (bytes \<times> bytes) list \<Rightarrow> (bytes \<times> bytes) list" where
  "ins k v es = takeWhile (\<lambda>e. ikeyCompare (fst e) k < 0) es @ (k, v) # dropWhile (\<lambda>e. ikeyCompare (fst e) k < 0) es"

text \<open>
  What the memtable relies on.  \<open>holds b es\<close>: the buffer holds the entries \<open>es\<close>, in
  order.  \<open>at b n es\<close>: from position \<open>n\<close> on, the entries are \<open>es\<close>.  \<open>room b n\<close>: an entry
  of \<open>n\<close> bytes can be added without overflowing the addresses.
\<close>

locale ordered_buffer =
  fixes holds :: "'b \<Rightarrow> (bytes \<times> bytes) list \<Rightarrow> bool" and at :: "'b \<Rightarrow> u32 \<Rightarrow> (bytes \<times> bytes) list \<Rightarrow> bool"
    and room :: "'b \<Rightarrow> nat \<Rightarrow> bool" and insert :: "bytes \<Rightarrow> bytes \<Rightarrow> 'b \<Rightarrow> 'b option"
    and seek :: "bytes \<Rightarrow> 'b \<Rightarrow> u32 option" and first :: "'b \<Rightarrow> u32" and "next" :: "'b \<Rightarrow> u32 \<Rightarrow> u32"
    and key :: "'b \<Rightarrow> u32 \<Rightarrow> bytes" and "value" :: "'b \<Rightarrow> u32 \<Rightarrow> bytes"
  assumes holds_sorted: "holds b es \<Longrightarrow> sorted_wrt (\<lambda>a c. ikeyCompare (fst a) (fst c) \<le> 0) es"
    and insert_ok: "holds b es \<Longrightarrow> room b (length k + length v) \<Longrightarrow> \<exists>b'. insert k v b = Some b' \<and> holds b' (ins k v es)"
    and seek_ok: "holds b es \<Longrightarrow> \<exists>n. seek k b = Some n \<and> at b n (dropWhile (\<lambda>e. ikeyCompare (fst e) k < 0) es)"
    and first_ok: "holds b es \<Longrightarrow> at b (first b) es"
    and at_Nil: "at b n [] \<Longrightarrow> n = nilNode"
    and at_Cons: "at b n (e # es) \<Longrightarrow> n \<noteq> nilNode \<and> key b n = fst e \<and> value b n = snd e \<and> at b (next b n) es"
begin

lemma at_nil_iff: "at b n es \<Longrightarrow> n = nilNode \<longleftrightarrow> es = []"
  using at_Nil at_Cons by (cases es) auto

text \<open>A search lands on the first entry that is not below the target.\<close>

lemma seek_entry:
  assumes "holds b es" "seek k b = Some n"
  shows "n = nilNode \<longleftrightarrow> (\<forall>e\<in>set es. ikeyCompare (fst e) k < 0)"
    and "n \<noteq> nilNode \<Longrightarrow> find (\<lambda>e. 0 \<le> ikeyCompare (fst e) k) es = Some (key b n, value b n)"
proof -
  have at: "at b n (dropWhile (\<lambda>e. ikeyCompare (fst e) k < 0) es)" using seek_ok [OF assms(1), of k] assms(2) by simp
  then show "n = nilNode \<longleftrightarrow> (\<forall>e\<in>set es. ikeyCompare (fst e) k < 0)"
    by (simp add: at_nil_iff dropWhile_eq_Nil_conv)
  assume "n \<noteq> nilNode"
  then obtain e r where e: "dropWhile (\<lambda>e. ikeyCompare (fst e) k < 0) es = e # r" using at at_nil_iff by (meson neq_Nil_conv)
  have "find (\<lambda>e. 0 \<le> ikeyCompare (fst e) k) es = Some e"
    using e by (simp add: find_dropWhile comp_def not_le)
  then show "find (\<lambda>e. 0 \<le> ikeyCompare (fst e) k) es = Some (key b n, value b n)"
    using at_Cons [of b n e r] at e by simp
qed

end

definition sl_holds :: "skiplist \<Rightarrow> (bytes \<times> bytes) list \<Rightarrow> bool" where
  "sl_holds s es \<longleftrightarrow> (\<exists>nodes os. sl_inv s nodes os \<and> es = map (\<lambda>j. node_entry (nodes ! j)) os)"

definition sl_at :: "skiplist \<Rightarrow> u32 \<Rightarrow> (bytes \<times> bytes) list \<Rightarrow> bool" where
  "sl_at s n es \<longleftrightarrow> (\<exists>nodes js. rep s nodes \<and> es = map (\<lambda>j. node_entry (nodes ! j)) js
     \<and> (case js of [] \<Rightarrow> n = nilNode | j # js \<Rightarrow> n = addr nodes j \<and> linked nodes 0 j js))"

definition sl_room :: "skiplist \<Rightarrow> nat \<Rightarrow> bool" where
  "sl_room s n \<longleftrightarrow> length (sl_arena s) + 12 + 4 * maxHeight + n < 2 ^ 32"

lemma at_level_0:
  assumes "sl_inv s nodes os" "set xs \<subseteq> set os" shows "at_level nodes 0 xs = xs"
proof -
  have "0 < length (n_links (nodes ! j))" if "j \<in> set os" for j
    using that assms(1) rep_heights [of s nodes j] by (auto simp: sl_inv_def)
  then show ?thesis unfolding at_level_def using assms(2) by (intro filter_True) auto
qed

lemma linked_0:
  assumes "sl_inv s nodes os" shows "linked nodes 0 0 os"
proof -
  have "linked nodes 0 0 (at_level nodes 0 os)" using assms by (simp add: sl_inv_def maxHeight_def)
  then show ?thesis by (simp add: at_level_0 [OF assms order_refl])
qed

lemma sl_at_linked:
  assumes "rep s nodes" "linked nodes 0 x (as @ bs)" "n = (case bs of [] \<Rightarrow> nilNode | j # _ \<Rightarrow> addr nodes j)"
  shows "sl_at s n (map (\<lambda>j. node_entry (nodes ! j)) bs)"
  unfolding sl_at_def using assms linked_suffix [OF assms(2)]
  by (intro exI [of _ nodes] exI [of _ bs]) (cases bs; simp)

lemma sl_at_Cons:
  assumes "sl_at s n (e # es)"
  shows "n \<noteq> nilNode \<and> sl_key s n = fst e \<and> sl_value s n = snd e \<and> sl_at s (sl_next s n 0) es"
proof -
  obtain nodes j js where r: "rep s nodes" and e: "e = node_entry (nodes ! j)" "es = map (\<lambda>j. node_entry (nodes ! j)) js"
    and n: "n = addr nodes j" and l: "linked nodes 0 j js"
  proof -
    obtain nodes js where *: "rep s nodes" "e # es = map (\<lambda>j. node_entry (nodes ! j)) js"
      "case js of [] \<Rightarrow> n = nilNode | j # js \<Rightarrow> n = addr nodes j \<and> linked nodes 0 j js"
      using assms unfolding sl_at_def by (elim exE conjE) (rule that)
    then show thesis using that by (cases js) auto
  qed
  have j: "j < length nodes" using linked_bound [OF l] by simp
  show ?thesis unfolding n e
    using sl_at_linked [OF r, of j "[]" js, OF _ sl_next_linked [OF r l]] l
    by (simp add: addr_not_nil [OF r j] sl_key_rep [OF r j] sl_value_rep [OF r j] node_entry_def)
qed

lemma map_below:
  "map (\<lambda>j. node_entry (nodes ! j)) (below nodes k os) = takeWhile (\<lambda>e. ikeyCompare (fst e) k < 0) (map (\<lambda>j. node_entry (nodes ! j)) os)"
  "map (\<lambda>j. node_entry (nodes ! j)) (above_eq nodes k os) = dropWhile (\<lambda>e. ikeyCompare (fst e) k < 0) (map (\<lambda>j. node_entry (nodes ! j)) os)"
  by (simp_all add: below_def above_eq_def takeWhile_map dropWhile_map node_entry_def comp_def)

lemma same_shape_entry:
  "same_shape nodes nodes' \<Longrightarrow> j < length nodes \<Longrightarrow> node_entry (nodes' ! j) = node_entry (nodes ! j)"
  by (simp add: same_shape_def node_entry_def)

lemma sl_insert_holds:
  assumes "sl_holds s es" "sl_room s (length k + length v)"
  shows "\<exists>s'. sl_insert k v s = Some s' \<and> sl_holds s' (ins k v es)
    \<and> length (sl_arena s') \<le> length (sl_arena s) + 12 + 4 * maxHeight + (length k + length v)"
proof -
  obtain nodes os where inv: "sl_inv s nodes os" and es: "es = map (\<lambda>j. node_entry (nodes ! j)) os"
    using assms(1) by (auto simp: sl_holds_def)
  obtain s' nodes' h where i: "sl_insert k v s = Some s'"
    "sl_inv s' nodes' (below nodes k os @ length nodes # above_eq nodes k os)"
    "same_shape (nodes @ [node_bytes k v h]) nodes'"
    "length (sl_arena s') \<le> length (sl_arena s) + 12 + 4 * maxHeight + length k + length v"
    using sl_insert_ok [OF inv, of k v] assms(2) by (auto simp: sl_room_def add.assoc)
  have sub: "set os \<subseteq> {..<length nodes}" using inv by (auto simp: sl_inv_def)
  have old: "map (\<lambda>j. node_entry (nodes' ! j)) xs = map (\<lambda>j. node_entry (nodes ! j)) xs" if "set xs \<subseteq> set os" for xs
    using that sub by (auto simp: same_shape_entry [OF i(3)] nth_append subset_iff)
  have new: "node_entry (nodes' ! length nodes) = (k, v)"
    using same_shape_entry [OF i(3), of "length nodes"] by (simp add: node_entry_def node_bytes_def)
  have "set (below nodes k os) \<subseteq> set os" "set (above_eq nodes k os) \<subseteq> set os"
    by (auto simp: below_def above_eq_def dest: set_takeWhileD set_dropWhileD)
  then have "ins k v es = map (\<lambda>j. node_entry (nodes' ! j)) (below nodes k os @ length nodes # above_eq nodes k os)"
    by (simp add: ins_def es map_below old new)
  then have "sl_holds s' (ins k v es)" unfolding sl_holds_def using i(2) by blast
  with i(1,4) show ?thesis by (simp add: add.assoc)
qed

interpretation sl: ordered_buffer sl_holds sl_at sl_room sl_insert sl_seek sl_first "\<lambda>s n. sl_next s n 0" sl_key sl_value
proof
  fix s es assume "sl_holds s es"
  then obtain nodes os where inv: "sl_inv s nodes os" and es: "es = map (\<lambda>j. node_entry (nodes ! j)) os"
    by (auto simp: sl_holds_def)
  have r: "rep s nodes" using inv by (simp add: sl_inv_def)
  show "sorted_wrt (\<lambda>a c. ikeyCompare (fst a) (fst c) \<le> 0) es"
    using inv by (simp add: es sl_inv_def sorted_wrt_map node_entry_def)
  show "sl_at s (sl_first s) es"
    using sl_at_linked [OF r, of 0 "[]" os, OF _ sl_next_linked [OF r linked_0 [OF inv]]] linked_0 [OF inv] inv
    by (simp add: es sl_first_def sl_inv_def)
  show "\<exists>n. sl_seek k s = Some n \<and> sl_at s n (dropWhile (\<lambda>e. ikeyCompare (fst e) k < 0) es)" for k
  proof -
    have "linked nodes 0 0 (below nodes k os @ above_eq nodes k os)"
      using linked_0 [OF inv] split_order(1) [OF inv, of k] by metis
    from sl_at_linked [OF r this refl] show ?thesis
      using findGE_ok [OF inv, of k "[]"] by (auto simp: sl_seek_def es map_below)
  qed
next
  fix s es and k v :: bytes assume "sl_holds s es" "sl_room s (length k + length v)"
  then show "\<exists>s'. sl_insert k v s = Some s' \<and> sl_holds s' (ins k v es)" using sl_insert_holds by blast
next
  fix s n assume "sl_at s n []"
  then show "n = nilNode" by (auto simp: sl_at_def)
next
  fix s n e es assume "sl_at s n (e # es)"
  then show "n \<noteq> nilNode \<and> sl_key s n = fst e \<and> sl_value s n = snd e \<and> sl_at s (sl_next s n 0) es" by (rule sl_at_Cons)
qed

lemma newSkiplist_holds: "sl_holds (newSkiplist rng) []" "length (sl_arena (newSkiplist rng)) = 13 + 4 * maxHeight"
proof -
  let ?s = "\<lparr>sl_arena = [0], sl_head = 0, sl_height = 0, sl_rng = rng, sl_drawn = 0\<rparr>"
  have r: "rep ?s []" by (simp add: rep_def)
  obtain n s where al: "allocNode [] [] maxHeight ?s = (n, s)" by fastforce
  let ?nd = "node_bytes [] [] maxHeight"
  have "rep s ([] @ [?nd]) \<and> n = addr ([] @ [?nd]) (length ([] :: node list)) \<and> s = ?s\<lparr>sl_arena := sl_arena ?s @ enc_node ?nd\<rparr>"
    by (rule allocNode_rep [OF r _ _ _ al]) (simp_all add: maxHeight_def)
  then have s: "rep s [?nd]" "n = addr [?nd] 0" "sl_arena s = 0 # enc_node ?nd" by auto
  have new: "newSkiplist rng = s\<lparr>sl_head := n, sl_height := 1\<rparr>" by (simp add: newSkiplist_def al)
  have "rep (newSkiplist rng) [?nd]" using s(1) by (rule rep_arena) (simp add: new)
  then have "sl_inv (newSkiplist rng) [?nd] []"
    by (simp add: sl_inv_def new s(2) at_level_def node_bytes_def maxHeight_def nilNode_def node_entry_def)
  then show "sl_holds (newSkiplist rng) []" by (auto simp: sl_holds_def)
  show "length (sl_arena (newSkiplist rng)) = 13 + 4 * maxHeight"
    by (simp add: new s(3) nsize_def node_bytes_def)
qed

lemma mset_ins [simp]: "mset (ins k v es) = add_mset (k, v) (mset es)"
proof -
  have "mset (takeWhile P es) + mset (dropWhile P es) = mset es" for P
    by (metis mset_append takeWhile_dropWhile_id)
  then show ?thesis by (simp add: ins_def)
qed

lemma set_ins [simp]: "set (ins k v es) = insert (k, v) (set es)"
  by (metis mset_ins set_mset_add_mset_insert set_mset_mset)

section \<open>Later states\<close>

text \<open>A later state of the list keeps every node: the same address, key and value.\<close>

definition sl_later :: "skiplist \<Rightarrow> skiplist \<Rightarrow> bool" where
  "sl_later s s' \<longleftrightarrow> (\<forall>nodes os. sl_inv s nodes os \<longrightarrow>
     (\<exists>nodes' os'. sl_inv s' nodes' os' \<and> length nodes \<le> length nodes' \<and> same_shape nodes (take (length nodes) nodes')))"

lemma sl_later_refl [simp]: "sl_later s s"
  unfolding sl_later_def by (metis order_refl same_shape_refl take_all)

lemma same_shape_take: "same_shape a b \<Longrightarrow> same_shape (take n a) (take n b)"
  by (auto simp: same_shape_def)

lemma sl_later_trans: "sl_later a b \<Longrightarrow> sl_later b c \<Longrightarrow> sl_later a c"
  unfolding sl_later_def
proof (intro allI impI)
  fix nodes os
  assume ab: "\<forall>nodes os. sl_inv a nodes os \<longrightarrow> (\<exists>nodes' os'. sl_inv b nodes' os' \<and> length nodes \<le> length nodes' \<and> same_shape nodes (take (length nodes) nodes'))"
    and bc: "\<forall>nodes os. sl_inv b nodes os \<longrightarrow> (\<exists>nodes' os'. sl_inv c nodes' os' \<and> length nodes \<le> length nodes' \<and> same_shape nodes (take (length nodes) nodes'))"
    and i: "sl_inv a nodes os"
  obtain n1 o1 where 1: "sl_inv b n1 o1" "length nodes \<le> length n1" "same_shape nodes (take (length nodes) n1)"
    using ab i by blast
  obtain n2 o2 where 2: "sl_inv c n2 o2" "length n1 \<le> length n2" "same_shape n1 (take (length n1) n2)"
    using bc 1(1) by blast
  have "same_shape nodes (take (length nodes) n2)"
    using same_shape_trans [OF 1(3) same_shape_take [OF 2(3)]] 1(2) by (simp add: min_def)
  then show "\<exists>nodes' os'. sl_inv c nodes' os' \<and> length nodes \<le> length nodes' \<and> same_shape nodes (take (length nodes) nodes')"
    using 1(2) 2(1,2) by (intro exI [of _ n2] exI [of _ o2]) simp
qed

lemma sl_insert_later:
  assumes "sl_room s (length k + length v)" "sl_insert k v s = Some s'"
  shows "sl_later s s'"
  unfolding sl_later_def
proof (intro allI impI)
  fix nodes os assume inv: "sl_inv s nodes os"
  obtain nodes' h where i: "sl_inv s' nodes' (below nodes k os @ length nodes # above_eq nodes k os)"
    "same_shape (nodes @ [node_bytes k v h]) nodes'"
    using sl_insert_ok [OF inv, of k v] assms by (auto simp: sl_room_def add.assoc)
  have "same_shape nodes (take (length nodes) nodes')" using same_shape_take [OF i(2), of "length nodes"] by simp
  with i show "\<exists>nodes' os'. sl_inv s' nodes' os' \<and> length nodes \<le> length nodes' \<and> same_shape nodes (take (length nodes) nodes')"
    by (intro exI [of _ nodes'] exI conjI) (auto simp: same_shape_def)
qed

text \<open>
  A pinned slice: at any later moment its array holds the first bytes of a later
  arena, with possibly different links.
\<close>

lemma pinned_rep:
  assumes inv: "sl_inv s nodes os" and later: "sl_later s s'"
  shows "\<exists>nodes'. rep (s\<lparr>sl_arena := take (length (sl_arena s)) (sl_arena s')\<rparr>) nodes' \<and> same_shape nodes nodes'"
proof -
  obtain n1 o1 where 1: "sl_inv s' n1 o1" "length nodes \<le> length n1" "same_shape nodes (take (length nodes) n1)"
    using inv later unfolding sl_later_def by blast
  let ?n = "take (length nodes) n1"
  have r: "rep s nodes" and r1: "rep s' n1" using inv 1(1) by (auto simp: sl_inv_def)
  have len: "length (sl_arena s) = length (0 # concat (map enc_node ?n))"
    using rep_length [OF r] fun_cong [OF same_shape_noff [OF 1(3)], of "length nodes"]
    by (simp only: noff_def length_enc_nodes list.size take_take min.idem)
  have "n1 = ?n @ drop (length nodes) n1" by simp
  then have "sl_arena s' = (0 # concat (map enc_node ?n)) @ concat (map enc_node (drop (length nodes) n1))"
    using r1 by (metis append_Cons concat_append map_append rep_def)
  then have "take (length (sl_arena s)) (sl_arena s') = 0 # concat (map enc_node ?n)" by (simp add: len)
  moreover have "length (sl_arena s) < 2 ^ 32" using r unfolding rep_def by blast
  ultimately have arena: "sl_arena (s\<lparr>sl_arena := take (length (sl_arena s)) (sl_arena s')\<rparr>) = 0 # concat (map enc_node ?n)"
    "length (0 # concat (map enc_node ?n)) < 2 ^ 32" using len by simp_all
  have "rep (s\<lparr>sl_arena := take (length (sl_arena s)) (sl_arena s')\<rparr>) ?n"
    unfolding rep_def arena(1) using arena(2) r1 by (auto simp: rep_def dest: in_set_takeD)
  with 1(3) show ?thesis by blast
qed

end
