(* ===== verification/Codec.thy ===== *)
theory Codec
  imports Lv_Prelude
begin

text \<open>
  Block codecs (\<^verbatim>\<open>codec.go\<close>).  The compression libraries are not part of the
  repository: \<open>codecLib\<close> holds the entry points the code calls, and \<open>lossless\<close>
  states what the store relies on, that decoding undoes encoding.  \<open>noneCodec\<close> is
  the repository's own codec.  The locale \<open>block_codec\<close> is the contract the table
  code uses; every codec meets it over a lossless library.
\<close>

record codecLib =
  s2_Encode :: "bytes \<Rightarrow> bytes"
  s2_Decode :: "bytes \<Rightarrow> bytes result"
  zstd_Encode :: "bytes \<Rightarrow> bytes"
  zstd_Decode :: "bytes \<Rightarrow> bytes result"
  flate_Deflate :: "bytes \<Rightarrow> bytes"
  flate_Reset :: "bytes \<Rightarrow> error option"
  flate_Inflate :: "bytes \<Rightarrow> bytes result"

definition lossless :: "codecLib \<Rightarrow> bool" where
  "lossless lib \<longleftrightarrow> (\<forall>x. s2_Decode lib (s2_Encode lib x) = Inr x)
     \<and> (\<forall>x. zstd_Decode lib (zstd_Encode lib x) = Inr x)
     \<and> (\<forall>x. flate_Reset lib (flate_Deflate lib x) = None \<and> flate_Inflate lib (flate_Deflate lib x) = Inr x)"

type_synonym codecID = byte

definition codecNone :: codecID where "codecNone = 0"
definition codecS2 :: codecID where "codecS2 = 1"
definition codecZstd :: codecID where "codecZstd = 2"
definition codecFlate :: codecID where "codecFlate = 3"

lemmas codecID_defs = codecNone_def codecS2_def codecZstd_def codecFlate_def

datatype blockCodec = noneCodec | s2Codec | zstdCodec | flateCodec

definition CodecNone :: string where "CodecNone = ''none''"
definition CodecS2 :: string where "CodecS2 = ''s2''"
definition CodecZstd :: string where "CodecZstd = ''zstd''"
definition CodecFlate :: string where "CodecFlate = ''flate''"

lemmas codecName_defs = CodecNone_def CodecS2_def CodecZstd_def CodecFlate_def

fun codec_id :: "blockCodec \<Rightarrow> codecID" where
  "codec_id noneCodec = codecNone"
| "codec_id s2Codec = codecS2"
| "codec_id zstdCodec = codecZstd"
| "codec_id flateCodec = codecFlate"

fun codec_Name :: "blockCodec \<Rightarrow> string" where
  "codec_Name noneCodec = CodecNone"
| "codec_Name s2Codec = CodecS2"
| "codec_Name zstdCodec = CodecZstd"
| "codec_Name flateCodec = CodecFlate"

definition codecFromName :: "string \<Rightarrow> blockCodec result" where
  "codecFromName name =
     (if name = CodecNone then Inr noneCodec
      else if name = CodecS2 then Inr s2Codec
      else if name = CodecZstd then Inr zstdCodec
      else if name = CodecFlate then Inr flateCodec
      else Inl (Errorf ''codec: unknown codec''))"

definition resolveLevelCodec :: "string list \<Rightarrow> int \<Rightarrow> string \<Rightarrow> string \<Rightarrow> bool \<Rightarrow> string" where
  "resolveLevelCodec levelCodecs depth fresh bottom bottomTier =
     (if 0 \<le> depth \<and> depth < int (length levelCodecs) \<and> levelCodecs ! nat depth \<noteq> ''''
      then levelCodecs ! nat depth
      else if bottomTier then bottom else fresh)"

definition codecFromID :: "codecID \<Rightarrow> blockCodec result" where
  "codecFromID i =
     (if i = codecNone then Inr noneCodec
      else if i = codecS2 then Inr s2Codec
      else if i = codecZstd then Inr zstdCodec
      else if i = codecFlate then Inr flateCodec
      else Inl (Errorf ''codec: unknown codec id''))"

definition s2_decompress :: "codecLib \<Rightarrow> bytes \<Rightarrow> bytes result" where
  "s2_decompress lib src =
     (case s2_Decode lib src of Inl err \<Rightarrow> Inl (Wrapped ''codec: s2 decode'' err) | Inr out \<Rightarrow> Inr out)"

definition zstd_decompress :: "codecLib \<Rightarrow> bytes \<Rightarrow> bytes \<Rightarrow> bytes result" where
  "zstd_decompress lib dst src =
     (case zstd_Decode lib src of Inl err \<Rightarrow> Inl (Wrapped ''codec: zstd decode'' err) | Inr out \<Rightarrow> Inr (dst @ out))"

definition flate_compress :: "codecLib \<Rightarrow> bytes \<Rightarrow> bytes \<Rightarrow> bytes" where
  "flate_compress lib dst src = dst @ flate_Deflate lib src"

definition flate_decompress :: "codecLib \<Rightarrow> bytes \<Rightarrow> bytes \<Rightarrow> bytes result" where
  "flate_decompress lib dst src =
     (case flate_Reset lib src of Some err \<Rightarrow> Inl (Wrapped ''codec: flate reset'' err)
      | None \<Rightarrow>
        case flate_Inflate lib src of Inl err \<Rightarrow> Inl (Wrapped ''codec: flate decode'' err)
        | Inr out \<Rightarrow> Inr (dst @ out))"

lemmas codec_defs = s2_decompress_def zstd_decompress_def flate_compress_def flate_decompress_def

fun compress :: "codecLib \<Rightarrow> blockCodec \<Rightarrow> bytes \<Rightarrow> bytes \<Rightarrow> bytes" where
  "compress lib noneCodec dst src = dst @ src"
| "compress lib s2Codec dst src = s2_Encode lib src"
| "compress lib zstdCodec dst src = dst @ zstd_Encode lib src"
| "compress lib flateCodec dst src = flate_compress lib dst src"

fun decompress :: "codecLib \<Rightarrow> blockCodec \<Rightarrow> bytes \<Rightarrow> bytes \<Rightarrow> bytes result" where
  "decompress lib noneCodec dst src = Inr (dst @ src)"
| "decompress lib s2Codec dst src = s2_decompress lib src"
| "decompress lib zstdCodec dst src = zstd_decompress lib dst src"
| "decompress lib flateCodec dst src = flate_decompress lib dst src"

text \<open>The contract of a codec, as the block layer uses it.\<close>

locale block_codec =
  fixes enc :: "bytes \<Rightarrow> bytes" and dec :: "bytes \<Rightarrow> bytes result"
  assumes dec_enc: "dec (enc x) = Inr x"
begin

lemma enc_inject: "enc x = enc y \<longleftrightarrow> x = y"
  by (metis dec_enc sum.inject(2))

lemma enc_dec: "dec y = Inr x \<Longrightarrow> y \<in> range enc \<Longrightarrow> y = enc x"
  using dec_enc by auto

end

lemma decompress_compress:
  "lossless lib \<Longrightarrow> decompress lib c [] (compress lib c [] x) = Inr x"
  by (cases c) (simp_all add: lossless_def codec_defs)

interpretation none_codec: block_codec "compress lib noneCodec []" "decompress lib noneCodec []"
  by unfold_locales simp

lemma block_codec_lossless:
  "lossless lib \<Longrightarrow> block_codec (compress lib c []) (decompress lib c [])"
  by unfold_locales (rule decompress_compress)

lemma codecFromID_id [simp]: "codecFromID (codec_id c) = Inr c"
  by (cases c) (simp_all add: codecFromID_def codecID_defs)

lemma codecFromName_Name [simp]: "codecFromName (codec_Name c) = Inr c"
  by (cases c) (simp_all add: codecFromName_def codecName_defs)

lemma codec_id_none: "codec_id c = codecNone \<longleftrightarrow> c = noneCodec"
  by (cases c) (simp_all add: codecID_defs)

lemma codecFromName_eq: "codecFromName n = Inr c \<longleftrightarrow> n = codec_Name c"
  by (cases c) (auto simp: codecFromName_def codecName_defs split: if_splits)

end
