(* ===== verification/Table_Block.thy ===== *)
theory Table_Block
  imports Ikey Wal_Record Codec
begin

text \<open>
  Blocks (\<^verbatim>\<open>table_block.go\<close>): block handles, the checksummed and compressed block
  on disk, the flat index block, and the prefix-compressed data block with its
  restart points.  The iterators are state machines over a payload, as in the
  code, with every malformed-input branch; the two alternating key buffers of
  \<^verbatim>\<open>dataBlockIter\<close>, which only keep a returned slice valid across one call, are not
  part of the value-level model.

  The lemmas show that a finished block decodes to its payload, that iterating a
  built block returns exactly the entries added, and that \<open>seek\<close> positions the
  iterator so that no entry at or after the target is skipped.
\<close>

section \<open>Blocks on disk\<close>

definition blockTrailerLen :: nat where "blockTrailerLen = 5"

record blockHandle =
  bh_offset :: u64
  bh_length :: u64

definition zeroHandle :: blockHandle where "zeroHandle = \<lparr>bh_offset = 0, bh_length = 0\<rparr>"

definition encodeHandle :: "blockHandle \<Rightarrow> bytes \<Rightarrow> bytes" where
  "encodeHandle h dst = dst @ put_uvarint (bh_offset h) @ put_uvarint (bh_length h)"

definition decodeHandle :: "bytes \<Rightarrow> blockHandle \<times> nat" where
  "decodeHandle src =
     (let (off, n1) = Uvarint src
      in if n1 \<le> 0 then (zeroHandle, 0)
      else let (len, n2) = Uvarint (drop (nat n1) src)
      in if n2 \<le> 0 then (zeroHandle, 0)
      else (\<lparr>bh_offset = off, bh_length = len\<rparr>, nat n1 + nat n2))"

definition crc32_Checksum :: "bytes \<Rightarrow> u32" where
  "crc32_Checksum p = crc32_Update 0 p"

definition finishBlock :: "codecLib \<Rightarrow> bytes \<Rightarrow> blockCodec \<Rightarrow> bytes" where
  "finishBlock lib payload c =
     (let use = c; out = compress lib use [] payload;
          (use, out) = (if codec_id use \<noteq> codecNone \<and> length payload \<le> length out
                        then (noneCodec, payload) else (use, out));
          out = out @ [codec_id use];
          crc = crc32_Checksum out
      in out @ PutUint32 crc)"

definition decodeBlockInto :: "codecLib \<Rightarrow> bytes \<Rightarrow> (bytes \<times> bool) result" where
  "decodeBlockInto lib raw =
     (if length raw < blockTrailerLen then Inl (Errorf ''table: block too short'')
      else let body = take (length raw - 4) raw; want = Uint32 (drop (length raw - 4) raw)
      in if crc32_Checksum body \<noteq> want then Inl (Errorf ''table: block crc mismatch'')
      else let i = last body; comp = butlast body
      in if i = codecNone then Inr (comp, False)
      else try_then (codecFromID i) (\<lambda>c. try_then (decompress lib c [] comp) (\<lambda>out. Inr (out, True))))"

definition decodeBlock :: "codecLib \<Rightarrow> bytes \<Rightarrow> bytes result" where
  "decodeBlock lib raw = try_then (decodeBlockInto lib raw) (\<lambda>(payload, _). Inr payload)"

section \<open>Index blocks\<close>

record blockBuilder =
  bb_buf :: bytes
  bb_entries :: nat
  bb_lastKey :: bytes

definition newBlockBuilder :: blockBuilder where
  "newBlockBuilder = \<lparr>bb_buf = [], bb_entries = 0, bb_lastKey = []\<rparr>"

definition bb_add :: "bytes \<Rightarrow> bytes \<Rightarrow> blockBuilder \<Rightarrow> blockBuilder" where
  "bb_add key val b =
     b\<lparr>bb_buf := bb_buf b @ put_uvarint (ulen key) @ key @ put_uvarint (ulen val) @ val,
       bb_lastKey := key, bb_entries := bb_entries b + 1\<rparr>"

definition bb_size :: "blockBuilder \<Rightarrow> nat" where "bb_size b = length (bb_buf b)"
definition bb_empty :: "blockBuilder \<Rightarrow> bool" where "bb_empty b \<longleftrightarrow> bb_entries b = 0"
definition bb_reset :: "blockBuilder \<Rightarrow> blockBuilder" where
  "bb_reset b = b\<lparr>bb_buf := [], bb_entries := 0, bb_lastKey := []\<rparr>"

record blockIter =
  bi_payload :: bytes
  bi_pos :: nat
  bi_key :: bytes
  bi_value :: bytes
  bi_err :: "error option"

definition newBlockIter :: "bytes \<Rightarrow> blockIter" where
  "newBlockIter payload = \<lparr>bi_payload = payload, bi_pos = 0, bi_key = [], bi_value = [], bi_err = None\<rparr>"

definition bi_next :: "blockIter \<Rightarrow> bool \<times> blockIter" where
  "bi_next it =
     (if bi_err it \<noteq> None \<or> length (bi_payload it) \<le> bi_pos it then (False, it)
      else let (keyLen, n) = Uvarint (drop (bi_pos it) (bi_payload it))
      in if n \<le> 0 then (False, it\<lparr>bi_err := Some (Errorf ''table: malformed key length'')\<rparr>)
      else let it = it\<lparr>bi_pos := bi_pos it + nat n\<rparr>
      in if word_of_nat (length (bi_payload it) - bi_pos it) < keyLen
         then (False, it\<lparr>bi_err := Some (Errorf ''table: key exceeds block'')\<rparr>)
      else let it = it\<lparr>bi_key := take (unat keyLen) (drop (bi_pos it) (bi_payload it)),
                       bi_pos := bi_pos it + unat keyLen\<rparr>;
               (valLen, n) = Uvarint (drop (bi_pos it) (bi_payload it))
      in if n \<le> 0 then (False, it\<lparr>bi_err := Some (Errorf ''table: malformed value length'')\<rparr>)
      else let it = it\<lparr>bi_pos := bi_pos it + nat n\<rparr>
      in if word_of_nat (length (bi_payload it) - bi_pos it) < valLen
         then (False, it\<lparr>bi_err := Some (Errorf ''table: value exceeds block'')\<rparr>)
      else (True, it\<lparr>bi_value := take (unat valLen) (drop (bi_pos it) (bi_payload it)),
                      bi_pos := bi_pos it + unat valLen\<rparr>))"

section \<open>Data blocks\<close>

definition defaultRestartInterval :: nat where "defaultRestartInterval = 16"

record dataBlockBuilder =
  db_buf :: bytes
  db_restarts :: "u32 list"
  db_entries :: nat
  db_counter :: nat
  restartInterval :: int
  db_lastKey :: bytes

definition newDataBlockBuilder :: "int \<Rightarrow> dataBlockBuilder" where
  "newDataBlockBuilder interval =
     \<lparr>db_buf = [], db_restarts = [], db_entries = 0, db_counter = 0, restartInterval = interval, db_lastKey = []\<rparr>"

definition restartEvery :: "dataBlockBuilder \<Rightarrow> nat" where
  "restartEvery b = (if 0 < restartInterval b then nat (restartInterval b) else defaultRestartInterval)"

text \<open>The loop of lines 234--237: the length of the longest common prefix.\<close>

fun sharedPrefix :: "bytes \<Rightarrow> bytes \<Rightarrow> nat" where
  "sharedPrefix (a # as) (b # bs) = (if a = b then Suc (sharedPrefix as bs) else 0)"
| "sharedPrefix _ _ = 0"

definition db_add :: "bytes \<Rightarrow> bytes \<Rightarrow> dataBlockBuilder \<Rightarrow> dataBlockBuilder" where
  "db_add key val b =
     (let (shared, b) =
        (if db_counter b < restartEvery b then (sharedPrefix (db_lastKey b) key, b)
         else (0, b\<lparr>db_restarts := db_restarts b @ [word_of_nat (length (db_buf b))], db_counter := 0\<rparr>));
        nonShared = drop shared key
      in b\<lparr>db_buf := db_buf b @ put_uvarint (word_of_nat shared) @ put_uvarint (ulen nonShared)
                    @ put_uvarint (ulen val) @ nonShared @ val,
           db_lastKey := key, db_entries := db_entries b + 1, db_counter := db_counter b + 1\<rparr>)"

definition db_empty :: "dataBlockBuilder \<Rightarrow> bool" where "db_empty b \<longleftrightarrow> db_entries b = 0"

definition db_size :: "dataBlockBuilder \<Rightarrow> nat" where
  "db_size b = length (db_buf b) + (length (db_restarts b) + 1) * 4 + 4"

definition db_reset :: "dataBlockBuilder \<Rightarrow> dataBlockBuilder" where
  "db_reset b = b\<lparr>db_buf := [], db_restarts := [], db_entries := 0, db_counter := 0, db_lastKey := []\<rparr>"

text \<open>\<open>db_finish\<close> appends the trailer to the builder's own buffer and returns it.\<close>

definition db_finish :: "dataBlockBuilder \<Rightarrow> bytes \<times> dataBlockBuilder" where
  "db_finish b =
     (let restarts = (if 0 < db_entries b then [0] else []) @ db_restarts b;
          buf = db_buf b @ concat (map PutUint32 restarts) @ PutUint32 (word_of_nat (length restarts))
      in (buf, b\<lparr>db_buf := buf\<rparr>))"

record dataBlockIter =
  it_entries :: bytes
  it_restarts :: bytes
  it_nRestart :: nat
  it_pos :: nat
  it_key :: bytes
  it_value :: bytes
  it_err :: "error option"

definition splitDataBlock :: "bytes \<Rightarrow> (bytes \<times> bytes \<times> nat) result" where
  "splitDataBlock payload =
     (if length payload < 4 then Inl (Errorf ''table: data block too short'')
      else let n = unat (Uint32 (drop (length payload - 4) payload)); trailer = (n + 1) * 4
      in if length payload < trailer then Inl (Errorf ''table: bad data block restart count'')
      else let entryEnd = length payload - trailer
      in Inr (take entryEnd payload, drop entryEnd (take (length payload - 4) payload), n))"

definition newDataBlockIter :: "bytes \<Rightarrow> dataBlockIter" where
  "newDataBlockIter payload =
     (case splitDataBlock payload of
        Inl err \<Rightarrow> \<lparr>it_entries = [], it_restarts = [], it_nRestart = 0, it_pos = 0, it_key = [], it_value = [],
                     it_err = Some err\<rparr>
      | Inr (entries, restarts, n) \<Rightarrow>
          \<lparr>it_entries = entries, it_restarts = restarts, it_nRestart = n, it_pos = 0, it_key = [], it_value = [],
           it_err = None\<rparr>)"

definition resetEntries :: "bytes \<Rightarrow> dataBlockIter \<Rightarrow> dataBlockIter" where
  "resetEntries entries it =
     it\<lparr>it_entries := entries, it_restarts := [], it_nRestart := 0, it_pos := 0, it_key := [], it_value := [],
        it_err := None\<rparr>"

text \<open>\<open>None\<close> is the code's \<^verbatim>\<open>-1\<close>.\<close>

definition restartOffset :: "dataBlockIter \<Rightarrow> nat \<Rightarrow> nat option" where
  "restartOffset it i =
     (if length (it_restarts it) < (i + 1) * 4 then None
      else let off = unat (Uint32 (drop (i * 4) (it_restarts it)))
      in if length (it_entries it) \<le> off then None else Some off)"

definition keyAt :: "dataBlockIter \<Rightarrow> nat option \<Rightarrow> bytes option" where
  "keyAt it off =
     (case off of None \<Rightarrow> None
      | Some off \<Rightarrow>
        if length (it_entries it) \<le> off then None
        else let (shared, n) = Uvarint (drop off (it_entries it))
        in if n \<le> 0 then None
        else let off = off + nat n; (nonShared, n) = Uvarint (drop off (it_entries it))
        in if n \<le> 0 then None
        else let off = off + nat n; (_, n) = Uvarint (drop off (it_entries it))
        in if n \<le> 0 then None
        else let off = off + nat n
        in if shared \<noteq> 0 \<or> nonShared < word_of_nat trailerLen \<or> word_of_nat (length (it_entries it) - off) < nonShared
           then None
           else Some (take (unat nonShared) (drop off (it_entries it))))"

text \<open>
  The binary search of \<open>seek\<close>: \<open>None\<close> when a restart entry is corrupt, otherwise the
  first restart whose key is not below the target.
\<close>

function seek_search :: "dataBlockIter \<Rightarrow> bytes \<Rightarrow> nat \<Rightarrow> nat \<Rightarrow> nat option" where
  "seek_search it target lo hi =
     (if lo < hi then
        let mid = (lo + hi) div 2
        in case keyAt it (restartOffset it mid) of None \<Rightarrow> None
           | Some k \<Rightarrow>
             if ikeyCompare k target < 0 then seek_search it target (mid + 1) hi
             else seek_search it target lo mid
      else Some lo)"
  by pat_completeness auto
termination by (relation "measure (\<lambda>(it, t, lo, hi). hi - lo)") auto

declare seek_search.simps [simp del]

definition it_seek :: "bytes \<Rightarrow> dataBlockIter \<Rightarrow> dataBlockIter" where
  "it_seek target it =
     (case seek_search it target 0 (it_nRestart it) of
        None \<Rightarrow> it\<lparr>it_pos := 0, it_key := []\<rparr>
      | Some lo \<Rightarrow>
        if it_nRestart it = 0 then it\<lparr>it_key := [], it_pos := 0\<rparr>
        else let off = restartOffset it (lo - 1)
             in it\<lparr>it_key := [], it_pos := (case off of None \<Rightarrow> 0 | Some off \<Rightarrow> off)\<rparr>)"

definition it_next :: "dataBlockIter \<Rightarrow> bool \<times> dataBlockIter" where
  "it_next it =
     (if it_err it \<noteq> None \<or> length (it_entries it) \<le> it_pos it then (False, it)
      else let (shared, n) = Uvarint (drop (it_pos it) (it_entries it))
      in if n \<le> 0 then (False, it\<lparr>it_err := Some (Errorf ''table: malformed shared length'')\<rparr>)
      else let it = it\<lparr>it_pos := it_pos it + nat n\<rparr>; (nonShared, n) = Uvarint (drop (it_pos it) (it_entries it))
      in if n \<le> 0 then (False, it\<lparr>it_err := Some (Errorf ''table: malformed non-shared length'')\<rparr>)
      else let it = it\<lparr>it_pos := it_pos it + nat n\<rparr>; (valLen, n) = Uvarint (drop (it_pos it) (it_entries it))
      in if n \<le> 0 then (False, it\<lparr>it_err := Some (Errorf ''table: malformed value length'')\<rparr>)
      else let it = it\<lparr>it_pos := it_pos it + nat n\<rparr>; prev = it_key it
      in if ulen prev < shared then (False, it\<lparr>it_err := Some (Errorf ''table: shared prefix exceeds previous key'')\<rparr>)
      else if word_of_nat (length (it_entries it) - it_pos it) < nonShared
           then (False, it\<lparr>it_err := Some (Errorf ''table: key exceeds block'')\<rparr>)
      else let delta = take (unat nonShared) (drop (it_pos it) (it_entries it));
               it = it\<lparr>it_pos := it_pos it + unat nonShared, it_key := take (unat shared) prev @ delta\<rparr>
      in if word_of_nat (length (it_entries it) - it_pos it) < valLen
         then (False, it\<lparr>it_err := Some (Errorf ''table: value exceeds block'')\<rparr>)
      else (True, it\<lparr>it_value := take (unat valLen) (drop (it_pos it) (it_entries it)),
                      it_pos := it_pos it + unat valLen\<rparr>))"

section \<open>Blocks decode to their payload\<close>

lemma length_finishBlock: "length (finishBlock lib payload c) \<le> length payload + blockTrailerLen"
  by (cases c) (auto simp: finishBlock_def blockTrailerLen_def Let_def codecID_defs)

lemma decodeBlock_trailer:
  "decodeBlockInto lib (cmpd @ [codec_id c] @ PutUint32 (crc32_Checksum (cmpd @ [codec_id c])))
   = (if c = noneCodec then Inr (cmpd, False)
      else try_then (decompress lib c [] cmpd) (\<lambda>out. Inr (out, True)))"
proof -
  define crc where "crc = crc32_Checksum (cmpd @ [codec_id c])"
  define raw where "raw = cmpd @ [codec_id c] @ PutUint32 crc"
  have len: "length raw - 4 = Suc (length cmpd)" by (simp add: raw_def)
  have 1: "take (length raw - 4) raw = cmpd @ [codec_id c]" by (simp add: raw_def)
  have 2: "drop (length raw - 4) raw = PutUint32 crc" by (simp add: raw_def)
  have 3: "\<not> length raw < blockTrailerLen" by (simp add: raw_def blockTrailerLen_def)
  have "decodeBlockInto lib raw = (if c = noneCodec then Inr (cmpd, False)
      else try_then (decompress lib c [] cmpd) (\<lambda>out. Inr (out, True)))"
    unfolding decodeBlockInto_def 1 2 Let_def using 3 by (simp add: crc_def codec_id_none)
  then show ?thesis by (simp add: raw_def crc_def)
qed

lemma decodeBlock_finishBlock:
  assumes "lossless lib"
  shows "decodeBlock lib (finishBlock lib payload c) = Inr payload"
proof -
  define out where "out = compress lib c [] payload"
  show ?thesis
  proof (cases "codec_id c \<noteq> codecNone \<and> length payload \<le> length out")
    case True
    then have "finishBlock lib payload c
      = payload @ [codec_id noneCodec] @ PutUint32 (crc32_Checksum (payload @ [codec_id noneCodec]))"
      by (simp add: finishBlock_def out_def Let_def)
    then show ?thesis unfolding decodeBlock_def by (simp only: decodeBlock_trailer) simp
  next
    case False
    then have "finishBlock lib payload c
      = out @ [codec_id c] @ PutUint32 (crc32_Checksum (out @ [codec_id c]))"
      by (auto simp: finishBlock_def out_def Let_def)
    then show ?thesis
      using decompress_compress [OF assms, of c payload] unfolding decodeBlock_def
      by (simp only: decodeBlock_trailer) (auto simp: out_def codec_id_none)
  qed
qed

section \<open>Handles\<close>

lemma decodeHandle_encode [codec_simps]:
  "decodeHandle (encodeHandle h [] @ r) = (h, length (encodeHandle h []))"
  by (simp add: decodeHandle_def encodeHandle_def split_beta)

section \<open>Iterating\<close>

lemma it_next_progress:
  assumes "it_next it = (True, it')"
  shows "it_pos it < it_pos it' \<and> it_pos it' \<le> length (it_entries it)
    \<and> it_entries it' = it_entries it \<and> it_restarts it' = it_restarts it \<and> it_nRestart it' = it_nRestart it
    \<and> it_err it = None \<and> it_err it' = None"
proof -
  let ?L = "length (it_entries it)"
  obtain sh n1 where u1: "Uvarint (drop (it_pos it) (it_entries it)) = (sh, n1)" by fastforce
  obtain ns n2 where u2: "Uvarint (drop (it_pos it + nat n1) (it_entries it)) = (ns, n2)" by fastforce
  obtain vl n3 where u3: "Uvarint (drop (it_pos it + nat n1 + nat n2) (it_entries it)) = (vl, n3)" by fastforce
  let ?p = "it_pos it + nat n1 + nat n2 + nat n3"
  have n: "0 < n1" "0 < n2" "0 < n3" and e: "it_err it = None" "it_pos it < ?L"
    and ns: "\<not> word_of_nat (?L - ?p) < ns" and vl: "\<not> word_of_nat (?L - (?p + unat ns)) < vl"
    and it': "it' = it\<lparr>it_pos := ?p + unat ns + unat vl,
       it_key := take (unat sh) (it_key it) @ take (unat ns) (drop ?p (it_entries it)),
       it_value := take (unat vl) (drop (?p + unat ns) (it_entries it))\<rparr>"
    using assms by (auto simp: it_next_def u1 u2 u3 Let_def split: if_splits)
  have p: "?p \<le> ?L"
    using Uvarint_bound [OF u3 n(3)] by (simp only: length_drop) arith
  have le: "unat w \<le> k" if "\<not> word_of_nat k < w" for w :: u64 and k
    using that unat_of_nat [where 'a = 64, of k] mod_less_eq_dividend [of k "2 ^ 64"]
    by (simp add: not_less word_le_nat_alt)
  have "unat ns \<le> ?L - ?p" "unat vl \<le> ?L - (?p + unat ns)" using le ns vl by blast+
  then have "?p + unat ns + unat vl \<le> ?L" using p by arith
  moreover have "it_pos it < ?p + unat ns + unat vl" using n(1) by arith
  ultimately show ?thesis using e it' by simp
qed

lemma it_next_less:
  "(True, it') = it_next it \<Longrightarrow> length (it_entries it') - it_pos it' < length (it_entries it) - it_pos it"
  using it_next_progress [of it it'] by auto

text \<open>Every pair \<open>it_next\<close> returns, from the current position to the first failure.\<close>

function it_run :: "dataBlockIter \<Rightarrow> (bytes \<times> bytes) list \<times> dataBlockIter" where
  "it_run it =
     (let (ok, it') = it_next it
      in if ok then let (kvs, it'') = it_run it' in ((it_key it', it_value it') # kvs, it'')
         else ([], it'))"
  by pat_completeness auto
termination
proof (relation "measure (\<lambda>it. length (it_entries it) - it_pos it)")
  fix it x ok it'
  assume "x = it_next it" "(ok, it') = x" "ok"
  then have "it_next it = (True, it')" by simp
  from it_next_progress [OF this]
  show "(it', it) \<in> measure (\<lambda>it. length (it_entries it) - it_pos it)" by auto
qed simp

declare it_run.simps [simp del]

section \<open>The encoding of a run of entries\<close>

definition entry_bytes :: "nat \<Rightarrow> bytes \<Rightarrow> bytes \<Rightarrow> bytes" where
  "entry_bytes s key val =
     put_uvarint (word_of_nat s) @ put_uvarint (ulen (drop s key)) @ put_uvarint (ulen val) @ drop s key @ val"

text \<open>\<open>encoded prev bs kvs\<close>: the bytes \<open>bs\<close> hold the entries \<open>kvs\<close>, read after a key \<open>prev\<close>.\<close>

inductive encoded :: "bytes \<Rightarrow> bytes \<Rightarrow> (bytes \<times> bytes) list \<Rightarrow> bool" where
  encoded_Nil: "encoded prev [] []"
| encoded_Cons: "s \<le> length prev \<Longrightarrow> s \<le> length key \<Longrightarrow> take s prev = take s key \<Longrightarrow> encoded key bs kvs
     \<Longrightarrow> encoded prev (entry_bytes s key val @ bs) ((key, val) # kvs)"

inductive_cases encoded_ConsE: "encoded prev bs (kv # kvs)"
inductive_simps encoded_Nil_iff [simp]: "encoded prev bs []"

definition last_key :: "bytes \<Rightarrow> (bytes \<times> bytes) list \<Rightarrow> bytes" where
  "last_key prev kvs = (if kvs = [] then prev else fst (last kvs))"

lemma last_key_simps [simp]:
  "last_key prev [] = prev" "last_key prev (kv # kvs) = last_key (fst kv) kvs"
  "last_key prev (kvs @ [kv]) = fst kv"
  by (simp_all add: last_key_def)

lemma encoded_append:
  "encoded prev bs kvs \<Longrightarrow> encoded (last_key prev kvs) bs' kvs' \<Longrightarrow> encoded prev (bs @ bs') (kvs @ kvs')"
  by (induction rule: encoded.induct) (auto intro: encoded.intros)

lemma encoded_single:
  "s \<le> length prev \<Longrightarrow> s \<le> length key \<Longrightarrow> take s prev = take s key
   \<Longrightarrow> encoded prev (entry_bytes s key val) [(key, val)]"
  using encoded_Cons [of s prev key "[]" "[]" val] by (simp add: encoded_Nil)

lemma length_entry_bytes: "3 \<le> length (entry_bytes s key val)"
proof -
  have "Suc 0 \<le> length (put_uvarint x)" for x
    using length_put_uvarint_pos [of x] by (simp only: Suc_le_eq)
  from this [of "word_of_nat s"] this [of "ulen (drop s key)"] this [of "ulen val"]
  show ?thesis by (simp add: entry_bytes_def)
qed

lemma encoded_length: "encoded prev bs kvs \<Longrightarrow> 3 * length kvs \<le> length bs"
proof (induction rule: encoded.induct)
  case (encoded_Cons s prev key bs kvs val)
  then show ?case using length_entry_bytes [of s key val] by simp
qed simp

lemma sharedPrefix:
  "sharedPrefix a b \<le> length a" "sharedPrefix a b \<le> length b"
  "take (sharedPrefix a b) a = take (sharedPrefix a b) b"
  by (induction a b rule: sharedPrefix.induct) auto

definition kv_fits :: "bytes \<times> bytes \<Rightarrow> bool" where
  "kv_fits kv \<longleftrightarrow> fits (fst kv) \<and> fits (snd kv)"

lemma unat_fits: "n < 2 ^ 63 \<Longrightarrow> unat (word_of_nat n :: u64) = n"
  by (simp add: unat_of_nat)

lemma ulen_not_less:
  assumes "n < 2 ^ 63" "n \<le> m" "m < 2 ^ 63"
  shows "\<not> (word_of_nat m :: u64) < word_of_nat n"
  using assms by (simp add: word_less_nat_alt unat_fits)

text \<open>One call of \<open>it_next\<close> in front of an encoded entry reads it.\<close>

lemma it_next_entry:
  assumes "it_err it = None" and e: "it_entries it = pre @ entry_bytes s key val @ bs"
    and pos: "it_pos it = length pre"
    and s: "s \<le> length (it_key it)" "s \<le> length key" "take s (it_key it) = take s key"
    and fit: "fits (it_entries it)" "fits (it_key it)" "fits key" "fits val"
  shows "it_next it = (True, it\<lparr>it_key := key, it_value := val, it_pos := length pre + length (entry_bytes s key val)\<rparr>)"
proof -
  define a where "a = put_uvarint (word_of_nat s)"
  define b where "b = put_uvarint (ulen (drop s key))"
  define c where "c = put_uvarint (ulen val)"
  have E: "it_entries it = pre @ a @ b @ c @ drop s key @ val @ bs"
    by (simp add: e entry_bytes_def a_def b_def c_def)
  have s63: "s < 2 ^ 63" "length key - s < 2 ^ 63" "length val < 2 ^ 63" "length (it_key it) < 2 ^ 63"
    using s fit by (simp_all add: fits_def)
  have L: "length pre + length a + length b + length c + (length key - s) + length val + length bs < 2 ^ 63"
    using fit(1) unfolding E fits_def by simp
  have d1: "Uvarint (drop (length pre) (it_entries it)) = (word_of_nat s, int (length a))"
    by (simp add: E a_def)
  have d2: "Uvarint (drop (length pre + length a) (it_entries it)) = (ulen (drop s key), int (length b))"
    by (simp add: E b_def)
  have d3: "Uvarint (drop (length pre + length a + length b) (it_entries it)) = (ulen val, int (length c))"
    by (simp add: E c_def)
  have pos': "0 < length a" "0 < length b" "0 < length c" by (simp_all add: a_def b_def c_def)
  have un: "unat (word_of_nat s :: u64) = s" "unat (word_of_nat (length key - s) :: u64) = length key - s"
    "unat (ulen val) = length val"
    using s63 by (simp_all add: unat_fits)
  have k: "take s (it_key it) @ drop s key = key" using s(3) by simp
  have n1: "\<not> ulen (it_key it) < word_of_nat s"
    using s63 s(1) by (intro ulen_not_less)
  have n2: "\<not> (word_of_nat (length (it_entries it) - (length pre + length a + length b + length c)) :: u64)
      < ulen (drop s key)"
    using L s63 by (intro ulen_not_less) (simp_all add: E)
  have n3: "\<not> (word_of_nat (length (it_entries it) - (length pre + length a + length b + length c + (length key - s))) :: u64)
      < ulen val"
    using L s63 by (intro ulen_not_less) (simp_all add: E)
  have lt: "\<not> length (it_entries it) \<le> length pre" using pos' by (simp add: E)
  have t1: "take (length key - s) (drop (length pre + length a + length b + length c) (it_entries it)) = drop s key"
    by (simp add: E)
  have t2: "take (length val) (drop (length pre + length a + length b + length c + (length key - s)) (it_entries it)) = val"
    by (simp add: E)
  show ?thesis
    using pos' lt n1 n2 n3
    by (simp add: it_next_def assms(1) pos d1 d2 d3 Let_def un t1 t2 k)
      (simp add: entry_bytes_def a_def b_def c_def add.assoc)
qed

lemma it_run_encoded:
  assumes "encoded (it_key it) bs kvs" "it_err it = None" "it_entries it = pre @ bs" "it_pos it = length pre"
    and "fits (it_entries it)" "fits (it_key it)" "list_all kv_fits kvs"
  shows "fst (it_run it) = kvs \<and> it_err (snd (it_run it)) = None"
  using assms
proof (induction "it_key it" bs kvs arbitrary: it pre rule: encoded.induct)
  case encoded_Nil
  then have "it_next it = (False, it)" by (simp add: it_next_def)
  with encoded_Nil show ?case by (subst (1 2) it_run.simps) simp
next
  case (encoded_Cons s key bs kvs val)
  have fk: "fits key" "fits val" using encoded_Cons.prems by (simp_all add: kv_fits_def)
  define it' where "it' = it\<lparr>it_key := key, it_value := val, it_pos := length pre + length (entry_bytes s key val)\<rparr>"
  have nx: "it_next it = (True, it')" unfolding it'_def
    using encoded_Cons.prems encoded_Cons.hyps fk by (intro it_next_entry) simp_all
  have "fst (it_run it') = kvs \<and> it_err (snd (it_run it')) = None"
    using encoded_Cons.prems fk by (intro encoded_Cons.hyps(5) [of it' "pre @ entry_bytes s key val"]) (simp_all add: it'_def)
  then show ?case
    by (subst (1 2) it_run.simps) (simp add: nx split_beta, simp add: it'_def)
qed

section \<open>The builder\<close>

text \<open>Offset \<open>off\<close> of \<open>buf\<close> starts entry \<open>i\<close> of \<open>kvs\<close>, stored with its full key.\<close>

definition restart_at :: "bytes \<Rightarrow> (bytes \<times> bytes) list \<Rightarrow> nat \<Rightarrow> nat \<Rightarrow> bool" where
  "restart_at buf kvs off i \<longleftrightarrow> i < length kvs \<and> off \<le> length buf \<and> encoded [] (drop off buf) (drop i kvs)"

definition db_inv :: "(bytes \<times> bytes) list \<Rightarrow> dataBlockBuilder \<Rightarrow> bool" where
  "db_inv kvs b \<longleftrightarrow> encoded [] (db_buf b) kvs \<and> db_entries b = length kvs \<and> db_lastKey b = last_key [] kvs
     \<and> (kvs = [] \<longrightarrow> db_counter b = 0 \<and> db_restarts b = []) \<and> length (db_restarts b) \<le> length kvs - 1
     \<and> (\<exists>rs. db_restarts b = map word_of_nat rs \<and> (\<forall>r\<in>set rs. \<exists>i. restart_at (db_buf b) kvs r i))"

lemma last_key_drop: "i < length kvs \<Longrightarrow> last_key [] (drop i kvs) = last_key [] kvs"
  by (cases kvs) (simp_all add: last_key_def)

lemma restart_at_append:
  assumes "restart_at buf kvs off i" "encoded (last_key [] kvs) e [kv]"
  shows "restart_at (buf @ e) (kvs @ [kv]) off i"
  using assms encoded_append [of "[]" "drop off buf" "drop i kvs" e "[kv]"]
  by (simp add: restart_at_def last_key_drop)

lemma restartEvery_pos: "0 < restartEvery b"
  by (simp add: restartEvery_def defaultRestartInterval_def)

lemma db_inv_new: "db_inv [] (newDataBlockBuilder n)"
  by (simp add: db_inv_def newDataBlockBuilder_def)

lemma db_inv_reset: "db_inv [] (db_reset b)"
  by (simp add: db_inv_def db_reset_def)

lemma db_add_share:
  assumes "db_inv kvs b" "db_counter b < restartEvery b"
  shows "db_inv (kvs @ [(key, val)]) (db_add key val b)"
proof -
  define e where "e = entry_bytes (sharedPrefix (db_lastKey b) key) key val"
  have b': "db_add key val b = b\<lparr>db_buf := db_buf b @ e, db_lastKey := key,
      db_entries := db_entries b + 1, db_counter := db_counter b + 1\<rparr>"
    using assms(2) by (simp add: db_add_def e_def entry_bytes_def Let_def)
  have enc: "encoded (last_key [] kvs) e [(key, val)]"
    using assms(1) unfolding e_def by (intro encoded_single) (simp_all add: db_inv_def sharedPrefix)
  obtain rs where rs: "db_restarts b = map word_of_nat rs" "\<forall>r\<in>set rs. \<exists>i. restart_at (db_buf b) kvs r i"
    using assms(1) by (auto simp: db_inv_def)
  have "\<forall>r\<in>set rs. \<exists>i. restart_at (db_buf b @ e) (kvs @ [(key, val)]) r i"
    using rs(2) restart_at_append [OF _ enc] by blast
  moreover have "encoded [] (db_buf b @ e) (kvs @ [(key, val)])"
    using assms(1) enc by (intro encoded_append) (simp_all add: db_inv_def)
  ultimately show ?thesis
    using assms(1) rs(1) by (auto simp: db_inv_def b')
qed

lemma db_add_restart:
  assumes "db_inv kvs b" "\<not> db_counter b < restartEvery b"
  shows "db_inv (kvs @ [(key, val)]) (db_add key val b)"
proof -
  define e where "e = entry_bytes 0 key val"
  have ne: "kvs \<noteq> []"
    using assms restartEvery_pos [of b] by (auto simp: db_inv_def)
  have b': "db_add key val b = b\<lparr>db_buf := db_buf b @ e,
      db_restarts := db_restarts b @ [word_of_nat (length (db_buf b))],
      db_lastKey := key, db_entries := db_entries b + 1, db_counter := 1\<rparr>"
    using assms(2) by (simp add: db_add_def e_def entry_bytes_def Let_def)
  have enc: "encoded prev e [(key, val)]" for prev
    unfolding e_def by (intro encoded_single) simp_all
  obtain rs where rs: "db_restarts b = map word_of_nat rs" "\<forall>r\<in>set rs. \<exists>i. restart_at (db_buf b) kvs r i"
    using assms(1) by (auto simp: db_inv_def)
  have "restart_at (db_buf b @ e) (kvs @ [(key, val)]) (length (db_buf b)) (length kvs)"
    by (simp add: restart_at_def enc)
  then have "\<forall>r\<in>set (rs @ [length (db_buf b)]). \<exists>i. restart_at (db_buf b @ e) (kvs @ [(key, val)]) r i"
    using rs(2) restart_at_append [OF _ enc] by (simp, blast)
  moreover have "encoded [] (db_buf b @ e) (kvs @ [(key, val)])"
    using assms(1) by (intro encoded_append enc) (simp add: db_inv_def)
  moreover have "db_restarts b @ [word_of_nat (length (db_buf b))] = map word_of_nat (rs @ [length (db_buf b)])"
    using rs(1) by simp
  ultimately show ?thesis
    using assms(1) ne unfolding db_inv_def b'
    by (intro conjI exI [of _ "rs @ [length (db_buf b)]"]) (auto simp: Suc_le_eq less_Suc_eq_le [symmetric])
qed

lemma db_inv_add: "db_inv kvs b \<Longrightarrow> db_inv (kvs @ [(key, val)]) (db_add key val b)"
  using db_add_share db_add_restart by blast

definition db_build :: "int \<Rightarrow> (bytes \<times> bytes) list \<Rightarrow> dataBlockBuilder" where
  "db_build interval kvs = fold (\<lambda>(k, v). db_add k v) kvs (newDataBlockBuilder interval)"

lemma db_inv_fold: "db_inv xs b \<Longrightarrow> db_inv (xs @ kvs) (fold (\<lambda>(k, v). db_add k v) kvs b)"
proof (induction kvs arbitrary: xs b)
  case (Cons kv kvs)
  then show ?case using db_inv_add [of xs b "fst kv" "snd kv"] Cons.IH [of "xs @ [kv]"] by (simp add: split_beta)
qed simp

lemma db_inv_build: "db_inv kvs (db_build interval kvs)"
  using db_inv_fold [OF db_inv_new, of kvs interval] by (simp add: db_build_def)

section \<open>Reading a finished block\<close>

lemma length_concat_Put: "length (concat (map PutUint32 ws)) = 4 * length ws"
  by (induction ws) simp_all

lemma Uint32_concat_Put: "i < length ws \<Longrightarrow> Uint32 (drop (i * 4) (concat (map PutUint32 ws) @ r)) = ws ! i"
proof (induction ws arbitrary: i)
  case (Cons w ws)
  then show ?case by (cases i) simp_all
qed simp

lemma splitDataBlock_join:
  assumes "length ws < 2 ^ 32"
  shows "splitDataBlock (buf @ concat (map PutUint32 ws) @ PutUint32 (word_of_nat (length ws)))
     = Inr (buf, concat (map PutUint32 ws), length ws)"
proof -
  define n where "n = length ws"
  define R where "R = concat (map PutUint32 ws)"
  have R: "length R = 4 * n" by (simp add: R_def n_def length_concat_Put)
  have u: "unat (word_of_nat n :: u32) = n" using assms by (simp add: n_def unat_of_nat)
  define p where "p = buf @ R @ PutUint32 (word_of_nat n)"
  have 1: "drop (length p - 4) p = PutUint32 (word_of_nat n)" "take (length p - 4) p = buf @ R"
    by (simp_all add: p_def)
  have 2: "length p = length buf + 4 * n + 4" "length p - (n + 1) * 4 = length buf" by (simp_all add: p_def R)
  have "take (length buf) p = buf" by (simp add: p_def)
  then have "splitDataBlock p = Inr (buf, R, n)"
    unfolding splitDataBlock_def 1 Let_def by (simp only: u Uint_PutUint_Nil 2(2)) (simp add: 2(1))
  then show ?thesis by (simp add: p_def R_def n_def)
qed

text \<open>The iterator over a finished block: every restart it holds starts an entry.\<close>

definition it_over :: "(bytes \<times> bytes) list \<Rightarrow> dataBlockIter \<Rightarrow> bool" where
  "it_over kvs it \<longleftrightarrow> it_err it = None \<and> fits (it_entries it) \<and> encoded [] (it_entries it) kvs
     \<and> (it_nRestart it = 0 \<longleftrightarrow> kvs = [])
     \<and> (\<forall>j < it_nRestart it. \<exists>off i. restartOffset it j = Some off \<and> restart_at (it_entries it) kvs off i)
     \<and> (it_nRestart it \<noteq> 0 \<longrightarrow> restartOffset it 0 = Some 0)"

lemma it_over_finish:
  assumes inv: "db_inv kvs b" and len: "length (db_buf b) < 2 ^ 32"
  defines "it \<equiv> newDataBlockIter (fst (db_finish b))"
  shows "it_over kvs it \<and> it_pos it = 0 \<and> it_key it = [] \<and> it_entries it = db_buf b"
proof -
  obtain rs where rs: "db_restarts b = map word_of_nat rs" "\<forall>r\<in>set rs. \<exists>i. restart_at (db_buf b) kvs r i"
    and enc: "encoded [] (db_buf b) kvs" and n: "db_entries b = length kvs" "length rs \<le> length kvs - 1"
    and nil: "kvs = [] \<longrightarrow> rs = []"
    using inv by (auto simp: db_inv_def)
  define offs where "offs = (if kvs = [] then [] else 0 # rs)"
  define R :: "u32 list" where "R = map word_of_nat offs"
  have "length offs \<le> length kvs" using n(2) by (cases kvs) (auto simp: offs_def)
  then have R32: "length R < 2 ^ 32" using encoded_length [OF enc] len by (simp add: R_def)
  have "restart_at (db_buf b) kvs 0 0" if "kvs \<noteq> []" using that enc by (simp add: restart_at_def)
  then have offs: "\<exists>i. restart_at (db_buf b) kvs r i" if "r \<in> set offs" for r
    using that rs(2) by (auto simp: offs_def split: if_splits)
  have "(if 0 < db_entries b then [0] else []) @ db_restarts b = R"
    using nil by (auto simp: R_def offs_def rs n)
  then have it: "it = \<lparr>it_entries = db_buf b, it_restarts = concat (map PutUint32 R), it_nRestart = length R,
      it_pos = 0, it_key = [], it_value = [], it_err = None\<rparr>"
    by (simp add: it_def newDataBlockIter_def db_finish_def Let_def splitDataBlock_join [OF R32])
  have ro: "restartOffset it j = Some (offs ! j) \<and> (\<exists>i. restart_at (db_buf b) kvs (offs ! j) i)"
    if j: "j < length R" for j
  proof -
    obtain i where i: "restart_at (db_buf b) kvs (offs ! j) i" using offs j by (force simp: R_def)
    then have "drop (offs ! j) (db_buf b) \<noteq> []"
      using encoded_length [of "[]" "drop (offs ! j) (db_buf b)" "drop i kvs"] by (auto simp: restart_at_def)
    then have lt: "offs ! j < length (db_buf b)" by simp
    then have "unat (R ! j) = offs ! j" using j len by (simp add: R_def unat_of_nat)
    moreover have "Uint32 (drop (j * 4) (concat (map PutUint32 R))) = R ! j"
      using Uint32_concat_Put [OF j, of "[]"] by simp
    ultimately have "restartOffset it j = Some (offs ! j)"
      using j lt by (simp add: restartOffset_def it length_concat_Put)
    with i show ?thesis by blast
  qed
  have zero: "length R \<noteq> 0 \<longrightarrow> restartOffset it 0 = Some 0"
    using ro [of 0] by (auto simp: R_def offs_def split: if_splits)
  show ?thesis
    using ro zero enc len by (auto simp: it_over_def it fits_def R_def offs_def)
qed

section \<open>Seeking\<close>

lemma encoded_Nil_ConsE:
  assumes "encoded [] bs ((key, val) # kvs)"
  obtains bs' where "bs = entry_bytes 0 key val @ bs'"
  using assms by (auto elim!: encoded_ConsE)

lemma keyAt_restart:
  assumes "fits (it_entries it)" "restart_at (it_entries it) kvs off i" "list_all kv_fits kvs"
    and "\<forall>kv\<in>set kvs. valid_ikey (fst kv)"
  shows "keyAt it (Some off) = Some (fst (kvs ! i))"
proof -
  obtain key val where kv: "kvs ! i = (key, val)" by fastforce
  have i: "i < length kvs" "off \<le> length (it_entries it)"
    and "encoded [] (drop off (it_entries it)) ((key, val) # drop (Suc i) kvs)"
    using assms(2) kv by (auto simp: restart_at_def Cons_nth_drop_Suc [symmetric])
  then obtain bs where d: "drop off (it_entries it) = entry_bytes 0 key val @ bs"
    by (auto elim: encoded_Nil_ConsE)
  have kf: "fits key" "fits val" "valid_ikey key"
    using assms(3,4) i(1) kv nth_mem [of i kvs] by (auto simp: list_all_iff kv_fits_def)
  define a where "a = put_uvarint 0"
  define b where "b = put_uvarint (ulen key)"
  define c where "c = put_uvarint (ulen val)"
  have D: "drop off (it_entries it) = a @ b @ c @ key @ val @ bs"
    by (simp add: d entry_bytes_def a_def b_def c_def)
  have dd: "drop (off + k) (it_entries it) = drop k (a @ b @ c @ key @ val @ bs)" for k
    using arg_cong [OF D, of "drop k"] by (simp add: add.commute)
  have u: "Uvarint (drop off (it_entries it)) = (0, int (length a))"
    "Uvarint (drop (off + length a) (it_entries it)) = (ulen key, int (length b))"
    "Uvarint (drop (off + length a + length b) (it_entries it)) = (ulen val, int (length c))"
    using dd [of "length a"] dd [of "length a + length b"] Uvarint_put [of 0]
    by (simp_all add: D a_def b_def c_def add.assoc)
  have p: "0 < length a" "0 < length b" "0 < length c" by (simp_all add: a_def b_def c_def)
  have L: "length (it_entries it) - off = length a + length b + length c + length key + length val + length bs"
    using arg_cong [OF D, of length] by simp
  have t: "take (length key) (drop (off + length a + length b + length c) (it_entries it)) = key"
    using dd [of "length a + length b + length c"] by (simp add: add.assoc)
  have n1: "\<not> ulen key < word_of_nat trailerLen"
    using kf by (intro ulen_not_less) (simp_all add: valid_ikey_def fits_def trailerLen_def)
  have n2: "\<not> (word_of_nat (length (it_entries it) - (off + length a + length b + length c)) :: u64) < ulen key"
    using L kf assms(1) by (intro ulen_not_less) (simp_all add: fits_def)
  have lt: "\<not> length (it_entries it) \<le> off" using L p by arith
  show ?thesis
    using p lt n1 n2 t kf by (simp add: keyAt_def u Let_def unat_ulen kv)
qed

lemma seek_search_invariant:
  assumes "\<And>j. j < n \<Longrightarrow> keyAt it (restartOffset it j) = Some (ks j)"
    and "hi \<le> n" "lo \<le> hi" "lo \<noteq> 0 \<longrightarrow> ikeyCompare (ks (lo - 1)) target < 0"
  shows "\<exists>p. seek_search it target lo hi = Some p \<and> p \<le> hi \<and> (p \<noteq> 0 \<longrightarrow> ikeyCompare (ks (p - 1)) target < 0)"
  using assms
proof (induction it target lo hi rule: seek_search.induct)
  case (1 it target lo hi)
  let ?mid = "(lo + hi) div 2"
  show ?case
  proof (cases "lo < hi")
    case True
    then have mid: "?mid < n" "?mid < hi" "lo \<le> ?mid" using "1.prems" by auto
    have k: "keyAt it (restartOffset it ?mid) = Some (ks ?mid)" using "1.prems"(1) mid(1) .
    show ?thesis
    proof (cases "ikeyCompare (ks ?mid) target < 0")
      case lt: True
      have "\<exists>p. seek_search it target (?mid + 1) hi = Some p \<and> p \<le> hi \<and> (p \<noteq> 0 \<longrightarrow> ikeyCompare (ks (p - 1)) target < 0)"
        using mid "1.prems" lt by (intro "1.IH"(1) [OF True refl k lt]) simp_all
      with True lt k show ?thesis by (subst seek_search.simps) (simp add: Let_def)
    next
      case ge: False
      have "\<exists>p. seek_search it target lo ?mid = Some p \<and> p \<le> ?mid \<and> (p \<noteq> 0 \<longrightarrow> ikeyCompare (ks (p - 1)) target < 0)"
        using mid "1.prems" by (intro "1.IH"(2) [OF True refl k ge]) simp_all
      with True ge k mid show ?thesis by (subst seek_search.simps) (auto simp: Let_def)
    qed
  next
    case False
    with "1.prems" show ?thesis by (subst seek_search.simps) simp
  qed
qed

definition sorted_entries :: "(bytes \<times> bytes) list \<Rightarrow> bool" where
  "sorted_entries kvs \<longleftrightarrow> (\<forall>kv\<in>set kvs. valid_ikey (fst kv))
     \<and> sorted_wrt (\<lambda>a b. ikeyCompare (fst a) (fst b) < 0) kvs"

lemma it_run_at:
  assumes "it_over kvs it" "list_all kv_fits kvs" "restart_at (it_entries it) kvs off i"
  shows "fst (it_run (it\<lparr>it_key := [], it_pos := off\<rparr>)) = drop i kvs
    \<and> it_err (snd (it_run (it\<lparr>it_key := [], it_pos := off\<rparr>))) = None"
  using it_run_encoded [of "it\<lparr>it_key := [], it_pos := off\<rparr>" "drop off (it_entries it)" "drop i kvs"
      "take off (it_entries it)"] assms
  by (auto simp: it_over_def restart_at_def fits_def list_all_iff dest: in_set_dropD)

lemma it_run_start:
  assumes "it_over kvs it" "list_all kv_fits kvs"
  shows "fst (it_run (it\<lparr>it_key := [], it_pos := 0\<rparr>)) = kvs
    \<and> it_err (snd (it_run (it\<lparr>it_key := [], it_pos := 0\<rparr>))) = None"
  using it_run_encoded [of "it\<lparr>it_key := [], it_pos := 0\<rparr>" "it_entries it" kvs "[]"] assms
  by (auto simp: it_over_def fits_def)

lemma it_seek_over:
  assumes over: "it_over kvs it" and fit: "list_all kv_fits kvs" and sorted: "sorted_entries kvs"
    and t: "valid_ikey target"
  shows "\<exists>i. fst (it_run (it_seek target it)) = drop i kvs \<and> it_err (snd (it_run (it_seek target it))) = None
    \<and> (\<forall>kv\<in>set (take i kvs). ikeyCompare (fst kv) target < 0)"
proof (cases "it_nRestart it = 0")
  case True
  then have "it_seek target it = it\<lparr>it_key := [], it_pos := 0\<rparr>"
    by (simp add: it_seek_def seek_search.simps)
  then show ?thesis using it_run_start [OF over fit] by (intro exI [of _ 0]) simp
next
  case False
  have "\<forall>j. \<exists>oi. j < it_nRestart it \<longrightarrow>
      restartOffset it j = Some (fst oi) \<and> restart_at (it_entries it) kvs (fst oi) (snd oi)"
    using over by (auto simp: it_over_def)
  then obtain oi where oi: "\<And>j. j < it_nRestart it \<Longrightarrow>
      restartOffset it j = Some (fst (oi j)) \<and> restart_at (it_entries it) kvs (fst (oi j)) (snd (oi j))"
    by metis
  have valid: "\<forall>kv\<in>set kvs. valid_ikey (fst kv)" using sorted by (simp add: sorted_entries_def)
  have keys: "keyAt it (restartOffset it j) = Some (fst (kvs ! snd (oi j)))" if "j < it_nRestart it" for j
    using oi [OF that] keyAt_restart [OF _ _ fit valid] over by (simp add: it_over_def)
  obtain p where p: "seek_search it target 0 (it_nRestart it) = Some p" "p \<le> it_nRestart it"
      "p \<noteq> 0 \<longrightarrow> ikeyCompare (fst (kvs ! snd (oi (p - 1)))) target < 0"
    using seek_search_invariant [of "it_nRestart it" it "\<lambda>j. fst (kvs ! snd (oi j))" "it_nRestart it" 0 target] keys
    by auto
  have q: "p - 1 < it_nRestart it" using p(2) False by simp
  define off where "off = fst (oi (p - 1))"
  define i where "i = snd (oi (p - 1))"
  have at: "restartOffset it (p - 1) = Some off" "restart_at (it_entries it) kvs off i"
    using oi [OF q] by (simp_all add: off_def i_def)
  then have sk: "it_seek target it = it\<lparr>it_key := [], it_pos := off\<rparr>"
    using p(1) False by (simp add: it_seek_def)
  show ?thesis
  proof (cases "p = 0")
    case True
    then have "off = 0" using at(1) over False by (simp add: it_over_def)
    then show ?thesis using sk it_run_start [OF over fit] by (intro exI [of _ 0]) simp
  next
    case pos: False
    have lt: "ikeyCompare (fst (kvs ! i)) target < 0" "i < length kvs"
      using p(3) pos at(2) by (simp_all add: i_def restart_at_def)
    have "ikeyCompare (fst kv) target < 0" if kv: "kv \<in> set (take i kvs)" for kv
    proof -
      obtain j where j: "j < i" "kv = kvs ! j" using kv lt(2) by (auto simp: in_set_conv_nth)
      have "ikeyCompare (fst kv) (fst (kvs ! i)) < 0"
        using sorted j lt(2) by (simp add: sorted_entries_def sorted_wrt_iff_nth_less)
      then show ?thesis
        using ik.cmp_trans [of "fst kv" "fst (kvs ! i)" target] lt valid t j
        by (simp add: nth_mem)
    qed
    then show ?thesis using sk it_run_at [OF over fit at(2)] by (intro exI [of _ i]) simp
  qed
qed

lemma it_run_length: "length (fst (it_run it)) \<le> length (it_entries it) - it_pos it"
proof (induction it rule: it_run.induct)
  case (1 it)
  obtain ok it' where nx: "it_next it = (ok, it')" by fastforce
  show ?case
  proof (cases ok)
    case True
    then have "it_next it = (True, it')" using nx by simp
    from it_next_progress [OF this] "1.IH" [OF nx [symmetric] refl True]
    show ?thesis using nx True by (subst it_run.simps) (auto simp: split_beta)
  next
    case False
    with nx show ?thesis by (subst it_run.simps) simp
  qed
qed

section \<open>Index blocks\<close>

definition flat_entry :: "bytes \<times> bytes \<Rightarrow> bytes" where
  "flat_entry kv = put_bytes (fst kv) @ put_bytes (snd kv)"

lemma bb_buf_add: "bb_buf (bb_add k v b) = bb_buf b @ flat_entry (k, v)"
  by (simp add: bb_add_def flat_entry_def put_bytes_def)

lemma bi_next_entry:
  assumes "bi_err it = None" and e: "bi_payload it = pre @ flat_entry (key, val) @ bs"
    and pos: "bi_pos it = length pre" and fit: "fits (bi_payload it)"
  shows "bi_next it = (True, it\<lparr>bi_key := key, bi_value := val, bi_pos := length pre + length (flat_entry (key, val))\<rparr>)"
proof -
  define a where "a = put_uvarint (ulen key)"
  define b where "b = put_uvarint (ulen val)"
  have E: "bi_payload it = pre @ a @ key @ b @ val @ bs"
    by (simp add: e flat_entry_def put_bytes_def a_def b_def)
  have L: "length pre + length a + length key + length b + length val + length bs < 2 ^ 63"
    using fit unfolding E fits_def by simp
  have u: "Uvarint (drop (length pre) (bi_payload it)) = (ulen key, int (length a))"
    "Uvarint (drop (length pre + length a + length key) (bi_payload it)) = (ulen val, int (length b))"
    by (simp_all add: E a_def b_def)
  have p: "0 < length a" "0 < length b" by (simp_all add: a_def b_def)
  have un: "unat (ulen key) = length key" "unat (ulen val) = length val"
    using L by (simp_all add: unat_fits)
  have n: "\<not> (word_of_nat (length (bi_payload it) - (length pre + length a)) :: u64) < ulen key"
    "\<not> (word_of_nat (length (bi_payload it) - (length pre + length a + length key + length b)) :: u64) < ulen val"
    using L by (intro ulen_not_less; simp add: E)+
  have t: "take (length key) (drop (length pre + length a) (bi_payload it)) = key"
    "take (length val) (drop (length pre + length a + length key + length b) (bi_payload it)) = val"
    by (simp_all add: E)
  have lt: "\<not> length (bi_payload it) \<le> length pre" using p by (simp add: E)
  show ?thesis
    using p lt n by (simp add: bi_next_def assms(1) pos u Let_def un t)
      (simp add: flat_entry_def put_bytes_def a_def b_def add.assoc)
qed

section \<open>Properties\<close>

text \<open>
  C26.  Over a lossless compression library a block written with any codec
  decodes to its payload, and is never more than the five trailer bytes larger
  than the payload.
\<close>

theorem block_roundtrip:
  assumes "lossless lib"
  shows "decodeBlock lib (finishBlock lib payload c) = Inr payload
    \<and> length (finishBlock lib payload c) \<le> length payload + blockTrailerLen"
  using decodeBlock_finishBlock [OF assms] length_finishBlock by blast

theorem block_roundtrip_witness:
  "decodeBlock \<lparr>s2_Encode = \<lambda>x. x, s2_Decode = Inr, zstd_Encode = rev, zstd_Decode = \<lambda>x. Inr (rev x),
      flate_Deflate = \<lambda>x. x @ [0], flate_Reset = \<lambda>x. None, flate_Inflate = \<lambda>x. Inr (butlast x)\<rparr>
    (finishBlock \<lparr>s2_Encode = \<lambda>x. x, s2_Decode = Inr, zstd_Encode = rev, zstd_Decode = \<lambda>x. Inr (rev x),
      flate_Deflate = \<lambda>x. x @ [0], flate_Reset = \<lambda>x. None, flate_Inflate = \<lambda>x. Inr (butlast x)\<rparr> [1, 2, 3] zstdCodec) = Inr [1, 2, 3]"
  using block_roundtrip [of "\<lparr>s2_Encode = \<lambda>x. x, s2_Decode = Inr, zstd_Encode = rev, zstd_Decode = \<lambda>x. Inr (rev x),
      flate_Deflate = \<lambda>x. x @ [0], flate_Reset = \<lambda>x. None, flate_Inflate = \<lambda>x. Inr (butlast x)\<rparr>" "[1, 2, 3]" zstdCodec]
  by (simp add: lossless_def)

text \<open>
  C25.  A data block built from sorted entries and finished is read back by the
  iterator exactly as it was built, whatever the restart interval.  After
  \<open>seek\<close> to any target the iterator returns a suffix of the entries, and every
  entry it skipped sorts below the target.
\<close>

theorem data_block_scan_seek:
  assumes "sorted_entries kvs" "list_all kv_fits kvs" "length (db_buf (db_build interval kvs)) < 2 ^ 32"
    and "valid_ikey target"
  shows "fst (it_run (newDataBlockIter (fst (db_finish (db_build interval kvs))))) = kvs
    \<and> (\<exists>i. fst (it_run (it_seek target (newDataBlockIter (fst (db_finish (db_build interval kvs)))))) = drop i kvs
          \<and> (\<forall>kv\<in>set (take i kvs). ikeyCompare (fst kv) target < 0))"
proof -
  let ?it = "newDataBlockIter (fst (db_finish (db_build interval kvs)))"
  have o: "it_over kvs ?it" "it_pos ?it = 0" "it_key ?it = []"
    using it_over_finish [OF db_inv_build assms(3)] by simp_all
  then have "?it\<lparr>it_key := [], it_pos := 0\<rparr> = ?it" by simp
  with it_run_start [OF o(1) assms(2)] it_seek_over [OF o(1) assms(2,1,4)]
  show ?thesis by auto
qed

theorem data_block_scan_seek_witness:
  "fst (it_run (newDataBlockIter (fst (db_finish (db_build 1
      [(ikeyEncode [] [1] 2 1, [7]), (ikeyEncode [] [1, 2] 9 0, []), (ikeyEncode [] [3] 1 1, [8, 9])])))))
    = [(ikeyEncode [] [1] 2 1, [7]), (ikeyEncode [] [1, 2] 9 0, []), (ikeyEncode [] [3] 1 1, [8, 9])]"
proof -
  let ?kvs = "[(ikeyEncode [] [1] 2 1, [7]), (ikeyEncode [] [1, 2] 9 0, []), (ikeyEncode [] [3] 1 1, [8, 9])]"
  have "sorted_entries ?kvs" by (simp add: sorted_entries_def ikeyCompare_lt)
  moreover have "list_all kv_fits ?kvs" by (simp add: kv_fits_def fits_def)
  moreover have "length (db_buf (db_build 1 ?kvs)) \<le> 50" by code_simp
  then have "length (db_buf (db_build 1 ?kvs)) < 2 ^ 32" by (rule le_less_trans) simp
  ultimately show ?thesis using data_block_scan_seek [of ?kvs 1 "ikeyEncode [] [] 0 0"] by simp
qed

text \<open>
  C27.  On any bytes, corrupt ones included, a scan of a data block ends: it
  returns at most one entry per byte left.
\<close>

theorem data_block_scan_bounded:
  "length (fst (it_run it)) \<le> length (it_entries it) - it_pos it"
  by (rule it_run_length)

end
