(* ===== verification/Rangetomb.thy ===== *)
theory Rangetomb
  imports Wal_Record
begin

text \<open>
  Range tombstones (\<^verbatim>\<open>rangetomb.go\<close>): coverage of a point version, the highest
  covering sequence below a limit, and the table meta-block codec.  The lemmas
  give \<open>rangeDeleted\<close> and \<open>maxCoveringRangeDelSeqLE\<close> their meaning as set
  statements, relate the two (the read path uses the second, the definition of a
  visible deletion is the first), and show that the meta-block round-trips and
  that a decoded block holds only non-empty ranges.
\<close>

record rangeTombstone =
  rt_start :: bytes
  rt_end :: bytes
  rt_seq :: u64

definition rt_contains :: "rangeTombstone \<Rightarrow> bytes \<Rightarrow> bool" where
  "rt_contains rt userKey \<longleftrightarrow>
     0 \<le> bytes_compare userKey (rt_start rt) \<and> bytes_compare userKey (rt_end rt) < 0"

definition rt_covers :: "rangeTombstone \<Rightarrow> bytes \<Rightarrow> u64 \<Rightarrow> u64 \<Rightarrow> bool" where
  "rt_covers rt userKey versionSeq readSeq \<longleftrightarrow>
     rt_seq rt \<le> readSeq \<and> versionSeq < rt_seq rt \<and> rt_contains rt userKey"

fun rangeDeleted :: "rangeTombstone list \<Rightarrow> bytes \<Rightarrow> u64 \<Rightarrow> u64 \<Rightarrow> bool" where
  "rangeDeleted [] userKey versionSeq readSeq = False"
| "rangeDeleted (rt # rts) userKey versionSeq readSeq =
     (if rt_covers rt userKey versionSeq readSeq then True
      else rangeDeleted rts userKey versionSeq readSeq)"

fun maxCoveringLoop :: "u64 \<Rightarrow> rangeTombstone list \<Rightarrow> bytes \<Rightarrow> u64 \<Rightarrow> u64" where
  "maxCoveringLoop best [] userKey limit = best"
| "maxCoveringLoop best (rt # rts) userKey limit =
     maxCoveringLoop
       (if rt_seq rt \<le> limit \<and> best < rt_seq rt \<and> rt_contains rt userKey then rt_seq rt else best)
       rts userKey limit"

definition maxCoveringRangeDelSeqLE :: "rangeTombstone list \<Rightarrow> bytes \<Rightarrow> u64 \<Rightarrow> u64" where
  "maxCoveringRangeDelSeqLE rts userKey limit = maxCoveringLoop 0 rts userKey limit"

definition encodeRangeDel :: "rangeTombstone \<Rightarrow> bytes" where
  "encodeRangeDel rt =
     put_uvarint (ulen (rt_start rt)) @ rt_start rt
     @ put_uvarint (ulen (rt_end rt)) @ rt_end rt @ put_uvarint (rt_seq rt)"

definition encodeRangeDelBlock :: "bytes \<Rightarrow> rangeTombstone list \<Rightarrow> bytes" where
  "encodeRangeDelBlock dst rts = dst @ put_uvarint (ulen rts) @ concat (map encodeRangeDel rts)"

definition decodeRangeDel :: "bytes \<Rightarrow> (rangeTombstone \<times> bytes) result" where
  "decodeRangeDel rest =
     (case readBytes rest of Inl err \<Rightarrow> Inl (Wrapped ''table: range-del start'' err)
      | Inr (start, r) \<Rightarrow>
        case readBytes r of Inl err \<Rightarrow> Inl (Wrapped ''table: range-del end'' err)
        | Inr (end', r2) \<Rightarrow>
          let (seq, sn) = Uvarint r2
          in if sn \<le> 0 then Inl (Errorf ''table: bad range-del seq'')
             else if 0 \<le> bytes_compare start end' then Inl (Errorf ''table: range-del start >= end'')
             else Inr (\<lparr>rt_start = start, rt_end = end', rt_seq = seq\<rparr>, drop (nat sn) r2))"

fun decodeRangeDels :: "nat \<Rightarrow> bytes \<Rightarrow> (rangeTombstone list \<times> bytes) result" where
  "decodeRangeDels 0 rest = Inr ([], rest)"
| "decodeRangeDels (Suc n) rest =
     (case decodeRangeDel rest of Inl err \<Rightarrow> Inl err
      | Inr (rt, rest) \<Rightarrow>
        case decodeRangeDels n rest of Inl err \<Rightarrow> Inl err
        | Inr (rts, rest) \<Rightarrow> Inr (rt # rts, rest))"

definition decodeRangeDelBlock :: "bytes \<Rightarrow> rangeTombstone list result" where
  "decodeRangeDelBlock payload =
     (let (count, n) = Uvarint payload
      in if n \<le> 0 then Inl (Errorf ''table: bad range-del count'')
      else let rest = drop (nat n) payload
      in if ulen rest < count then Inl (Errorf ''table: range-del count exceeds block size'')
      else case decodeRangeDels (unat count) rest of Inl err \<Rightarrow> Inl err
      | Inr (out, rest) \<Rightarrow>
        if length rest \<noteq> 0 then Inl (Errorf ''table: range-del trailing bytes'') else Inr out)"

section \<open>Coverage\<close>

lemma rt_contains_iff: "rt_contains rt k \<longleftrightarrow> rt_start rt \<le> k \<and> k < rt_end rt"
  by (simp add: rt_contains_def order_simps)

lemma rangeDeleted_iff:
  "rangeDeleted rts k v r \<longleftrightarrow> (\<exists>rt\<in>set rts. rt_covers rt k v r)"
  by (induction rts) auto

lemma rangeDeleted_append [simp]:
  "rangeDeleted (xs @ ys) k v r \<longleftrightarrow> rangeDeleted xs k v r \<or> rangeDeleted ys k v r"
  by (auto simp: rangeDeleted_iff)

text \<open>The tombstones that contain a key and are visible at a limit.\<close>

definition coveringSeqs :: "rangeTombstone list \<Rightarrow> bytes \<Rightarrow> u64 \<Rightarrow> u64 set" where
  "coveringSeqs rts k limit = rt_seq ` {rt \<in> set rts. rt_seq rt \<le> limit \<and> rt_contains rt k}"

lemma coveringSeqs_simps [simp]:
  "coveringSeqs [] k l = {}"
  "coveringSeqs (rt # rts) k l =
     (if rt_seq rt \<le> l \<and> rt_contains rt k then {rt_seq rt} else {}) \<union> coveringSeqs rts k l"
  by (auto simp: coveringSeqs_def)

lemma finite_coveringSeqs [simp]: "finite (coveringSeqs rts k l)"
  by (simp add: coveringSeqs_def)

lemma maxCoveringLoop_Max:
  "maxCoveringLoop best rts k l = Max (insert best (coveringSeqs rts k l))"
proof (induction rts arbitrary: best)
  case Nil
  then show ?case by simp
next
  case (Cons rt rts)
  let ?C = "coveringSeqs rts k l"
  have swap: "Max (insert best (insert x ?C)) = max x (Max (insert best ?C))" for x
    by (simp add: insert_commute [of best x])
  have "Max (insert x ?C) = Max (insert best (insert x ?C))" if "best < x" for x
    using that by (intro Max_eq_if) auto
  moreover have "Max (insert best ?C) = Max (insert best (insert x ?C))" if "\<not> best < x" for x
    using that by (intro Max_eq_if) auto
  ultimately show ?case by (auto simp: Cons)
qed

lemma maxCoveringRangeDelSeqLE_Max:
  "maxCoveringRangeDelSeqLE rts k l = Max (insert 0 (coveringSeqs rts k l))"
  by (simp add: maxCoveringRangeDelSeqLE_def maxCoveringLoop_Max)

lemma less_maxCovering_iff:
  "v < maxCoveringRangeDelSeqLE rts k l \<longleftrightarrow> rangeDeleted rts k v l"
  by (subst maxCoveringRangeDelSeqLE_Max, subst Max_gr_iff)
     (auto simp: rangeDeleted_iff rt_covers_def coveringSeqs_def)

lemma maxCovering_append:
  "maxCoveringRangeDelSeqLE (xs @ ys) k l
     = max (maxCoveringRangeDelSeqLE xs k l) (maxCoveringRangeDelSeqLE ys k l)"
proof (rule order_antisym)
  show "maxCoveringRangeDelSeqLE (xs @ ys) k l
     \<le> max (maxCoveringRangeDelSeqLE xs k l) (maxCoveringRangeDelSeqLE ys k l)"
    by (rule ccontr) (simp add: not_le less_maxCovering_iff; simp add: less_maxCovering_iff [symmetric] not_less)
next
  show "max (maxCoveringRangeDelSeqLE xs k l) (maxCoveringRangeDelSeqLE ys k l)
     \<le> maxCoveringRangeDelSeqLE (xs @ ys) k l"
    by (auto simp: maxCoveringRangeDelSeqLE_Max coveringSeqs_def intro!: Max_mono)
qed

lemma maxCovering_set_cong:
  "set xs = set ys \<Longrightarrow> maxCoveringRangeDelSeqLE xs k l = maxCoveringRangeDelSeqLE ys k l"
  by (simp add: maxCoveringRangeDelSeqLE_Max coveringSeqs_def)

lemma maxCovering_le: "maxCoveringRangeDelSeqLE rts k l \<le> l"
  by (subst maxCoveringRangeDelSeqLE_Max) (auto simp: coveringSeqs_def)

lemma maxCovering_in:
  "maxCoveringRangeDelSeqLE rts k l \<noteq> 0 \<Longrightarrow>
   \<exists>rt\<in>set rts. rt_seq rt = maxCoveringRangeDelSeqLE rts k l \<and> rt_contains rt k"
  using Max_in [of "insert 0 (coveringSeqs rts k l)"]
  by (auto simp: maxCoveringRangeDelSeqLE_Max coveringSeqs_def)

section \<open>Meta-block codec\<close>

definition wf_rangeDel :: "rangeTombstone \<Rightarrow> bool" where
  "wf_rangeDel rt \<longleftrightarrow> rt_start rt < rt_end rt"

lemma decodeRangeDel_encode:
  assumes "wf_rangeDel rt" "fits (encodeRangeDel rt @ r)"
  shows "decodeRangeDel (encodeRangeDel rt @ r) = Inr (rt, r)"
proof -
  let ?b = "put_uvarint (rt_seq rt) @ r"
  have f2: "fits (rt_end rt @ ?b)" and f1: "fits (rt_start rt @ put_uvarint (ulen (rt_end rt)) @ rt_end rt @ ?b)"
    using assms(2) by (simp_all add: encodeRangeDel_def fits_def)
  show ?thesis
    using assms(1) readBytes_put [OF f1] readBytes_put [OF f2]
    by (simp add: decodeRangeDel_def encodeRangeDel_def Let_def order_simps wf_rangeDel_def not_le)
qed

lemma decodeRangeDels_encode:
  "(\<And>rt. rt \<in> set rts \<Longrightarrow> wf_rangeDel rt) \<Longrightarrow> fits (concat (map encodeRangeDel rts) @ r)
   \<Longrightarrow> decodeRangeDels (length rts) (concat (map encodeRangeDel rts) @ r) = Inr (rts, r)"
proof (induction rts)
  case (Cons rt rts)
  let ?tl = "concat (map encodeRangeDel rts) @ r"
  have f: "fits (encodeRangeDel rt @ ?tl)" using Cons.prems(2) by simp
  then have "fits ?tl" by (simp add: fits_def)
  with Cons decodeRangeDel_encode [OF _ f] show ?case by simp
qed simp

lemma decodeRangeDel_wf: "decodeRangeDel rest = Inr (rt, r) \<Longrightarrow> wf_rangeDel rt"
  by (auto simp: decodeRangeDel_def wf_rangeDel_def Let_def order_simps
      split: sum.splits prod.splits if_splits)

lemma decodeRangeDels_wf:
  "decodeRangeDels n rest = Inr (rts, r) \<Longrightarrow> length rts = n \<and> (\<forall>rt\<in>set rts. wf_rangeDel rt)"
  by (induction n arbitrary: rest rts) (fastforce split: sum.splits prod.splits dest: decodeRangeDel_wf)+

lemma length_encodeRangeDels: "length rts \<le> length (concat (map encodeRangeDel rts))"
proof (induction rts)
  case (Cons rt rts)
  have "1 \<le> length (encodeRangeDel rt)"
    using length_put_uvarint_pos [of "rt_seq rt"] by (simp add: encodeRangeDel_def del: length_put_uvarint_pos length_greater_0_conv)
  with Cons show ?case by simp
qed simp

lemma decodeRangeDelBlock_encode:
  assumes a: "(\<forall>rt\<in>set rts. wf_rangeDel rt) \<and> fits (encodeRangeDelBlock [] rts)"
  shows "decodeRangeDelBlock (encodeRangeDelBlock [] rts) = Inr rts"
proof -
  let ?body = "concat (map encodeRangeDel rts)"
  have fb: "fits ?body" using a by (simp add: encodeRangeDelBlock_def fits_def)
  have fr: "fits rts" using fb length_encodeRangeDels [of rts] by (simp add: fits_def)
  have count: "\<not> ulen ?body < (ulen rts)"
    using length_encodeRangeDels [of rts] fb fr by (simp add: word_less_nat_alt del: length_concat)
  have "decodeRangeDels (length rts) ?body = Inr (rts, [])"
    using decodeRangeDels_encode [of rts "[]"] a fb by simp
  with count fr show ?thesis
    by (simp add: decodeRangeDelBlock_def encodeRangeDelBlock_def Let_def del: length_concat)
qed

lemma decodeRangeDelBlock_wf: "decodeRangeDelBlock payload = Inr out \<Longrightarrow> \<forall>rt\<in>set out. wf_rangeDel rt"
  by (auto simp: decodeRangeDelBlock_def Let_def split: prod.splits if_splits sum.splits
      dest!: decodeRangeDels_wf)

section \<open>Properties\<close>

text \<open>
  C16.  Reads and compactions agree on range deletions: a version is older than
  the highest covering tombstone sequence at a limit exactly when some tombstone
  of the list, visible at that limit and newer than the version, contains the
  key; and the sequence returned is never above the limit and belongs to a
  containing tombstone unless it is zero.
\<close>

theorem maxCoveringRangeDelSeqLE_spec:
  "(v < maxCoveringRangeDelSeqLE rts k l \<longleftrightarrow> rangeDeleted rts k v l)
   \<and> (rangeDeleted rts k v l \<longleftrightarrow>
        (\<exists>rt. rt \<in> set rts \<and> rt_seq rt \<le> l \<and> v < rt_seq rt \<and> rt_start rt \<le> k \<and> k < rt_end rt))
   \<and> maxCoveringRangeDelSeqLE rts k l \<le> l
   \<and> (maxCoveringRangeDelSeqLE rts k l = 0 \<or>
        (\<exists>rt. rt \<in> set rts \<and> rt_seq rt = maxCoveringRangeDelSeqLE rts k l \<and> rt_contains rt k))"
  using maxCovering_in [of rts k l]
  by (auto simp: less_maxCovering_iff maxCovering_le rangeDeleted_iff rt_covers_def rt_contains_iff)

text \<open>
  C17.  The range-del meta-block round-trips for tombstones with a non-empty
  range, and whatever bytes it is given the decoder returns only such
  tombstones.
\<close>

theorem rangeDelBlock_roundtrip:
  "((\<forall>rt\<in>set rts. wf_rangeDel rt) \<and> fits (encodeRangeDelBlock [] rts) \<longrightarrow>
      decodeRangeDelBlock (encodeRangeDelBlock [] rts) = Inr rts)
   \<and> (decodeRangeDelBlock payload = Inr out \<longrightarrow> (\<forall>rt\<in>set out. wf_rangeDel rt))"
  using decodeRangeDelBlock_encode decodeRangeDelBlock_wf by blast

theorem rangeDelBlock_roundtrip_witness:
  "decodeRangeDelBlock (encodeRangeDelBlock [] [\<lparr>rt_start = [1], rt_end = [2, 3], rt_seq = 300\<rparr>])
     = Inr [\<lparr>rt_start = [1], rt_end = [2, 3], rt_seq = 300\<rparr>]
   \<and> decodeRangeDelBlock [1, 0, 1, 9, 4] = Inr [\<lparr>rt_start = [], rt_end = [9], rt_seq = 4\<rparr>]
   \<and> wf_rangeDel \<lparr>rt_start = [], rt_end = [9], rt_seq = 4\<rparr>"
proof -
  let ?rts = "[\<lparr>rt_start = [1], rt_end = [2, 3], rt_seq = 300\<rparr>]"
  have "fits (encodeRangeDelBlock [] ?rts)"
    using length_put_uvarint_10 [of 2] length_put_uvarint_10 [of 1] length_put_uvarint_10 [of 300]
    by (simp add: fits_def encodeRangeDelBlock_def encodeRangeDel_def)
  moreover have "decodeRangeDelBlock [1, 0, 1, 9, 4] = Inr [\<lparr>rt_start = [], rt_end = [9], rt_seq = 4\<rparr>]"
    by code_simp
  ultimately show ?thesis
    using rangeDelBlock_roundtrip [of ?rts "[1, 0, 1, 9, 4]" "[\<lparr>rt_start = [], rt_end = [9], rt_seq = 4\<rparr>]"]
    by (simp add: wf_rangeDel_def)
qed

end
