(* ===== verification/Bloom.thy ===== *)
theory Bloom
  imports Lv_Prelude
begin

text \<open>
  The bloom filter embedded in every table (\<^verbatim>\<open>filter_bloom.go\<close>): sizing, the probe
  loop of \<open>build\<close>, the check made when a table is opened, and the query.  The
  32-bit arithmetic wraps as in the code.  The main result is that a filter never
  denies a hash it was built from, whatever its size, and that every built filter
  passes the check.
\<close>

text \<open>\<^verbatim>\<open>bits.Len\<close> of \<^verbatim>\<open>math/bits\<close>.\<close>

fun bits_Len :: "nat \<Rightarrow> nat" where
  "bits_Len n = (if n = 0 then 0 else Suc (bits_Len (n div 2)))"

declare bits_Len.simps [simp del]

record bloomFilter =
  bitsPerKey :: nat

definition newBloom :: "int \<Rightarrow> bloomFilter" where
  "newBloom bpk = \<lparr>bitsPerKey = nat (if bpk < 1 then 1 else bpk)\<rparr>"

text \<open>
  \<^verbatim>\<open>int(float64(bitsPerKey)*0.69 + 0.5)\<close> with the clamp.  Truncation of
  \<open>0.69 b + 0.5\<close> is \<open>(69 b + 50) div 100\<close>: the two differ only where
  \<open>69 b + 50\<close> is a multiple of 100, that is for \<open>b\<close> congruent to 50 modulo 100,
  where both sides are above the upper clamp.
\<close>

definition probes :: "bloomFilter \<Rightarrow> nat" where
  "probes b =
     (let k = (69 * bitsPerKey b + 50) div 100; k = (if k < 1 then 1 else k)
      in if 30 < k then 30 else k)"

definition pow2Bytes :: "nat \<Rightarrow> nat" where
  "pow2Bytes minBits =
     (let nbytes = (minBits + 7) div 8; nbytes = (if nbytes < 8 then 8 else nbytes)
      in if nbytes AND (nbytes - 1) \<noteq> 0 then push_bit (bits_Len nbytes) 1 else nbytes)"

definition bit_index :: "u32 \<Rightarrow> nat" where
  "bit_index b = unat (drop_bit 3 b)"

definition bit_mask :: "u32 \<Rightarrow> byte" where
  "bit_mask b = push_bit (unat (b AND 7)) 1"

fun build_probes :: "nat \<Rightarrow> u32 \<Rightarrow> u32 \<Rightarrow> u32 \<Rightarrow> bytes \<Rightarrow> bytes" where
  "build_probes 0 h delta msk out = out"
| "build_probes (Suc i) h delta msk out =
     (let b = h AND msk
      in build_probes i (h + delta) delta msk
           (out[bit_index b := (out ! bit_index b) OR bit_mask b]))"

definition build :: "bloomFilter \<Rightarrow> u32 list \<Rightarrow> bytes" where
  "build b hashes =
     (let k = probes b;
          nbytes = pow2Bytes (length hashes * bitsPerKey b);
          nbits = (word_of_nat (nbytes * 8) :: u32);
          msk = nbits - 1;
          out = replicate nbytes 0 @ [word_of_nat k]
      in foldl (\<lambda>out h. build_probes k h (word_rotl 15 h) msk out) out hashes)"

definition validateBloomFilter :: "bytes \<Rightarrow> unit result" where
  "validateBloomFilter filt =
     (if length filt < 9 then Inl (Errorf ''table: bloom filter too short'')
      else let nbytes = length filt - 1
      in if nbytes AND (nbytes - 1) \<noteq> 0 then Inl (Errorf ''table: bloom filter size is not a power of two'')
      else let k = filt ! (length filt - 1)
      in if k < 1 \<or> 30 < k then Inl (Errorf ''table: invalid bloom probe count'') else Inr ())"

fun query_probes :: "nat \<Rightarrow> u32 \<Rightarrow> u32 \<Rightarrow> (u32 \<Rightarrow> u32) \<Rightarrow> bytes \<Rightarrow> bool" where
  "query_probes 0 h delta pos filt = True"
| "query_probes (Suc i) h delta pos filt =
     (let b = pos h
      in if filt ! bit_index b AND bit_mask b = 0 then False
         else query_probes i (h + delta) delta pos filt)"

definition bloomMayContain :: "bytes \<Rightarrow> u32 \<Rightarrow> bool" where
  "bloomMayContain filt hash =
     (if length filt < 2 then False
      else let k = unat (filt ! (length filt - 1))
      in if 30 < k then True
      else let nbytes = length filt - 1; nbits = (word_of_nat (nbytes * 8) :: u32)
      in if nbytes AND (nbytes - 1) = 0
         then let msk = nbits - 1 in query_probes k hash (word_rotl 15 hash) (\<lambda>h. h AND msk) filt
         else query_probes k hash (word_rotl 15 hash) (\<lambda>h. h mod nbits) filt)"

definition bloomHash :: "bytes \<Rightarrow> u32" where
  "bloomHash key =
     (let h = foldl (\<lambda>h c. (h XOR ucast c) * 16777619) 2166136261 key;
          h = h XOR drop_bit 15 h;
          h = h * 0x2c1b3c6d
      in h XOR drop_bit 12 h)"

section \<open>Powers of two\<close>

lemma and_pred_pow2: "(2 ^ m :: nat) AND (2 ^ m - 1) = 0"
proof -
  have "(2 ^ m :: nat) AND mask m = take_bit m (2 ^ m)" by (simp add: take_bit_eq_mask)
  then show ?thesis by (simp add: mask_eq_exp_minus_1)
qed

lemma and_pred_is_pow2: "0 < n \<Longrightarrow> n AND (n - 1) = 0 \<Longrightarrow> \<exists>m. (n :: nat) = 2 ^ m"
proof (induction n rule: less_induct)
  case (less n)
  show ?case
  proof (cases "even n")
    case True
    then obtain k where n: "n = 2 * k" by blast
    with less.prems have k: "0 < k" by simp
    have "(2 * k - 1) div 2 = k - 1" using k by presburger
    then have "(2 * k) AND (2 * k - 1) = 2 * (k AND (k - 1))"
      using k by (subst and_rec) simp
    with less.prems n have "k AND (k - 1) = 0" by simp
    with less.IH [of k] n k obtain m where "k = 2 ^ m" by auto
    with n have "n = 2 ^ Suc m" by simp
    then show ?thesis ..
  next
    case False
    then obtain k where n: "n = 2 * k + 1" by (blast elim: oddE)
    have "(2 * k + 1) AND (2 * k) = 2 * k"
      by (subst and_rec) auto
    with less.prems n have "k = 0" by simp
    with n have "n = 2 ^ 0" by simp
    then show ?thesis ..
  qed
qed

lemma bits_Len_upper: "n < 2 ^ bits_Len n"
proof (induction n rule: bits_Len.induct)
  case (1 n)
  then show ?case by (subst bits_Len.simps) auto
qed

lemma pow2Bytes_pow2: "\<exists>m. 3 \<le> m \<and> pow2Bytes x = 2 ^ m"
proof -
  define n where "n = (if (x + 7) div 8 < 8 then 8 else (x + 7) div 8)"
  have n8: "8 \<le> n" by (simp add: n_def)
  have eq: "pow2Bytes x = (if n AND (n - 1) \<noteq> 0 then push_bit (bits_Len n) 1 else n)"
    by (simp add: pow2Bytes_def Let_def n_def)
  have big: "3 \<le> m" if "8 \<le> (2 :: nat) ^ m" for m
    using that power_increasing_iff [of "2 :: nat" 3 m] by simp
  show ?thesis
  proof (cases "n AND (n - 1) = 0")
    case True
    with and_pred_is_pow2 [of n] n8 obtain m where "n = 2 ^ m" by auto
    with True n8 big [of m] eq show ?thesis by auto
  next
    case False
    have "8 \<le> (2 :: nat) ^ bits_Len n" using bits_Len_upper [of n] n8 by simp
    with False eq big [of "bits_Len n"] show ?thesis by (auto simp: push_bit_eq_mult)
  qed
qed

lemma pow2Bytes_holds: "x \<le> 8 * pow2Bytes x"
  using bits_Len_upper [of "(x + 7) div 8"]
  by (auto simp: pow2Bytes_def Let_def push_bit_eq_mult)

lemma pow2Bytes_least:
  assumes "8 < pow2Bytes x" shows "pow2Bytes x < 2 * ((x + 7) div 8)"
proof -
  have low: "2 ^ bits_Len n \<le> 2 * n" if "0 < n" for n :: nat
    using that
  proof (induction n rule: bits_Len.induct)
    case (1 n)
    show ?case
    proof (cases "n div 2 = 0")
      case True
      with 1 have "n = 1" by auto
      then show ?thesis by (simp add: bits_Len.simps)
    next
      case False
      with 1 have "2 ^ bits_Len (n div 2) \<le> 2 * (n div 2)" by simp
      moreover have "bits_Len n = Suc (bits_Len (n div 2))" using 1 by (simp add: bits_Len.simps)
      ultimately show ?thesis by auto
    qed
  qed
  show ?thesis
  proof (cases "(x + 7) div 8 < 8")
    case True
    then show ?thesis using assms by (simp add: pow2Bytes_def)
  next
    case False
    let ?n = "(x + 7) div 8"
    show ?thesis
    proof (cases "?n AND (?n - 1) = 0")
      case True
      then show ?thesis using False by (simp add: pow2Bytes_def Let_def)
    next
      case c: False
      have "2 ^ bits_Len ?n \<noteq> 2 * ?n"
      proof
        assume a: "2 ^ bits_Len ?n = 2 * ?n"
        then have "bits_Len ?n \<noteq> 0" using False by (cases "bits_Len ?n") auto
        then obtain m where "bits_Len ?n = Suc m" by (cases "bits_Len ?n") auto
        with a have "?n = 2 ^ m" by simp
        with and_pred_pow2 [of m] c show False by simp
      qed
      with low [of ?n] False c show ?thesis by (simp add: pow2Bytes_def Let_def push_bit_eq_mult)
    qed
  qed
qed

section \<open>No false negatives\<close>

text \<open>A position of the bit array is set; setting a position keeps every other one.\<close>

definition bit_on :: "bytes \<Rightarrow> u32 \<Rightarrow> bool" where
  "bit_on filt b \<longleftrightarrow> filt ! bit_index b AND bit_mask b \<noteq> 0"

definition set_on :: "bytes \<Rightarrow> u32 \<Rightarrow> bytes" where
  "set_on out b = out[bit_index b := (out ! bit_index b) OR bit_mask b]"

lemma length_set_on [simp]: "length (set_on out b) = length out"
  by (simp add: set_on_def)

lemma bit_mask_bit: "n < 8 \<Longrightarrow> bit (bit_mask b) n \<longleftrightarrow> n = unat (b AND 7)"
  by (auto simp: bit_mask_def bit_simps)

lemma low3_lt: "unat (b AND 7 :: u32) < 8"
proof -
  have "b AND 7 \<le> (7 :: u32)" by (rule word_and_le1)
  then show ?thesis by (simp add: word_le_nat_alt)
qed

lemma bit_on_bit: "bit_on filt b \<longleftrightarrow> bit (filt ! bit_index b) (unat (b AND 7))"
proof
  assume "bit_on filt b"
  then obtain n where "bit (filt ! bit_index b AND bit_mask b) n"
    unfolding bit_on_def by (metis bit_eqI bit_0_eq bot_apply bot_bool_def)
  moreover from this have "n < 8" using bit_imp_le_length [of _ n] by fastforce
  ultimately show "bit (filt ! bit_index b) (unat (b AND 7))"
    by (auto simp: bit_and_iff bit_mask_bit)
next
  assume "bit (filt ! bit_index b) (unat (b AND 7))"
  then have "bit (filt ! bit_index b AND bit_mask b) (unat (b AND 7))"
    using low3_lt [of b] by (simp add: bit_and_iff bit_mask_bit)
  then show "bit_on filt b" unfolding bit_on_def by (metis bit_0_eq bot_apply bot_bool_def)
qed

lemma bit_on_mono: "bit_on out x \<Longrightarrow> bit_on (set_on out b) x"
  by (cases "bit_index b < length out"; cases "bit_index x = bit_index b")
     (auto simp: bit_on_bit set_on_def bit_or_iff list_update_beyond)

lemma bit_on_set: "bit_index b < length out \<Longrightarrow> bit_on (set_on out b) b"
  using low3_lt [of b] by (simp add: bit_on_bit set_on_def bit_or_iff bit_mask_bit)

lemma build_probes_Suc:
  "build_probes (Suc i) h d m out = build_probes i (h + d) d m (set_on out (h AND m))"
  by (simp add: set_on_def Let_def)

lemma query_probes_iff:
  "query_probes n h d pos filt \<longleftrightarrow> (\<forall>i<n. bit_on filt (pos (h + of_nat i * d)))"
proof (induction n arbitrary: h)
  case (Suc n)
  have "(\<forall>i<Suc n. bit_on filt (pos (h + of_nat i * d)))
      \<longleftrightarrow> bit_on filt (pos h) \<and> (\<forall>i<n. bit_on filt (pos (h + d + of_nat i * d)))"
    by (auto simp: less_Suc_eq_0_disj algebra_simps)
  with Suc show ?case by (simp add: bit_on_def Let_def)
qed simp

lemma build_probes_keep:
  "length (build_probes n h d m out) = length out \<and> (bit_on out x \<longrightarrow> bit_on (build_probes n h d m out) x)"
  by (induction n arbitrary: h out)
     (simp, simp add: build_probes_Suc bit_on_mono del: build_probes.simps)

lemma build_probes_set:
  "\<forall>h. bit_index (h AND m) < length out \<Longrightarrow> i < n \<Longrightarrow>
   bit_on (build_probes n h d m out) ((h + of_nat i * d) AND m)"
proof (induction n arbitrary: h i out)
  case (Suc n)
  show ?case
  proof (cases i)
    case 0
    then show ?thesis
      using Suc.prems(1) bit_on_set [of "h AND m" out] build_probes_keep
      by (simp only: build_probes_Suc) simp
  next
    case (Suc j)
    with Suc.IH [of "set_on out (h AND m)" j "h + d"] Suc.prems show ?thesis
      by (simp add: build_probes_Suc algebra_simps del: build_probes.simps)
  qed
qed simp

lemma build_probes_last:
  "\<forall>h. bit_index (h AND m) < N \<Longrightarrow> length out = Suc N \<Longrightarrow> build_probes n h d m out ! N = out ! N"
proof (induction n arbitrary: h out)
  case (Suc n)
  from Suc.prems(1) have "bit_index (h AND m) \<noteq> N" by (metis less_irrefl)
  then show ?case using Suc by (simp add: build_probes_Suc set_on_def del: build_probes.simps)
qed simp

lemma fold_probes:
  fixes k m N
  defines "f \<equiv> \<lambda>out h. build_probes k h (word_rotl 15 h) m out"
  assumes "\<forall>h. bit_index (h AND m) < N" "length out = Suc N"
  shows "length (foldl f out hs) = Suc N \<and> foldl f out hs ! N = out ! N
    \<and> (\<forall>x. bit_on out x \<longrightarrow> bit_on (foldl f out hs) x)
    \<and> (\<forall>h\<in>set hs. \<forall>i<k. bit_on (foldl f out hs) ((h + of_nat i * word_rotl 15 h) AND m))"
  using assms(3)
proof (induction hs arbitrary: out)
  case (Cons h hs)
  have idx: "\<forall>h. bit_index (h AND m) < length out"
    using assms(2) Cons.prems by (simp add: less_SucI)
  have len: "length (f out h) = Suc N"
    using Cons.prems build_probes_keep by (simp add: f_def)
  have last: "f out h ! N = out ! N"
    using build_probes_last [OF assms(2) Cons.prems] by (simp add: f_def)
  have keep: "bit_on out x \<Longrightarrow> bit_on (f out h) x" for x
    using build_probes_keep by (simp add: f_def)
  have new: "i < k \<Longrightarrow> bit_on (f out h) ((h + of_nat i * word_rotl 15 h) AND m)" for i
    using build_probes_set [OF idx] by (simp add: f_def)
  show ?case using Cons.IH [OF len] last keep new by simp
qed simp

lemma bit_index_div: "bit_index x = unat x div 8"
  unfolding bit_index_def by (subst unat_drop_bit_eq) (simp add: drop_bit_eq_div)

text \<open>The mask keeps every probe inside the bit array, also when the bit count wraps to zero.\<close>

lemma probe_in_range: "3 \<le> m \<Longrightarrow> bit_index (h AND (word_of_nat (2 ^ m * 8) - 1)) < 2 ^ m"
proof (cases "m < 29")
  assume m: "3 \<le> m" and lt: "m < 29"
  have p: "(2 :: nat) ^ m * 8 = 2 ^ (m + 3)" by (simp add: power_add)
  have "(2 :: nat) ^ (m + 3) < 2 ^ 32" using lt by (intro power_strict_increasing) auto
  moreover have "unat (word_of_nat x :: u32) = x" if "x < 2 ^ 32" for x
    using that by (simp add: unat_of_nat)
  ultimately have u: "unat (word_of_nat (2 ^ m * 8) :: u32) = 2 ^ m * 8" unfolding p by blast
  then have "unat (word_of_nat (2 ^ m * 8) - 1 :: u32) = 2 ^ m * 8 - 1"
    by (subst unat_sub) (auto simp: word_le_nat_alt Suc_le_eq)
  moreover have "unat (h AND (word_of_nat (2 ^ m * 8) - 1)) \<le> unat (word_of_nat (2 ^ m * 8) - 1 :: u32)"
    using word_and_le1 [of h "word_of_nat (2 ^ m * 8) - 1"] by (simp add: word_le_nat_alt)
  ultimately have "unat (h AND (word_of_nat (2 ^ m * 8) - 1)) < 2 ^ m * 8"
    by (metis One_nat_def Suc_pred le_imp_less_Suc nat_0_less_mult_iff zero_less_numeral zero_less_power)
  then show ?thesis unfolding bit_index_div by (rule less_mult_imp_div_less)
next
  assume "3 \<le> m" "\<not> m < 29"
  then have "(2 :: nat) ^ 29 \<le> 2 ^ m" by (intro power_increasing) auto
  moreover have "bit_index x < 2 ^ 29" for x
    using unsigned_less [of x, where ?'a = nat]
    unfolding bit_index_div by (simp add: less_mult_imp_div_less)
  ultimately show ?thesis by (metis less_le_trans)
qed

lemma probes_range: "1 \<le> probes b \<and> probes b \<le> 30"
  by (simp add: probes_def Let_def)

lemma build_accepts:
  "(\<forall>h\<in>set hashes. bloomMayContain (build b hashes) h)
   \<and> validateBloomFilter (build b hashes) = Inr ()
   \<and> length (build b hashes) = pow2Bytes (length hashes * bitsPerKey b) + 1"
proof -
  obtain m where m: "3 \<le> m" "pow2Bytes (length hashes * bitsPerKey b) = 2 ^ m"
    using pow2Bytes_pow2 by blast
  let ?N = "2 ^ m :: nat" and ?m = "word_of_nat (2 ^ m * 8) - 1 :: u32" and ?k = "probes b"
  let ?out = "replicate ?N 0 @ [word_of_nat ?k] :: bytes"
  have idx: "\<forall>h. bit_index (h AND ?m) < ?N" using probe_in_range [OF m(1)] by blast
  have kk: "unat (word_of_nat ?k :: byte) = ?k" using probes_range [of b] by (simp add: unat_of_nat)
  have bd: "build b hashes = foldl (\<lambda>out h. build_probes ?k h (word_rotl 15 h) ?m out) ?out hashes"
    by (simp add: build_def Let_def m(2))
  note F = fold_probes [OF idx, of ?out ?k hashes, folded bd, simplified]
  then have len: "length (build b hashes) = Suc ?N"
    and last: "build b hashes ! ?N = word_of_nat ?k"
    and on: "\<And>h i. h \<in> set hashes \<Longrightarrow> i < ?k \<Longrightarrow> bit_on (build b hashes) ((h + of_nat i * word_rotl 15 h) AND ?m)"
    by (auto simp: nth_append)
  have two: "8 \<le> ?N" using power_increasing [OF m(1), of "2 :: nat"] by simp
  have "bloomMayContain (build b hashes) h" if "h \<in> set hashes" for h
    using probes_range [of b] two on [OF that]
    by (simp add: bloomMayContain_def len last kk Let_def and_pred_pow2 [simplified] query_probes_iff)
  moreover have "validateBloomFilter (build b hashes) = Inr ()"
    using probes_range [of b] two
    by (simp add: validateBloomFilter_def len last Let_def and_pred_pow2 [simplified] word_less_nat_alt kk)
  ultimately show ?thesis by (simp add: len m(2))
qed

section \<open>Properties\<close>

text \<open>
  C18.  A bloom filter has no false negatives: querying a built filter with any
  hash it was built from answers yes, for every bits-per-key setting and every
  number of keys; and the filter passes the check made when a table is opened,
  so a built table is never refused.
\<close>

theorem bloom_no_false_negative:
  "(\<forall>h\<in>set hashes. bloomMayContain (build b hashes) h)
   \<and> validateBloomFilter (build b hashes) = Inr ()
   \<and> length (build b hashes) = pow2Bytes (length hashes * bitsPerKey b) + 1"
  by (rule build_accepts)

theorem bloom_no_false_negative_witness:
  "bloomMayContain (build (newBloom 10) [bloomHash [0x61], bloomHash [0x62]]) (bloomHash [0x62])"
  using bloom_no_false_negative [of "[bloomHash [0x61], bloomHash [0x62]]" "newBloom 10"] by simp

text \<open>
  C19.  The filter's size: the byte count is a power of two, holds the bits asked
  for, and is the least such power of two (with a floor of eight bytes).
\<close>

theorem pow2Bytes_spec:
  "(\<exists>m. pow2Bytes minBits = 2 ^ m) \<and> minBits \<le> 8 * pow2Bytes minBits \<and> 8 \<le> pow2Bytes minBits
   \<and> (pow2Bytes minBits = 8 \<or> pow2Bytes minBits < 2 * ((minBits + 7) div 8))"
proof -
  obtain m where "3 \<le> m" "pow2Bytes minBits = 2 ^ m" using pow2Bytes_pow2 by blast
  moreover from this have "8 \<le> pow2Bytes minBits" using power_increasing [of 3 m "2 :: nat"] by simp
  ultimately show ?thesis
    using pow2Bytes_holds [of minBits] pow2Bytes_least [of minBits] by fastforce
qed

end
