(* ===== verification/Table_Writer.thy ===== *)
theory Table_Writer
  imports Table_Block Rangetomb Bloom Bufio
begin

text \<open>
  The table writer (\<^verbatim>\<open>table_writer.go\<close>): data blocks, index, bloom filter,
  range-tombstone block and footer, appended through a \<^verbatim>\<open>bufio.Writer\<close> whose file
  may fail.  Once an error is recorded every later call returns it.  The
  compression scratch buffer has no value-level effect and is left out.

  The invariant \<open>tw_inv\<close> relates a live writer to the blocks it has emitted and
  the entries it holds; the lemmas show that every accepted \<open>Add\<close> extends the
  entries by exactly one, and give the finished file its layout.
\<close>

definition tableWriteBufferSize :: nat where "tableWriteBufferSize = push_bit 10 256"
definition footerLen :: nat where "footerLen = 72"
definition magic :: u64 where "magic = 0xdb1e510000000001"

record tableWriter =
  tw_w :: bufio
  tw_c :: blockCodec
  tw_bloom :: bloomFilter
  tw_blockSize :: int
  tw_offset :: u64
  tw_data :: dataBlockBuilder
  tw_index :: blockBuilder
  tw_hashes :: "u32 list"
  tw_pendingBH :: blockHandle
  tw_hasPending :: bool
  tw_firstKey :: "bytes option"
  tw_lastKey :: "bytes option"
  tw_entries :: nat
  tw_tombstones :: nat
  tw_rangeDels :: "rangeTombstone list"
  tw_err :: "error option"

definition setRangeTombstones :: "rangeTombstone list \<Rightarrow> tableWriter \<Rightarrow> tableWriter" where
  "setRangeTombstones rts tw = tw\<lparr>tw_rangeDels := rts\<rparr>"

definition bytesWritten :: "tableWriter \<Rightarrow> int" where "bytesWritten tw = sint (tw_offset tw)"

definition estimatedTrailerBytes :: "tableWriter \<Rightarrow> nat" where
  "estimatedTrailerBytes tw =
     (let indexEntryOverhead = 32;
          pendingData = (if \<not> db_empty (tw_data tw) then db_size (tw_data tw) + blockTrailerLen else 0);
          pendingIndexEntry = (if \<not> db_empty (tw_data tw)
            then length (case tw_lastKey tw of None \<Rightarrow> [] | Some k \<Rightarrow> k) + indexEntryOverhead else 0);
          bloom = pow2Bytes (tw_entries tw * bitsPerKey (tw_bloom tw)) + 1 + blockTrailerLen;
          index = length (bb_buf (tw_index tw)) + pendingIndexEntry + blockTrailerLen;
          rangeDel = (if 0 < length (tw_rangeDels tw)
            then length (encodeRangeDelBlock [] (tw_rangeDels tw)) + blockTrailerLen else 0)
      in pendingData + bloom + index + rangeDel + footerLen)"

definition minUserKey :: "tableWriter \<Rightarrow> bytes option" where
  "minUserKey tw = (case tw_firstKey tw of None \<Rightarrow> None | Some k \<Rightarrow> Some (ikeyUserKey k))"

definition maxUserKey :: "tableWriter \<Rightarrow> bytes option" where
  "maxUserKey tw = (case tw_lastKey tw of None \<Rightarrow> None | Some k \<Rightarrow> Some (ikeyUserKey k))"

record tableWriterConfig =
  cfg_codec :: blockCodec
  cfg_bloomBits :: int
  cfg_blockSize :: int

definition newTableWriter :: "os_file \<Rightarrow> tableWriterConfig \<Rightarrow> tableWriter" where
  "newTableWriter w cfg =
     \<lparr>tw_w = \<lparr>b_buf = [], b_size = tableWriteBufferSize, b_err = None, b_dst = w\<rparr>,
      tw_c = cfg_codec cfg, tw_bloom = newBloom (cfg_bloomBits cfg), tw_blockSize = cfg_blockSize cfg,
      tw_offset = 0, tw_data = newDataBlockBuilder 0, tw_index = newBlockBuilder, tw_hashes = [],
      tw_pendingBH = zeroHandle, tw_hasPending = False, tw_firstKey = None, tw_lastKey = None,
      tw_entries = 0, tw_tombstones = 0, tw_rangeDels = [], tw_err = None\<rparr>"

definition writeBlock :: "codecLib \<Rightarrow> bytes \<Rightarrow> blockCodec \<Rightarrow> tableWriter \<Rightarrow> blockHandle \<times> tableWriter" where
  "writeBlock lib payload c tw =
     (case tw_err tw of Some _ \<Rightarrow> (zeroHandle, tw)
      | None \<Rightarrow>
        let blk = finishBlock lib payload c;
            (err, w) = writeAll (tw_w tw) blk;
            tw = tw\<lparr>tw_w := w, tw_err := err\<rparr>;
            bh = \<lparr>bh_offset = tw_offset tw, bh_length = ulen blk\<rparr>
        in (bh, if tw_err tw = None then tw\<lparr>tw_offset := tw_offset tw + ulen blk\<rparr> else tw))"

definition writeRawBlock :: "codecLib \<Rightarrow> bytes \<Rightarrow> tableWriter \<Rightarrow> blockHandle \<times> tableWriter" where
  "writeRawBlock lib payload tw =
     (case tw_err tw of Some _ \<Rightarrow> (zeroHandle, tw)
      | None \<Rightarrow>
        let none = (case codecFromID codecNone of Inr c \<Rightarrow> c | Inl _ \<Rightarrow> noneCodec);
            blk = finishBlock lib payload none;
            (err, w) = writeAll (tw_w tw) blk;
            tw = tw\<lparr>tw_w := w, tw_err := err\<rparr>;
            bh = \<lparr>bh_offset = tw_offset tw, bh_length = ulen blk\<rparr>
        in (bh, if tw_err tw = None then tw\<lparr>tw_offset := tw_offset tw + ulen blk\<rparr> else tw))"

definition flushDataBlock :: "codecLib \<Rightarrow> tableWriter \<Rightarrow> tableWriter" where
  "flushDataBlock lib tw =
     (if db_empty (tw_data tw) \<or> tw_err tw \<noteq> None then tw
      else let (payload, data) = db_finish (tw_data tw);
               (bh, tw) = writeBlock lib payload (tw_c tw) (tw\<lparr>tw_data := data\<rparr>)
           in tw\<lparr>tw_data := db_reset (tw_data tw), tw_pendingBH := bh, tw_hasPending := True\<rparr>)"

text \<open>The index entry of the last flushed block (lines 169--172, repeated in \<open>finish\<close>).\<close>

definition indexPending :: "tableWriter \<Rightarrow> tableWriter" where
  "indexPending tw =
     (if tw_hasPending tw
      then tw\<lparr>tw_index := bb_add (case tw_lastKey tw of None \<Rightarrow> [] | Some k \<Rightarrow> k)
                (encodeHandle (tw_pendingBH tw) []) (tw_index tw), tw_hasPending := False\<rparr>
      else tw)"

definition tw_Add :: "codecLib \<Rightarrow> bytes \<Rightarrow> bytes \<Rightarrow> tableWriter \<Rightarrow> error option \<times> tableWriter" where
  "tw_Add lib internalKey val tw =
     (let fail = (\<lambda>e. (Some e, tw\<lparr>tw_err := Some e\<rparr>))
      in if tw_err tw \<noteq> None then (tw_err tw, tw)
      else if length internalKey < trailerLen then fail (Errorf ''table: short internal key'')
      else let (_, kind) = ikeySeqKind internalKey
      in if \<not> validIKeyKind kind then fail (Errorf ''table: unknown internal-key kind'')
      else if (case tw_lastKey tw of None \<Rightarrow> False | Some k \<Rightarrow> ikeyCompare internalKey k \<le> 0)
           then fail (Errorf ''table: keys added out of order'')
      else
        let tw = indexPending tw;
            tw = tw\<lparr>tw_data := db_add internalKey val (tw_data tw),
                    tw_hashes := tw_hashes tw @ [bloomHash (ikeyUserKey internalKey)],
                    tw_firstKey := (case tw_firstKey tw of None \<Rightarrow> Some internalKey | Some k \<Rightarrow> Some k),
                    tw_lastKey := Some internalKey,
                    tw_entries := tw_entries tw + 1,
                    tw_tombstones := (if kind = ikeyKindDelete then tw_tombstones tw + 1 else tw_tombstones tw)\<rparr>;
            tw = (if tw_blockSize tw \<le> int (db_size (tw_data tw)) then flushDataBlock lib tw else tw)
        in (tw_err tw, tw))"

definition encodeFooter :: "blockHandle \<Rightarrow> blockHandle \<Rightarrow> blockHandle \<Rightarrow> bytes" where
  "encodeFooter index filterBH rangeDelBH =
     (let p = encodeHandle rangeDelBH (encodeHandle filterBH (encodeHandle index []));
          buf = take footerLen (p @ replicate (footerLen - length p) 0)
      in take (footerLen - 8) buf @ PutUint64 magic)"

definition tw_finish :: "codecLib \<Rightarrow> tableWriter \<Rightarrow> int result \<times> tableWriter" where
  "tw_finish lib tw =
     (case tw_err tw of Some err \<Rightarrow> (Inl err, tw)
      | None \<Rightarrow>
        let tw = flushDataBlock lib tw;
            tw = indexPending tw;
            (rangeDelBH, tw) = (if 0 < length (tw_rangeDels tw)
              then writeRawBlock lib (encodeRangeDelBlock [] (tw_rangeDels tw)) tw else (zeroHandle, tw));
            filterBytes = build (tw_bloom tw) (tw_hashes tw);
            (filterBH, tw) = writeRawBlock lib filterBytes tw;
            (indexBH, tw) = writeBlock lib (bb_buf (tw_index tw)) (tw_c tw) tw
        in case tw_err tw of Some err \<Rightarrow> (Inl err, tw)
           | None \<Rightarrow>
             let footer = encodeFooter indexBH filterBH rangeDelBH;
                 (err, w) = writeAll (tw_w tw) footer; tw = tw\<lparr>tw_w := w\<rparr>
             in case err of Some err \<Rightarrow> (Inl err, tw)
                | None \<Rightarrow>
                  let tw = tw\<lparr>tw_offset := tw_offset tw + ulen footer\<rparr>;
                      (err, w) = bufio_Flush (tw_w tw); tw = tw\<lparr>tw_w := w\<rparr>
                  in case err of Some err \<Rightarrow> (Inl err, tw)
                     | None \<Rightarrow> (Inr (sint (tw_offset tw)), tw))"

section \<open>The layout of a table\<close>

text \<open>A block of the table under construction: its payload and the entries it holds.\<close>

type_synonym dblock = "bytes \<times> (bytes \<times> bytes) list"

definition data_payload :: "dblock \<Rightarrow> bool" where
  "data_payload blk \<longleftrightarrow> snd blk \<noteq> [] \<and> (\<exists>b. db_inv (snd blk) b \<and> fst blk = fst (db_finish b))"

definition raw_blocks :: "codecLib \<Rightarrow> blockCodec \<Rightarrow> dblock list \<Rightarrow> bytes list" where
  "raw_blocks lib c blks = map (\<lambda>blk. finishBlock lib (fst blk) c) blks"

fun handles_from :: "nat \<Rightarrow> bytes list \<Rightarrow> blockHandle list" where
  "handles_from off [] = []"
| "handles_from off (r # rs) = \<lparr>bh_offset = word_of_nat off, bh_length = ulen r\<rparr> # handles_from (off + length r) rs"

lemma length_handles_from [simp]: "length (handles_from off rs) = length rs"
  by (induction rs arbitrary: off) auto

lemma handles_from_append:
  "handles_from off (rs @ qs) = handles_from off rs @ handles_from (off + length (concat rs)) qs"
  by (induction rs arbitrary: off) (simp_all add: add.assoc)

definition index_entries :: "codecLib \<Rightarrow> blockCodec \<Rightarrow> dblock list \<Rightarrow> (bytes \<times> bytes) list" where
  "index_entries lib c blks =
     map2 (\<lambda>blk h. (fst (last (snd blk)), encodeHandle h [])) blks (handles_from 0 (raw_blocks lib c blks))"

lemma index_entries_snoc:
  "index_entries lib c (blks @ [blk]) = index_entries lib c blks
     @ [(fst (last (snd blk)), encodeHandle \<lparr>bh_offset = word_of_nat (length (concat (raw_blocks lib c blks))),
          bh_length = ulen (finishBlock lib (fst blk) c)\<rparr> [])]"
  by (simp add: index_entries_def raw_blocks_def handles_from_append)

definition flat :: "(bytes \<times> bytes) list \<Rightarrow> bytes" where "flat kvs = concat (map flat_entry kvs)"

definition table_layout :: "codecLib \<Rightarrow> tableWriter \<Rightarrow> dblock list \<Rightarrow> rangeTombstone list \<Rightarrow> bytes \<Rightarrow> bytes" where
  "table_layout lib tw blks rts filt =
     (let data = concat (raw_blocks lib (tw_c tw) blks);
          rd = (if rts = [] then [] else finishBlock lib (encodeRangeDelBlock [] rts) noneCodec);
          flt = finishBlock lib filt noneCodec;
          idx = finishBlock lib (flat (index_entries lib (tw_c tw) blks)) (tw_c tw);
          h = (\<lambda>off b. \<lparr>bh_offset = word_of_nat off, bh_length = ulen b\<rparr>);
          o1 = length data; o2 = o1 + length rd; o3 = o2 + length flt
      in data @ rd @ flt @ idx
         @ encodeFooter (h o3 idx) (h o2 flt) (if rts = [] then zeroHandle else h o1 rd))"

section \<open>A live writer\<close>

definition wf_kv :: "bytes \<times> bytes \<Rightarrow> bool" where
  "wf_kv kv \<longleftrightarrow> valid_ikey (fst kv) \<and> validIKeyKind (ikeyKindOf (fst kv))"

definition tw_live :: "codecLib \<Rightarrow> (bytes \<times> bytes) list \<Rightarrow> dblock list \<Rightarrow> tableWriter \<Rightarrow> bool" where
  "tw_live lib kvs blks tw \<longleftrightarrow>
     tw_err tw = None \<and> b_err (tw_w tw) = None
     \<and> logical (tw_w tw) = concat (raw_blocks lib (tw_c tw) blks)
     \<and> tw_offset tw = ulen (concat (raw_blocks lib (tw_c tw) blks))
     \<and> list_all data_payload blks
     \<and> (\<exists>cur. kvs = concat (map snd blks) @ cur \<and> db_inv cur (tw_data tw) \<and> (tw_hasPending tw \<longrightarrow> cur = []))
     \<and> tw_hashes tw = map (bloomHash \<circ> ikeyUserKey \<circ> fst) kvs
     \<and> tw_firstKey tw = (if kvs = [] then None else Some (fst (hd kvs)))
     \<and> tw_lastKey tw = (if kvs = [] then None else Some (fst (last kvs)))
     \<and> tw_entries tw = length kvs
     \<and> tw_tombstones tw = length (filter (\<lambda>kv. ikeyKindOf (fst kv) = ikeyKindDelete) kvs)
     \<and> sorted_entries kvs \<and> list_all wf_kv kvs
     \<and> (if tw_hasPending tw
        then \<exists>bs blk. blks = bs @ [blk] \<and> bb_buf (tw_index tw) = flat (index_entries lib (tw_c tw) bs)
               \<and> tw_pendingBH tw = \<lparr>bh_offset = ulen (concat (raw_blocks lib (tw_c tw) bs)),
                    bh_length = ulen (finishBlock lib (fst blk) (tw_c tw))\<rparr>
        else bb_buf (tw_index tw) = flat (index_entries lib (tw_c tw) blks))"

lemma writeRawBlock_none: "writeRawBlock lib payload tw = writeBlock lib payload noneCodec tw"
proof -
  have "codecFromID codecNone = Inr noneCodec" using codecFromID_id [of noneCodec] by simp
  then show ?thesis by (simp add: writeRawBlock_def writeBlock_def Let_def split: option.split)
qed

lemma writeBlock_ok:
  assumes "tw_err tw = None" "b_err (tw_w tw) = None" "writeBlock lib p c tw = (bh, tw')" "tw_err tw' = None"
  shows "\<exists>w. tw' = tw\<lparr>tw_w := w, tw_offset := tw_offset tw + ulen (finishBlock lib p c)\<rparr>
    \<and> b_err w = None \<and> logical w = logical (tw_w tw) @ finishBlock lib p c
    \<and> bh = \<lparr>bh_offset = tw_offset tw, bh_length = ulen (finishBlock lib p c)\<rparr>"
proof -
  obtain e w where w: "writeAll (tw_w tw) (finishBlock lib p c) = (e, w)" by fastforce
  have "e = None" using assms w by (auto simp: writeBlock_def Let_def split: if_splits)
  with writeAll_ok [OF assms(2) w] assms w show ?thesis
    by (auto simp: writeBlock_def Let_def accepted_def intro!: exI [of _ w])
qed

lemma writeBlock_err: "writeBlock lib p c tw = (bh, tw') \<Longrightarrow> tw_err tw = Some e \<Longrightarrow> tw' = tw"
  by (simp add: writeBlock_def)

lemma flat_append [simp]: "flat (xs @ ys) = flat xs @ flat ys" "flat [kv] = flat_entry kv" "flat [] = []"
  by (simp_all add: flat_def)

lemma indexPending_live:
  assumes "tw_live lib kvs blks tw"
  shows "tw_live lib kvs blks (indexPending tw) \<and> \<not> tw_hasPending (indexPending tw)
    \<and> tw_data (indexPending tw) = tw_data tw \<and> tw_c (indexPending tw) = tw_c tw
    \<and> tw_bloom (indexPending tw) = tw_bloom tw \<and> tw_rangeDels (indexPending tw) = tw_rangeDels tw"
proof (cases "tw_hasPending tw")
  case True
  then obtain bs blk where b: "blks = bs @ [blk]" "bb_buf (tw_index tw) = flat (index_entries lib (tw_c tw) bs)"
    "tw_pendingBH tw = \<lparr>bh_offset = ulen (concat (raw_blocks lib (tw_c tw) bs)),
                    bh_length = ulen (finishBlock lib (fst blk) (tw_c tw))\<rparr>"
    and k: "kvs = concat (map snd blks)" and d: "list_all data_payload blks"
    and l: "tw_lastKey tw = (if kvs = [] then None else Some (fst (last kvs)))"
    using assms by (auto simp: tw_live_def)
  have "snd blk \<noteq> []" using d b(1) by (auto simp: data_payload_def)
  then have "kvs \<noteq> [] \<and> last kvs = last (snd blk)" using k b(1) by simp
  then have "bb_buf (tw_index (indexPending tw)) = flat (index_entries lib (tw_c tw) blks)"
    using True b l by (simp add: indexPending_def bb_buf_add index_entries_snoc)
  moreover have "\<exists>cur. kvs = concat (map snd blks) @ cur \<and> db_inv cur (tw_data tw)"
    using assms by (auto simp: tw_live_def)
  ultimately show ?thesis using assms True unfolding tw_live_def
    by (simp add: indexPending_def) (elim conjE, simp)
qed (simp add: assms indexPending_def)

text \<open>The blocks after a flush: the entries still in the builder become a block of their own.\<close>

definition flushed_blocks :: "tableWriter \<Rightarrow> (bytes \<times> bytes) list \<Rightarrow> dblock list \<Rightarrow> dblock list" where
  "flushed_blocks tw kvs blks =
     (if db_empty (tw_data tw) then blks
      else blks @ [(fst (db_finish (tw_data tw)), drop (length (concat (map snd blks))) kvs)])"

lemma flushDataBlock_live:
  assumes "tw_live lib kvs blks tw" "\<not> tw_hasPending tw" "tw_err (flushDataBlock lib tw) = None"
  shows "tw_live lib kvs (flushed_blocks tw kvs blks) (flushDataBlock lib tw)
    \<and> db_inv [] (tw_data (flushDataBlock lib tw))
    \<and> concat (map snd (flushed_blocks tw kvs blks)) = kvs \<and> tw_c (flushDataBlock lib tw) = tw_c tw
    \<and> tw_bloom (flushDataBlock lib tw) = tw_bloom tw \<and> tw_rangeDels (flushDataBlock lib tw) = tw_rangeDels tw"
proof -
  obtain cur where cur: "kvs = concat (map snd blks) @ cur" "db_inv cur (tw_data tw)"
    and e: "tw_err tw = None" "b_err (tw_w tw) = None" using assms(1) by (auto simp: tw_live_def)
  show ?thesis
  proof (cases "db_empty (tw_data tw)")
    case True
    then have "cur = []" using cur(2) by (auto simp: db_inv_def db_empty_def)
    then show ?thesis using True assms(1) cur by (simp add: flushDataBlock_def flushed_blocks_def)
  next
    case False
    then have ne: "cur \<noteq> []" using cur(2) by (auto simp: db_inv_def db_empty_def)
    define p where "p = fst (db_finish (tw_data tw))"
    define blk where "blk = (p, cur)"
    let ?tw = "tw\<lparr>tw_data := snd (db_finish (tw_data tw))\<rparr>"
    obtain bh tw1 where w: "writeBlock lib p (tw_c tw) ?tw = (bh, tw1)" by fastforce
    have f: "flushDataBlock lib tw = tw1\<lparr>tw_data := db_reset (tw_data tw1), tw_pendingBH := bh, tw_hasPending := True\<rparr>"
      using False e w by (simp add: flushDataBlock_def p_def split_beta)
    have "tw_err tw1 = None" using assms(3) f by simp
    then obtain v where v: "tw1 = ?tw\<lparr>tw_w := v, tw_offset := tw_offset tw + ulen (finishBlock lib p (tw_c tw))\<rparr>"
      "b_err v = None" "logical v = logical (tw_w tw) @ finishBlock lib p (tw_c tw)"
      "bh = \<lparr>bh_offset = tw_offset tw, bh_length = ulen (finishBlock lib p (tw_c tw))\<rparr>"
      using writeBlock_ok [OF _ _ w] e by auto
    have dp: "data_payload blk" using ne cur(2) by (auto simp: data_payload_def blk_def p_def)
    have "tw_live lib kvs (blks @ [blk]) (flushDataBlock lib tw)"
      using assms(1,2) cur v dp unfolding tw_live_def f
      by (auto simp: raw_blocks_def blk_def db_inv_reset)
    moreover have "flushed_blocks tw kvs blks = blks @ [blk]"
      using False cur(1) by (simp add: flushed_blocks_def blk_def p_def)
    ultimately show ?thesis using cur f v by (simp add: blk_def db_inv_reset)
  qed
qed

lemma sorted_entries_snoc:
  assumes "sorted_entries kvs" "valid_ikey k" "kvs \<noteq> [] \<Longrightarrow> 0 < ikeyCompare k (fst (last kvs))"
  shows "sorted_entries (kvs @ [(k, v)])"
proof -
  have "ikeyCompare (fst kv) k < 0" if "kv \<in> set kvs" for kv
  proof -
    have ne: "kvs \<noteq> []" using that by auto
    have v: "\<And>x. x \<in> set kvs \<Longrightarrow> valid_ikey (fst x)" using assms(1) by (simp add: sorted_entries_def)
    have lt: "ikeyCompare (fst (last kvs)) k < 0"
      using assms(2,3) ne v [OF last_in_set [OF ne]] ik.cmp_swap by simp
    have "kvs = butlast kvs @ [last kvs]" using ne by simp
    then have "sorted_wrt (\<lambda>a b. ikeyCompare (fst a) (fst b) < 0) (butlast kvs @ [last kvs])"
      using assms(1) by (simp add: sorted_entries_def)
    then have "kv = last kvs \<or> ikeyCompare (fst kv) (fst (last kvs)) < 0"
      using that ne by (cases kvs rule: rev_cases) (auto simp: sorted_wrt_append)
    then show ?thesis
      using lt ik.cmp_trans [OF v [OF that] v [OF last_in_set [OF ne]] assms(2)] by auto
  qed
  then show ?thesis using assms by (auto simp: sorted_entries_def sorted_wrt_append)
qed

text \<open>An accepted \<open>Add\<close> extends the entries by exactly the one given.\<close>

lemma tw_Add_live:
  assumes "tw_live lib kvs blks tw" "tw_Add lib k v tw = (None, tw')"
  shows "\<exists>blks'. tw_live lib (kvs @ [(k, v)]) blks' tw' \<and> tw_c tw' = tw_c tw \<and> tw_bloom tw' = tw_bloom tw
    \<and> tw_rangeDels tw' = tw_rangeDels tw"
proof -
  define kind where "kind = ikeyKindOf k"
  have e: "tw_err tw = None" and l: "tw_lastKey tw = (if kvs = [] then None else Some (fst (last kvs)))"
    and srt: "sorted_entries kvs"
    using assms(1) by (auto simp: tw_live_def)
  define tw1 where "tw1 = indexPending tw"
  define tw2 where "tw2 = tw1\<lparr>tw_data := db_add k v (tw_data tw1),
                    tw_hashes := tw_hashes tw1 @ [bloomHash (ikeyUserKey k)],
                    tw_firstKey := (case tw_firstKey tw1 of None \<Rightarrow> Some k | Some k \<Rightarrow> Some k),
                    tw_lastKey := Some k,
                    tw_entries := tw_entries tw1 + 1,
                    tw_tombstones := (if kind = ikeyKindDelete then tw_tombstones tw1 + 1 else tw_tombstones tw1)\<rparr>"
  have guards: "valid_ikey k" "validIKeyKind kind"
    "kvs \<noteq> [] \<Longrightarrow> 0 < ikeyCompare k (fst (last kvs))"
    using assms(2) e l by (auto simp: tw_Add_def Let_def valid_ikey_def kind_def split: if_splits prod.splits)
  then have res: "tw' = (if tw_blockSize tw2 \<le> int (db_size (tw_data tw2)) then flushDataBlock lib tw2 else tw2)"
    and err: "tw_err tw' = None"
    using assms(2) e l
    by (auto simp: tw_Add_def Let_def valid_ikey_def kind_def tw1_def tw2_def not_less not_le split_beta split: if_splits)
  have i: "tw_live lib kvs blks tw1" "\<not> tw_hasPending tw1" "tw_c tw1 = tw_c tw" "tw_bloom tw1 = tw_bloom tw"
    "tw_rangeDels tw1 = tw_rangeDels tw"
    using indexPending_live [OF assms(1)] by (simp_all add: tw1_def)
  have "sorted_entries (kvs @ [(k, v)])"
    using srt guards by (intro sorted_entries_snoc)
  moreover have "\<exists>cur. kvs @ [(k, v)] = concat (map snd blks) @ cur \<and> db_inv cur (tw_data tw2)"
  proof -
    obtain cur where "kvs = concat (map snd blks) @ cur" "db_inv cur (tw_data tw1)"
      using i(1) by (auto simp: tw_live_def)
    then show ?thesis by (intro exI [of _ "cur @ [(k, v)]"]) (simp add: tw2_def db_inv_add)
  qed
  ultimately have "tw_live lib (kvs @ [(k, v)]) blks tw2" "\<not> tw_hasPending tw2"
    using i guards(1,2) unfolding tw_live_def
    by (simp_all add: tw2_def wf_kv_def kind_def)
  then show ?thesis using flushDataBlock_live [of lib "kvs @ [(k, v)]" blks tw2] err i
    by (cases "tw_blockSize tw2 \<le> int (db_size (tw_data tw2))") (auto simp: res tw2_def)
qed

section \<open>Finishing\<close>

lemma writeBlock_err_before: "writeBlock lib p c tw = (bh, tw') \<Longrightarrow> tw_err tw' = None \<Longrightarrow> tw_err tw = None"
  by (cases "tw_err tw") (auto simp: writeBlock_def)

text \<open>The three trailing blocks and the footer, after the data blocks are out.\<close>

definition tw_trailer :: "codecLib \<Rightarrow> tableWriter \<Rightarrow> int result \<times> tableWriter" where
  "tw_trailer lib tw =
     (let (rangeDelBH, tw) = (if 0 < length (tw_rangeDels tw)
            then writeBlock lib (encodeRangeDelBlock [] (tw_rangeDels tw)) noneCodec tw else (zeroHandle, tw));
          (filterBH, tw) = writeBlock lib (build (tw_bloom tw) (tw_hashes tw)) noneCodec tw;
          (indexBH, tw) = writeBlock lib (bb_buf (tw_index tw)) (tw_c tw) tw
      in case tw_err tw of Some err \<Rightarrow> (Inl err, tw)
         | None \<Rightarrow>
           let footer = encodeFooter indexBH filterBH rangeDelBH;
               (err, w) = writeAll (tw_w tw) footer; tw = tw\<lparr>tw_w := w\<rparr>
           in case err of Some err \<Rightarrow> (Inl err, tw)
              | None \<Rightarrow>
                let tw = tw\<lparr>tw_offset := tw_offset tw + ulen footer\<rparr>;
                    (err, w) = bufio_Flush (tw_w tw); tw = tw\<lparr>tw_w := w\<rparr>
                in case err of Some err \<Rightarrow> (Inl err, tw)
                   | None \<Rightarrow> (Inr (sint (tw_offset tw)), tw))"

lemma tw_finish_trailer:
  "tw_err tw = None \<Longrightarrow> tw_finish lib tw = tw_trailer lib (indexPending (flushDataBlock lib tw))"
  by (simp add: tw_finish_def tw_trailer_def writeRawBlock_none Let_def)

lemma ulen_append: "ulen (xs @ ys) = ulen xs + ulen ys"
  by simp

lemma tw_trailer_layout:
  assumes live: "tw_live lib kvs blks tw" and "\<not> tw_hasPending tw"
    and t: "tw_trailer lib tw = (Inr n, tw')"
  defines "file \<equiv> table_layout lib tw blks (tw_rangeDels tw) (build (tw_bloom tw) (tw_hashes tw))"
  shows "dst_data (tw_w tw') = file \<and> n = sint (ulen file)"
proof -
  let ?rts = "tw_rangeDels tw"
  have e: "tw_err tw = None" "b_err (tw_w tw) = None"
    and l0: "logical (tw_w tw) = concat (raw_blocks lib (tw_c tw) blks)"
    and o0: "tw_offset tw = ulen (concat (raw_blocks lib (tw_c tw) blks))"
    and ix: "bb_buf (tw_index tw) = flat (index_entries lib (tw_c tw) blks)"
    using assms(1,2) by (auto simp: tw_live_def)
  obtain rh tw1 where r: "(if 0 < length ?rts
      then writeBlock lib (encodeRangeDelBlock [] ?rts) noneCodec tw else (zeroHandle, tw)) = (rh, tw1)" by fastforce
  obtain fh tw2 where f: "writeBlock lib (build (tw_bloom tw1) (tw_hashes tw1)) noneCodec tw1 = (fh, tw2)" by fastforce
  obtain ih tw3 where i: "writeBlock lib (bb_buf (tw_index tw2)) (tw_c tw2) tw2 = (ih, tw3)" by fastforce
  let ?foot = "encodeFooter ih fh rh"
  obtain e4 w4 where w: "writeAll (tw_w tw3) ?foot = (e4, w4)" by fastforce
  obtain e5 w5 where fl: "bufio_Flush w4 = (e5, w5)" by fastforce
  have e3: "tw_err tw3 = None" and e45: "e4 = None" "e5 = None"
    and res: "n = sint (tw_offset tw3 + ulen ?foot)" "tw_w tw' = w5"
    using t unfolding tw_trailer_def r f i Let_def prod.case
    by (auto simp: w fl split: option.splits)
  have e2: "tw_err tw2 = None" using i e3 by (rule writeBlock_err_before)
  have e1: "tw_err tw1 = None" using f e2 by (rule writeBlock_err_before)
  define rd where "rd = (if ?rts = [] then [] else finishBlock lib (encodeRangeDelBlock [] ?rts) noneCodec)"
  obtain v1 where v1: "tw1 = tw\<lparr>tw_w := v1, tw_offset := tw_offset tw + ulen rd\<rparr>" "b_err v1 = None"
    "logical v1 = logical (tw_w tw) @ rd"
    "rh = (if ?rts = [] then zeroHandle else \<lparr>bh_offset = tw_offset tw, bh_length = ulen rd\<rparr>)"
  proof (cases "?rts = []")
    case True
    then show ?thesis using that [of "tw_w tw"] r e by (simp add: rd_def)
  next
    case False
    then have "writeBlock lib (encodeRangeDelBlock [] ?rts) noneCodec tw = (rh, tw1)" using r by simp
    from writeBlock_ok [OF e this e1] obtain w where
      "tw1 = tw\<lparr>tw_w := w, tw_offset := tw_offset tw + ulen rd\<rparr>" "b_err w = None"
      "logical w = logical (tw_w tw) @ rd" "rh = \<lparr>bh_offset = tw_offset tw, bh_length = ulen rd\<rparr>"
      using False by (auto simp: rd_def)
    then show ?thesis using that [of w] False by simp
  qed
  define flt where "flt = finishBlock lib (build (tw_bloom tw) (tw_hashes tw)) noneCodec"
  obtain v2 where v2: "tw2 = tw1\<lparr>tw_w := v2, tw_offset := tw_offset tw1 + ulen flt\<rparr>" "b_err v2 = None"
    "logical v2 = logical v1 @ flt" "fh = \<lparr>bh_offset = tw_offset tw1, bh_length = ulen flt\<rparr>"
    using writeBlock_ok [OF e1 _ f e2] v1 by (auto simp: flt_def)
  define idx where "idx = finishBlock lib (flat (index_entries lib (tw_c tw) blks)) (tw_c tw)"
  obtain v3 where v3: "tw3 = tw2\<lparr>tw_w := v3, tw_offset := tw_offset tw2 + ulen idx\<rparr>" "b_err v3 = None"
    "logical v3 = logical v2 @ idx" "ih = \<lparr>bh_offset = tw_offset tw2, bh_length = ulen idx\<rparr>"
    using writeBlock_ok [OF e2 _ i e3] v1 v2 ix by (auto simp: idx_def)
  define data where "data = concat (raw_blocks lib (tw_c tw) blks)"
  have fileq: "file = data @ rd @ flt @ idx @ ?foot"
    using v1 v2 v3 o0
    by (simp add: file_def table_layout_def Let_def rd_def flt_def idx_def data_def add.assoc)
  have "accepted v3 ?foot None w4" using writeAll_ok [of v3 ?foot] w v3 e45 by simp
  then have l4: "logical w4 = logical v3 @ ?foot" "b_err w4 = None" by (simp_all add: accepted_def)
  have "accepted w4 [] None w5" "b_buf w5 = []" using bufio_Flush_ok [OF l4(2) fl] e45 by simp_all
  then have "dst_data w5 = logical w4" by (simp add: accepted_def)
  also have "\<dots> = file" unfolding l4 v3(3) v2(3) v1(3) l0 fileq by (simp add: data_def)
  finally have "dst_data w5 = file" .
  moreover have "tw_offset tw3 + ulen ?foot = ulen file"
    using v1 v2 v3 o0 by (simp add: fileq data_def add.assoc)
  ultimately show ?thesis using res by simp
qed

lemma tw_trailer_err: "tw_err tw = Some e \<Longrightarrow> \<exists>e'. fst (tw_trailer lib tw) = Inl e'"
proof -
  assume e: "tw_err tw = Some e"
  then have w: "writeBlock lib p c tw = (zeroHandle, tw)" for p c by (simp add: writeBlock_def)
  show ?thesis using e by (simp add: tw_trailer_def w)
qed

lemma tw_finish_layout:
  assumes "tw_live lib kvs blks tw" "tw_finish lib tw = (Inr n, tw')"
  shows "concat (map snd (flushed_blocks tw kvs blks)) = kvs \<and> list_all data_payload (flushed_blocks tw kvs blks)
    \<and> (let file = table_layout lib tw (flushed_blocks tw kvs blks) (tw_rangeDels tw)
                    (build (tw_bloom tw) (map (bloomHash \<circ> ikeyUserKey \<circ> fst) kvs))
       in dst_data (tw_w tw') = file \<and> n = sint (ulen file))"
proof -
  have e: "tw_err tw = None" using assms(1) by (simp add: tw_live_def)
  have fin: "tw_trailer lib (indexPending (flushDataBlock lib tw)) = (Inr n, tw')"
    using tw_finish_trailer [OF e, of lib] assms(2) by simp
  define tw1 where "tw1 = flushDataBlock lib tw"
  have e1: "tw_err tw1 = None"
  proof (cases "tw_err tw1")
    case (Some x)
    then have "tw_err (indexPending tw1) = Some x" by (simp add: indexPending_def)
    then obtain e' where "fst (tw_trailer lib (indexPending tw1)) = Inl e'" using tw_trailer_err by blast
    then show ?thesis using fin by (simp add: tw1_def)
  qed simp
  let ?b = "flushed_blocks tw kvs blks"
  have b: "tw_live lib kvs ?b tw1 \<and> concat (map snd ?b) = kvs \<and> tw_c tw1 = tw_c tw
      \<and> tw_bloom tw1 = tw_bloom tw \<and> tw_rangeDels tw1 = tw_rangeDels tw"
  proof (cases "tw_hasPending tw")
    case False
    then show ?thesis using flushDataBlock_live [OF assms(1) False] e1 by (auto simp: tw1_def)
  next
    case True
    then have "db_empty (tw_data tw)" "concat (map snd blks) = kvs"
      using assms(1) by (auto simp: tw_live_def db_inv_def db_empty_def)
    then show ?thesis using assms(1) by (auto simp: tw1_def flushDataBlock_def flushed_blocks_def)
  qed
  then have "tw_live lib kvs ?b tw1" by simp
  note ip = indexPending_live [OF this]
  have h: "tw_hashes (indexPending tw1) = map (bloomHash \<circ> ikeyUserKey \<circ> fst) kvs"
    "list_all data_payload ?b" using ip by (auto simp: tw_live_def)
  have "table_layout lib (indexPending tw1) = table_layout lib tw"
    using ip b by (simp add: table_layout_def fun_eq_iff)
  then show ?thesis
    using tw_trailer_layout [of lib kvs ?b "indexPending tw1" n tw'] fin ip b h
    by (simp add: tw1_def)
qed

section \<open>Whole tables\<close>

fun tw_adds :: "codecLib \<Rightarrow> (bytes \<times> bytes) list \<Rightarrow> tableWriter \<Rightarrow> error option \<times> tableWriter" where
  "tw_adds lib [] tw = (None, tw)"
| "tw_adds lib ((k, v) # kvs) tw =
     (let (err, tw) = tw_Add lib k v tw
      in case err of Some e \<Rightarrow> (Some e, tw) | None \<Rightarrow> tw_adds lib kvs tw)"

lemma tw_live_new: "f_data w = [] \<Longrightarrow> tw_live lib [] [] (newTableWriter w cfg)"
  by (simp add: tw_live_def newTableWriter_def raw_blocks_def db_inv_new newBlockBuilder_def index_entries_def
      sorted_entries_def)

lemma tw_live_rangeDels: "tw_live lib kvs blks (setRangeTombstones rts tw) = tw_live lib kvs blks tw"
  by (simp add: tw_live_def setRangeTombstones_def)

lemma tw_adds_live:
  "tw_live lib xs blks tw \<Longrightarrow> tw_adds lib kvs tw = (None, tw') \<Longrightarrow>
   (\<exists>blks'. tw_live lib (xs @ kvs) blks' tw') \<and> tw_c tw' = tw_c tw \<and> tw_bloom tw' = tw_bloom tw
     \<and> tw_rangeDels tw' = tw_rangeDels tw"
proof (induction kvs arbitrary: xs blks tw)
  case (Cons kv kvs)
  obtain k v where kv: "kv = (k, v)" by fastforce
  obtain e tw1 where a: "tw_Add lib k v tw = (e, tw1)" by fastforce
  with Cons.prems kv have e: "e = None" and r: "tw_adds lib kvs tw1 = (None, tw')"
    by (auto split: option.splits)
  from tw_Add_live [OF Cons.prems(1)] a e obtain blks1 where
    "tw_live lib (xs @ [(k, v)]) blks1 tw1" "tw_c tw1 = tw_c tw" "tw_bloom tw1 = tw_bloom tw"
    "tw_rangeDels tw1 = tw_rangeDels tw" by blast
  with Cons.IH [OF _ r, of "xs @ [(k, v)]" blks1] kv show ?case by simp
qed auto

text \<open>The whole life of a writer: entries, range tombstones, finish.\<close>

definition write_table ::
  "codecLib \<Rightarrow> tableWriterConfig \<Rightarrow> os_file \<Rightarrow> (bytes \<times> bytes) list \<Rightarrow> rangeTombstone list \<Rightarrow> int result \<times> tableWriter" where
  "write_table lib cfg w kvs rts =
     (case tw_adds lib kvs (newTableWriter w cfg) of (Some e, tw) \<Rightarrow> (Inl e, tw)
      | (None, tw) \<Rightarrow> tw_finish lib (setRangeTombstones rts tw))"

text \<open>\<open>table_of\<close>: the file holds a finished table with these entries and range tombstones.\<close>

definition table_of ::
  "codecLib \<Rightarrow> tableWriterConfig \<Rightarrow> (bytes \<times> bytes) list \<Rightarrow> rangeTombstone list \<Rightarrow> dblock list \<Rightarrow> bytes \<Rightarrow> bool" where
  "table_of lib cfg kvs rts blks file \<longleftrightarrow>
     concat (map snd blks) = kvs \<and> list_all data_payload blks \<and> sorted_entries kvs \<and> list_all wf_kv kvs
     \<and> file = table_layout lib (newTableWriter \<lparr>f_data = [], f_sched = []\<rparr> cfg) blks rts
                (build (newBloom (cfg_bloomBits cfg)) (map (bloomHash \<circ> ikeyUserKey \<circ> fst) kvs))"

lemma write_table_of:
  assumes "f_data w = []" "write_table lib cfg w kvs rts = (Inr n, tw)"
  shows "\<exists>blks. table_of lib cfg kvs rts blks (dst_data (tw_w tw)) \<and> n = sint (ulen (dst_data (tw_w tw)))"
proof -
  let ?w = "newTableWriter w cfg"
  obtain tw1 where a: "tw_adds lib kvs ?w = (None, tw1)" and f: "tw_finish lib (setRangeTombstones rts tw1) = (Inr n, tw)"
    using assms(2) by (auto simp: write_table_def split: option.splits prod.splits)
  from tw_adds_live [OF tw_live_new [OF assms(1)] a] obtain blks where
    l: "tw_live lib kvs blks tw1" "tw_c tw1 = tw_c ?w" "tw_bloom tw1 = tw_bloom ?w" by auto
  let ?s = "setRangeTombstones rts tw1"
  have ls: "tw_live lib kvs blks ?s" using l(1) by (simp add: tw_live_rangeDels)
  have eqs: "tw_rangeDels ?s = rts" "tw_bloom ?s = newBloom (cfg_bloomBits cfg)" "tw_c ?s = cfg_codec cfg"
    using l by (simp_all add: setRangeTombstones_def newTableWriter_def)
  then have "table_layout lib ?s = table_layout lib (newTableWriter \<lparr>f_data = [], f_sched = []\<rparr> cfg)"
    by (simp add: table_layout_def fun_eq_iff newTableWriter_def)
  with tw_finish_layout [OF ls f] l(1) eqs show ?thesis
    by (intro exI [of _ "flushed_blocks ?s kvs blks"]) (simp add: table_of_def Let_def tw_live_def)
qed

section \<open>Without failures\<close>

lemma writeBlock_healthy:
  assumes "healthy (tw_w tw)" "tw_err tw = None" "writeBlock lib p c tw = (bh, tw')"
  shows "healthy (tw_w tw') \<and> tw_err tw' = None"
proof -
  obtain e w where w: "writeAll (tw_w tw) (finishBlock lib p c) = (e, w)" by fastforce
  from writeAll_healthy [OF assms(1) w] assms(2,3) w show ?thesis by (auto simp: writeBlock_def Let_def)
qed

lemma flushDataBlock_healthy:
  assumes "healthy (tw_w tw)" "tw_err tw = None"
  shows "healthy (tw_w (flushDataBlock lib tw)) \<and> tw_err (flushDataBlock lib tw) = None"
proof (cases "db_empty (tw_data tw)")
  case False
  let ?tw = "tw\<lparr>tw_data := snd (db_finish (tw_data tw))\<rparr>"
  obtain bh tw1 where w: "writeBlock lib (fst (db_finish (tw_data tw))) (tw_c tw) ?tw = (bh, tw1)" by fastforce
  from writeBlock_healthy [OF _ _ w] assms False w show ?thesis
    by (simp add: flushDataBlock_def split_beta)
qed (simp add: assms flushDataBlock_def)

lemma indexPending_w [simp]:
  "tw_w (indexPending tw) = tw_w tw" "tw_err (indexPending tw) = tw_err tw"
  by (simp_all add: indexPending_def)

lemma tw_Add_healthy:
  assumes "healthy (tw_w tw)" "tw_err tw = None" "wf_kv (k, v)"
    "\<And>l. tw_lastKey tw = Some l \<Longrightarrow> 0 < ikeyCompare k l" "tw_Add lib k v tw = (e, tw')"
  shows "e = None \<and> healthy (tw_w tw') \<and> tw_err tw' = None \<and> tw_lastKey tw' = Some k"
proof -
  have lk: "tw_lastKey (flushDataBlock lib t) = tw_lastKey t" for t
    by (auto simp: flushDataBlock_def writeBlock_def Let_def split: prod.splits option.splits)
  define tw1 where "tw1 = indexPending tw"
  define tw2 where "tw2 = tw1\<lparr>tw_data := db_add k v (tw_data tw1),
                    tw_hashes := tw_hashes tw1 @ [bloomHash (ikeyUserKey k)],
                    tw_firstKey := (case tw_firstKey tw1 of None \<Rightarrow> Some k | Some k \<Rightarrow> Some k),
                    tw_lastKey := Some k,
                    tw_entries := tw_entries tw1 + 1,
                    tw_tombstones := (if ikeyKindOf k = ikeyKindDelete then tw_tombstones tw1 + 1 else tw_tombstones tw1)\<rparr>"
  have res: "tw' = (if tw_blockSize tw2 \<le> int (db_size (tw_data tw2)) then flushDataBlock lib tw2 else tw2)"
    "e = tw_err tw'"
    using assms
    by (auto simp: tw_Add_def Let_def valid_ikey_def wf_kv_def tw1_def tw2_def not_less not_le split_beta
        split: if_splits option.splits)
  have "healthy (tw_w tw2)" "tw_err tw2 = None" "tw_lastKey tw2 = Some k"
    using assms by (simp_all add: tw2_def tw1_def)
  with flushDataBlock_healthy [of tw2 lib] res show ?thesis by (auto simp: lk)
qed

lemma tw_adds_healthy:
  "healthy (tw_w tw) \<Longrightarrow> tw_err tw = None \<Longrightarrow> list_all wf_kv kvs \<Longrightarrow> sorted_entries kvs \<Longrightarrow>
   (\<And>l kv. tw_lastKey tw = Some l \<Longrightarrow> kv \<in> set kvs \<Longrightarrow> 0 < ikeyCompare (fst kv) l) \<Longrightarrow>
   tw_adds lib kvs tw = (e, tw') \<Longrightarrow> e = None \<and> healthy (tw_w tw') \<and> tw_err tw' = None"
proof (induction kvs arbitrary: tw)
  case (Cons kv kvs)
  obtain k v where kv: "kv = (k, v)" by fastforce
  obtain e1 tw1 where a: "tw_Add lib k v tw = (e1, tw1)" by fastforce
  have wk: "wf_kv (k, v)" using Cons.prems(3) kv by simp
  have lk: "0 < ikeyCompare k l" if "tw_lastKey tw = Some l" for l
    using Cons.prems(5) [OF that, of kv] kv by simp
  have h: "e1 = None" "healthy (tw_w tw1)" "tw_err tw1 = None" "tw_lastKey tw1 = Some k"
    using tw_Add_healthy [OF Cons.prems(1,2) wk lk a] by simp_all
  have v: "valid_ikey k" "\<And>x. x \<in> set kvs \<Longrightarrow> valid_ikey (fst x)"
    and lt: "\<And>x. x \<in> set kvs \<Longrightarrow> ikeyCompare k (fst x) < 0"
    using Cons.prems(4) kv by (auto simp: sorted_entries_def)
  have "0 < ikeyCompare (fst x) l" if "tw_lastKey tw1 = Some l" "x \<in> set kvs" for l x
    using lt [OF that(2)] ik.cmp_swap [OF v(1) v(2) [OF that(2)]] that(1) h(4) by simp
  moreover have "sorted_entries kvs" using Cons.prems(4) by (simp add: sorted_entries_def)
  ultimately show ?case
    using Cons.IH [OF h(2,3)] Cons.prems(3,6) a h(1) kv by simp
qed simp

lemma tw_finish_healthy:
  assumes "healthy (tw_w tw)" "tw_err tw = None"
  shows "\<exists>n. fst (tw_finish lib tw) = Inr n"
proof -
  define tw1 where "tw1 = indexPending (flushDataBlock lib tw)"
  have h1: "healthy (tw_w tw1)" "tw_err tw1 = None"
    using flushDataBlock_healthy [OF assms, of lib] by (simp_all add: tw1_def)
  obtain rh tw2 where r: "(if 0 < length (tw_rangeDels tw1)
      then writeBlock lib (encodeRangeDelBlock [] (tw_rangeDels tw1)) noneCodec tw1 else (zeroHandle, tw1)) = (rh, tw2)"
    by fastforce
  have h2: "healthy (tw_w tw2)" "tw_err tw2 = None"
    using r h1 writeBlock_healthy [OF h1] by (auto split: if_splits)
  obtain fh tw3 where f: "writeBlock lib (build (tw_bloom tw2) (tw_hashes tw2)) noneCodec tw2 = (fh, tw3)" by fastforce
  have h3: "healthy (tw_w tw3)" "tw_err tw3 = None" using writeBlock_healthy [OF h2 f] by simp_all
  obtain ih tw4 where i: "writeBlock lib (bb_buf (tw_index tw3)) (tw_c tw3) tw3 = (ih, tw4)" by fastforce
  have h4: "healthy (tw_w tw4)" "tw_err tw4 = None" using writeBlock_healthy [OF h3 i] by simp_all
  obtain e5 w5 where w: "writeAll (tw_w tw4) (encodeFooter ih fh rh) = (e5, w5)" by fastforce
  have h5: "e5 = None" "healthy w5" using writeAll_healthy [OF h4(1) w] by simp_all
  obtain e6 w6 where fl: "bufio_Flush w5 = (e6, w6)" by fastforce
  have h6: "e6 = None" using bufio_Flush_healthy [OF h5(2) fl] by simp
  show ?thesis
    unfolding tw_finish_trailer [OF assms(2)] tw1_def [symmetric] tw_trailer_def r f i Let_def prod.case
    by (simp add: h4 w h5 fl h6)
qed

lemma write_table_healthy:
  assumes "f_sched w = []" "list_all wf_kv kvs" "sorted_entries kvs"
  shows "\<exists>n. fst (write_table lib cfg w kvs rts) = Inr n"
proof -
  obtain e tw where a: "tw_adds lib kvs (newTableWriter w cfg) = (e, tw)" by fastforce
  have "healthy (tw_w (newTableWriter w cfg))" "tw_err (newTableWriter w cfg) = None"
    using assms(1) by (simp_all add: newTableWriter_def healthy_def)
  with tw_adds_healthy [OF _ _ assms(2,3) _ a] have h: "e = None" "healthy (tw_w tw)" "tw_err tw = None"
    by (simp_all add: newTableWriter_def)
  then have "healthy (tw_w (setRangeTombstones rts tw))" "tw_err (setRangeTombstones rts tw) = None"
    by (simp_all add: setRangeTombstones_def)
  from tw_finish_healthy [OF this, of lib] a h(1) show ?thesis by (simp add: write_table_def)
qed

section \<open>The size estimate\<close>

lemma length_encodeHandle: "length (encodeHandle h []) \<le> 20"
  using length_put_uvarint_10 [of "bh_offset h"] length_put_uvarint_10 [of "bh_length h"]
  by (simp add: encodeHandle_def)

lemma length_encodeFooter: "length (encodeFooter a b c) = footerLen"
  by (simp add: encodeFooter_def footerLen_def Let_def min_def) arith

lemma length_finish_none: "length (finishBlock lib p noneCodec) = length p + blockTrailerLen"
  by (simp add: finishBlock_def blockTrailerLen_def codecID_defs)

lemma length_flat_entry:
  assumes "length v \<le> 20"
  shows "length (flat_entry (k, v)) \<le> length k + 32"
proof -
  have "length (put_uvarint (ulen v)) = 1"
    using assms by (simp add: put_uvarint_small word_less_nat_alt unat_of_nat)
  then show ?thesis
    using assms length_put_uvarint_10 [of "ulen k"] by (simp add: flat_entry_def put_bytes_def)
qed

lemma length_db_finish:
  "0 < db_entries b \<Longrightarrow> length (fst (db_finish b)) = db_size b"
  by (simp add: db_finish_def db_size_def Let_def length_concat_Put)

lemma length_table_layout:
  "length (table_layout lib tw blks rts filt)
     = length (concat (raw_blocks lib (tw_c tw) blks))
       + (if rts = [] then 0 else length (encodeRangeDelBlock [] rts) + blockTrailerLen)
       + (length filt + blockTrailerLen)
       + length (finishBlock lib (flat (index_entries lib (tw_c tw) blks)) (tw_c tw)) + footerLen"
  by (simp add: table_layout_def Let_def length_encodeFooter length_finish_none)

lemma tw_bound:
  assumes "tw_live lib kvs blks tw" "\<not> tw_hasPending tw"
  defines "B \<equiv> flushed_blocks tw kvs blks"
  shows "length (concat (raw_blocks lib (tw_c tw) B)) + length (finishBlock lib (flat (index_entries lib (tw_c tw) B)) (tw_c tw))
    \<le> length (concat (raw_blocks lib (tw_c tw) blks))
      + (if db_empty (tw_data tw) then 0
         else db_size (tw_data tw) + blockTrailerLen + length (case tw_lastKey tw of None \<Rightarrow> [] | Some k \<Rightarrow> k) + 32)
      + length (bb_buf (tw_index tw)) + blockTrailerLen"
proof -
  obtain cur where cur: "kvs = concat (map snd blks) @ cur" "db_inv cur (tw_data tw)"
    and ix: "bb_buf (tw_index tw) = flat (index_entries lib (tw_c tw) blks)"
    and lk: "tw_lastKey tw = (if kvs = [] then None else Some (fst (last kvs)))"
    using assms(1,2) by (auto simp: tw_live_def)
  show ?thesis
  proof (cases "db_empty (tw_data tw)")
    case True
    then show ?thesis using length_finishBlock [of lib "flat (index_entries lib (tw_c tw) blks)" "tw_c tw"]
      by (simp add: B_def flushed_blocks_def ix)
  next
    case False
    then have ne: "cur \<noteq> []" "0 < db_entries (tw_data tw)" using cur(2) by (auto simp: db_inv_def db_empty_def)
    define p where "p = fst (db_finish (tw_data tw))"
    have B: "B = blks @ [(p, cur)]" using False cur(1) by (simp add: B_def flushed_blocks_def p_def)
    define h where "h = encodeHandle \<lparr>bh_offset = word_of_nat (length (concat (raw_blocks lib (tw_c tw) blks))),
          bh_length = ulen (finishBlock lib p (tw_c tw))\<rparr> []"
    have "index_entries lib (tw_c tw) B = index_entries lib (tw_c tw) blks @ [(fst (last cur), h)]"
      by (simp add: B index_entries_snoc h_def)
    then have i: "flat (index_entries lib (tw_c tw) B) = bb_buf (tw_index tw) @ flat_entry (fst (last cur), h)"
      by (simp add: ix)
    have "length (flat_entry (fst (last cur), h)) \<le> length (fst (last cur)) + 32"
      by (rule length_flat_entry) (simp add: h_def length_encodeHandle)
    moreover have "tw_lastKey tw = Some (fst (last cur))" using lk cur(1) ne by simp
    moreover have "length p = db_size (tw_data tw)" using ne by (simp add: p_def length_db_finish)
    ultimately show ?thesis
      using False length_finishBlock [of lib "flat (index_entries lib (tw_c tw) B)" "tw_c tw"]
        length_finishBlock [of lib p "tw_c tw"]
      by (simp add: i) (simp add: B raw_blocks_def)
  qed
qed

text \<open>A writer that has accepted the entries \<open>kvs\<close> and holds the range tombstones \<open>rts\<close>.\<close>

definition tw_after :: "codecLib \<Rightarrow> tableWriterConfig \<Rightarrow> (bytes \<times> bytes) list \<Rightarrow> rangeTombstone list \<Rightarrow> tableWriter \<Rightarrow> bool" where
  "tw_after lib cfg kvs rts tw \<longleftrightarrow>
     (\<exists>w tw1. f_data w = [] \<and> tw_adds lib kvs (newTableWriter w cfg) = (None, tw1)
        \<and> tw = setRangeTombstones rts tw1)"

lemma tw_after_live: "tw_after lib cfg kvs rts tw \<Longrightarrow> \<exists>blks. tw_live lib kvs blks tw \<and> tw_rangeDels tw = rts"
  unfolding tw_after_def
proof (elim exE conjE)
  fix w tw1 assume "f_data w = []" "tw_adds lib kvs (newTableWriter w cfg) = (None, tw1)"
    "tw = setRangeTombstones rts tw1"
  then show ?thesis using tw_adds_live [OF tw_live_new [of w lib cfg]]
    by (fastforce simp: tw_live_rangeDels setRangeTombstones_def [of rts tw1, THEN arg_cong, of tw_rangeDels])
qed

lemma sint_ulen: "length xs < 2 ^ 63 \<Longrightarrow> sint (ulen xs) = int (length xs)"
  by (simp add: signed_of_nat signed_take_bit_int_eq_self)

lemma tw_estimate:
  assumes live: "tw_live lib kvs blks tw" and f: "tw_finish lib tw = (Inr n, tw')" and len: "length (dst_data (tw_w tw')) < 2 ^ 63"
  defines "R \<equiv> (if tw_rangeDels tw = [] then 0 else length (encodeRangeDelBlock [] (tw_rangeDels tw)) + blockTrailerLen)"
    and "F \<equiv> pow2Bytes (tw_entries tw * bitsPerKey (tw_bloom tw)) + 1 + blockTrailerLen"
    and "B \<equiv> flushed_blocks tw kvs blks"
  shows "n = int (length (concat (raw_blocks lib (tw_c tw) B)) + R + F
      + length (finishBlock lib (flat (index_entries lib (tw_c tw) B)) (tw_c tw)) + footerLen)"
    and "bytesWritten tw = int (length (concat (raw_blocks lib (tw_c tw) blks)))"
proof -
  let ?filt = "build (tw_bloom tw) (map (bloomHash \<circ> ikeyUserKey \<circ> fst) kvs)"
  have e: "tw_entries tw = length kvs" and o: "tw_offset tw = ulen (concat (raw_blocks lib (tw_c tw) blks))"
    using live by (simp_all add: tw_live_def)
  have fileq: "dst_data (tw_w tw') = table_layout lib tw B (tw_rangeDels tw) ?filt"
    and n: "n = sint (ulen (dst_data (tw_w tw')))"
    using tw_finish_layout [OF live f] by (simp_all add: Let_def B_def)
  have "length ?filt = pow2Bytes (tw_entries tw * bitsPerKey (tw_bloom tw)) + 1"
    using build_accepts [of _ "tw_bloom tw"] by (simp add: e)
  then have L: "length (dst_data (tw_w tw')) = length (concat (raw_blocks lib (tw_c tw) B)) + R + F
      + length (finishBlock lib (flat (index_entries lib (tw_c tw) B)) (tw_c tw)) + footerLen"
    by (simp add: fileq length_table_layout R_def F_def)
  then show "n = int (length (concat (raw_blocks lib (tw_c tw) B)) + R + F
      + length (finishBlock lib (flat (index_entries lib (tw_c tw) B)) (tw_c tw)) + footerLen)"
    using n sint_ulen [OF len] by simp
  have "length (concat (raw_blocks lib (tw_c tw) blks)) \<le> length (concat (raw_blocks lib (tw_c tw) B))"
    by (simp add: B_def flushed_blocks_def raw_blocks_def)
  then have "length (concat (raw_blocks lib (tw_c tw) blks)) < 2 ^ 63" using L len by linarith
  then show "bytesWritten tw = int (length (concat (raw_blocks lib (tw_c tw) blks)))"
    by (simp add: bytesWritten_def o sint_ulen del: length_concat)
qed

section \<open>Size bounds\<close>

definition raw_size :: "(bytes \<times> bytes) list \<Rightarrow> nat" where
  "raw_size kvs = sum_list (map (\<lambda>kv. length (fst kv) + length (snd kv) + 100) kvs)"

lemma raw_size_simps [simp]:
  "raw_size [] = 0" "raw_size (kv # kvs) = length (fst kv) + length (snd kv) + 100 + raw_size kvs"
  "raw_size (xs @ ys) = raw_size xs + raw_size ys"
  by (simp_all add: raw_size_def)

lemma length_encoded: "encoded prev bs kvs \<Longrightarrow> length bs + 70 * length kvs \<le> raw_size kvs"
proof (induction rule: encoded.induct)
  case (encoded_Cons s prev key bs kvs val)
  have "length (entry_bytes s key val) \<le> length key + length val + 30"
    using length_put_uvarint_10 [of "word_of_nat s"] length_put_uvarint_10 [of "ulen (drop s key)"]
      length_put_uvarint_10 [of "ulen val"]
    unfolding entry_bytes_def length_append length_drop by linarith
  with encoded_Cons show ?case by simp
qed simp

lemma length_data_payload:
  assumes "data_payload blk"
  shows "length (fst blk) + 30 \<le> raw_size (snd blk)"
proof -
  obtain b where b: "db_inv (snd blk) b" "fst blk = fst (db_finish b)" and ne: "snd blk \<noteq> []"
    using assms by (auto simp: data_payload_def)
  have e: "length (db_buf b) + 70 * length (snd blk) \<le> raw_size (snd blk)"
    and r: "length (db_restarts b) \<le> length (snd blk) - 1" and n: "db_entries b = length (snd blk)"
    using b(1) length_encoded by (auto simp: db_inv_def)
  obtain m where m: "length (snd blk) = Suc m" using ne by (cases "snd blk") auto
  then have "length (fst blk) = db_size b" using length_db_finish [of b] n b(2) by simp
  then show ?thesis using e r m by (simp add: db_size_def)
qed

lemma length_raw_blocks:
  "list_all data_payload blks \<Longrightarrow> length (concat (raw_blocks lib c blks)) + 20 * length blks \<le> raw_size (concat (map snd blks))"
proof (induction blks)
  case (Cons blk blks)
  have "length (fst blk) + 30 \<le> raw_size (snd blk)" using Cons.prems by (intro length_data_payload) simp
  with Cons length_finishBlock [of lib "fst blk" c] show ?case by (simp add: raw_blocks_def blockTrailerLen_def)
qed (simp add: raw_blocks_def)

lemma length_index_entries:
  "list_all data_payload blks \<Longrightarrow> length (flat (index_entries lib c blks)) \<le> raw_size (concat (map snd blks))"
proof (induction blks rule: rev_induct)
  case (snoc blk blks)
  let ?h = "encodeHandle \<lparr>bh_offset = word_of_nat (length (concat (raw_blocks lib c blks))),
          bh_length = ulen (finishBlock lib (fst blk) c)\<rparr> []"
  have ne: "snd blk \<noteq> []" using snoc.prems by (simp add: data_payload_def)
  then obtain xs kv where x: "snd blk = xs @ [kv]" by (cases "snd blk" rule: rev_cases) auto
  have "length (flat_entry (fst (last (snd blk)), ?h)) \<le> length (fst (last (snd blk))) + 32"
    by (rule length_flat_entry) (rule length_encodeHandle)
  also have "\<dots> \<le> raw_size (snd blk)" by (simp add: x)
  finally show ?case using snoc by (simp add: index_entries_snoc)
qed (simp add: index_entries_def)

definition table_fits :: "tableWriterConfig \<Rightarrow> (bytes \<times> bytes) list \<Rightarrow> rangeTombstone list \<Rightarrow> bool" where
  "table_fits cfg kvs rts \<longleftrightarrow>
     2 * raw_size kvs + length (encodeRangeDelBlock [] rts)
       + pow2Bytes (length kvs * bitsPerKey (newBloom (cfg_bloomBits cfg))) + 100 < 2 ^ 32"

lemma table_of_length:
  assumes "table_of lib cfg kvs rts blks f" "table_fits cfg kvs rts"
  shows "length f < 2 ^ 32"
proof -
  let ?tw = "newTableWriter \<lparr>f_data = [], f_sched = []\<rparr> cfg" and ?bl = "newBloom (cfg_bloomBits cfg)"
  let ?filt = "build ?bl (map (bloomHash \<circ> ikeyUserKey \<circ> fst) kvs)"
  have k: "concat (map snd blks) = kvs" and d: "list_all data_payload blks"
    and f: "f = table_layout lib ?tw blks rts ?filt"
    using assms(1) by (auto simp: table_of_def)
  have "length ?filt = pow2Bytes (length kvs * bitsPerKey ?bl) + 1" using build_accepts [of _ ?bl] by simp
  then show ?thesis
    using assms(2) length_raw_blocks [OF d, of lib "tw_c ?tw"] length_index_entries [OF d, of lib "tw_c ?tw"]
      length_finishBlock [of lib "flat (index_entries lib (tw_c ?tw) blks)" "tw_c ?tw"]
    unfolding f length_table_layout table_fits_def k by (auto simp: blockTrailerLen_def footerLen_def)
qed

lemma tw_after_finish_length:
  assumes "tw_after lib cfg kvs rts tw" "tw_finish lib tw = (Inr n, tw')" "table_fits cfg kvs rts"
  shows "length (dst_data (tw_w tw')) < 2 ^ 63"
proof -
  obtain w tw1 where w: "f_data w = []" "tw_adds lib kvs (newTableWriter w cfg) = (None, tw1)"
    "tw = setRangeTombstones rts tw1" using assms(1) by (auto simp: tw_after_def)
  then have "write_table lib cfg w kvs rts = (Inr n, tw')" using assms(2) by (simp add: write_table_def)
  from write_table_of [OF w(1) this] table_of_length [OF _ assms(3)]
  have "length (dst_data (tw_w tw')) < 2 ^ 32" by blast
  then show ?thesis by simp
qed

section \<open>Properties\<close>

text \<open>A small table for the witnesses, with the identity for every compression library.\<close>

definition idLib :: codecLib where
  "idLib = \<lparr>s2_Encode = \<lambda>x. x, s2_Decode = Inr, zstd_Encode = \<lambda>x. x, zstd_Decode = Inr,
      flate_Deflate = \<lambda>x. x, flate_Reset = \<lambda>x. None, flate_Inflate = Inr\<rparr>"

text \<open>
  C29.  While the writer has no flushed block waiting for its index entry, the
  size estimate of \<^verbatim>\<open>estimatedTrailerBytes\<close> is an upper bound: the finished file is
  at most the bytes written so far plus the estimate.
\<close>

theorem estimatedTrailerBytes_bound:
  assumes "tw_after lib cfg kvs rts tw" "\<not> tw_hasPending tw" "tw_finish lib tw = (Inr n, tw')"
    and "table_fits cfg kvs rts"
  shows "n \<le> bytesWritten tw + int (estimatedTrailerBytes tw)"
proof -
  obtain blks where l: "tw_live lib kvs blks tw" using tw_after_live [OF assms(1)] by blast
  show ?thesis
    using tw_bound [OF l assms(2)]
    unfolding tw_estimate [OF l assms(3) tw_after_finish_length [OF assms(1,3,4)]]
    by (cases "db_empty (tw_data tw)") (simp_all add: estimatedTrailerBytes_def Let_def)
qed

theorem estimatedTrailerBytes_bound_witness:
  "\<exists>n. fst (tw_finish idLib (setRangeTombstones [] (snd (tw_adds idLib [(ikeyEncode [] [1] 2 1, [7])]
        (newTableWriter \<lparr>f_data = [], f_sched = []\<rparr> \<lparr>cfg_codec = s2Codec, cfg_bloomBits = 1, cfg_blockSize = 900\<rparr>))))) = Inr n
    \<and> n \<le> bytesWritten (setRangeTombstones [] (snd (tw_adds idLib [(ikeyEncode [] [1] 2 1, [7])]
        (newTableWriter \<lparr>f_data = [], f_sched = []\<rparr> \<lparr>cfg_codec = s2Codec, cfg_bloomBits = 1, cfg_blockSize = 900\<rparr>))))
      + int (estimatedTrailerBytes (setRangeTombstones [] (snd (tw_adds idLib [(ikeyEncode [] [1] 2 1, [7])]
        (newTableWriter \<lparr>f_data = [], f_sched = []\<rparr> \<lparr>cfg_codec = s2Codec, cfg_bloomBits = 1, cfg_blockSize = 900\<rparr>)))))"
proof -
  let ?kvs = "[(ikeyEncode [] [1] 2 1, [7])]"
  let ?cfg = "\<lparr>cfg_codec = s2Codec, cfg_bloomBits = 1, cfg_blockSize = 900\<rparr>"
  let ?w = "\<lparr>f_data = [], f_sched = []\<rparr>"
  let ?tw = "setRangeTombstones [] (snd (tw_adds idLib ?kvs (newTableWriter ?w ?cfg)))"
  have wf: "list_all wf_kv ?kvs" "sorted_entries ?kvs"
    by (simp_all add: wf_kv_def sorted_entries_def maxIKeySeq_def push_bit_eq_mult validIKeyKind_def ikeyKind_defs)
  obtain e tw1 where a: "tw_adds idLib ?kvs (newTableWriter ?w ?cfg) = (e, tw1)" by fastforce
  have h: "e = None" "healthy (tw_w tw1)" "tw_err tw1 = None"
    using tw_adds_healthy [OF _ _ wf _ a] by (simp_all add: newTableWriter_def healthy_def)
  have after: "tw_after idLib ?cfg ?kvs [] ?tw"
    unfolding tw_after_def using a h(1) by (intro exI [of _ ?w] exI [of _ tw1]) simp
  have "db_size (db_add (ikeyEncode [] [1] 2 1) [7] (newDataBlockBuilder 0)) = 21" by code_simp
  then have np: "\<not> tw_hasPending ?tw"
    by (simp add: tw_Add_def newTableWriter_def setRangeTombstones_def Let_def split_beta indexPending_def
        trailerLen_def maxIKeySeq_def push_bit_eq_mult validIKeyKind_def ikeyKind_defs)
  obtain n tw' where f: "tw_finish idLib ?tw = (Inr n, tw')"
    using tw_finish_healthy [of ?tw idLib] h a by (cases "tw_finish idLib ?tw") (auto simp: setRangeTombstones_def)
  have "pow2Bytes 1 = 8" by code_simp
  moreover have "length (encodeRangeDelBlock [] []) = 1" by code_simp
  ultimately have "table_fits ?cfg ?kvs []"
    by (simp add: table_fits_def newBloom_def)
  from estimatedTrailerBytes_bound [OF after np f this] f show ?thesis by simp
qed

text \<open>
  C30.  With a flushed block waiting for its index entry, and blocks stored
  uncompressed, the estimate is too small: the finished file is larger than the
  bytes written so far plus the estimate, by the index entry still to come.
\<close>

theorem estimatedTrailerBytes_short:
  assumes "tw_after lib cfg kvs rts tw" "tw_hasPending tw" "tw_c tw = noneCodec"
    and "tw_finish lib tw = (Inr n, tw')" "table_fits cfg kvs rts"
  shows "bytesWritten tw + int (estimatedTrailerBytes tw) < n"
proof -
  obtain blks where l: "tw_live lib kvs blks tw" using tw_after_live [OF assms(1)] by blast
  then obtain bs blk where b: "blks = bs @ [blk]" "bb_buf (tw_index tw) = flat (index_entries lib (tw_c tw) bs)"
    and em: "db_empty (tw_data tw)"
    using assms(2) by (auto simp: tw_live_def db_inv_def db_empty_def)
  have B: "flushed_blocks tw kvs blks = blks" using em by (simp add: flushed_blocks_def)
  have "0 < length (flat_entry kv)" for kv by (simp add: flat_entry_def put_bytes_def)
  then show ?thesis
    unfolding tw_estimate [OF l assms(4) tw_after_finish_length [OF assms(1,4,5)]] B
    using em b by (simp add: estimatedTrailerBytes_def Let_def length_finish_none assms(3) index_entries_snoc)
qed

theorem estimatedTrailerBytes_short_witness:
  "\<exists>n. fst (tw_finish idLib (setRangeTombstones [] (snd (tw_adds idLib [(ikeyEncode [] [1] 2 1, [7])]
        (newTableWriter \<lparr>f_data = [], f_sched = []\<rparr> \<lparr>cfg_codec = noneCodec, cfg_bloomBits = 1, cfg_blockSize = 20\<rparr>))))) = Inr n
    \<and> bytesWritten (setRangeTombstones [] (snd (tw_adds idLib [(ikeyEncode [] [1] 2 1, [7])]
        (newTableWriter \<lparr>f_data = [], f_sched = []\<rparr> \<lparr>cfg_codec = noneCodec, cfg_bloomBits = 1, cfg_blockSize = 20\<rparr>))))
      + int (estimatedTrailerBytes (setRangeTombstones [] (snd (tw_adds idLib [(ikeyEncode [] [1] 2 1, [7])]
        (newTableWriter \<lparr>f_data = [], f_sched = []\<rparr> \<lparr>cfg_codec = noneCodec, cfg_bloomBits = 1, cfg_blockSize = 20\<rparr>))))) < n"
proof -
  let ?kvs = "[(ikeyEncode [] [1] 2 1, [7])]"
  let ?cfg = "\<lparr>cfg_codec = noneCodec, cfg_bloomBits = 1, cfg_blockSize = 20\<rparr>"
  let ?w = "\<lparr>f_data = [], f_sched = []\<rparr>"
  let ?tw = "setRangeTombstones [] (snd (tw_adds idLib ?kvs (newTableWriter ?w ?cfg)))"
  have wf: "list_all wf_kv ?kvs" "sorted_entries ?kvs"
    by (simp_all add: wf_kv_def sorted_entries_def maxIKeySeq_def push_bit_eq_mult validIKeyKind_def ikeyKind_defs)
  obtain e tw1 where a: "tw_adds idLib ?kvs (newTableWriter ?w ?cfg) = (e, tw1)" by fastforce
  have h: "e = None" "healthy (tw_w tw1)" "tw_err tw1 = None"
    using tw_adds_healthy [OF _ _ wf _ a] by (simp_all add: newTableWriter_def healthy_def)
  have after: "tw_after idLib ?cfg ?kvs [] ?tw"
    unfolding tw_after_def using a h(1) by (intro exI [of _ ?w] exI [of _ tw1]) simp
  have c: "tw_c ?tw = noneCodec"
    using tw_adds_live [OF tw_live_new, of ?w idLib ?kvs ?cfg tw1] a h(1)
    by (simp add: setRangeTombstones_def newTableWriter_def)
  have "db_size (db_add (ikeyEncode [] [1] 2 1) [7] (newDataBlockBuilder 0)) = 21"
    "db_entries (db_add (ikeyEncode [] [1] 2 1) [7] (newDataBlockBuilder 0)) = 1" by code_simp+
  then have hp: "tw_hasPending ?tw"
    by (simp add: tw_Add_def newTableWriter_def setRangeTombstones_def Let_def split_beta indexPending_def
        trailerLen_def maxIKeySeq_def push_bit_eq_mult validIKeyKind_def ikeyKind_defs flushDataBlock_def db_empty_def
        split: option.split)
  obtain n tw' where f: "tw_finish idLib ?tw = (Inr n, tw')"
    using tw_finish_healthy [of ?tw idLib] h a by (cases "tw_finish idLib ?tw") (auto simp: setRangeTombstones_def)
  have "pow2Bytes 1 = 8" by code_simp
  moreover have "length (encodeRangeDelBlock [] []) = 1" by code_simp
  ultimately have "table_fits ?cfg ?kvs []"
    by (simp add: table_fits_def newBloom_def)
  from estimatedTrailerBytes_short [OF after hp c f this] f show ?thesis by simp
qed

end
