(* ===== verification/Cache.thy ===== *)
theory Cache
  imports Lv_Prelude
begin

text \<open>
  The block cache (\<^verbatim>\<open>cache.go\<close>): least-recently-used shards over an intrusive,
  circular doubly linked list.  Nodes live in an explicit store: an address is a
  \<open>nat\<close>, \<open>0\<close> is the shard's sentinel \<^verbatim>\<open>root\<close>, and \<open>sh_prev\<close>, \<open>sh_next\<close>, \<open>sh_key\<close> and
  \<open>sh_value\<close> are the fields of the node at an address; \<open>sh_fresh\<close> is the next
  unused address.  Each shard operation runs under the shard's mutex, so a
  concurrent history is a sequence of these operations.  The stripe hash
  (\<^verbatim>\<open>hash/maphash\<close> with a random seed) is a parameter.

  \<open>shard_rep\<close> relates a shard to the list of its nodes, most recent first; the
  operations are shown to implement the list operations \<open>lru_get\<close> and \<open>lru_add\<close>.
  The eviction loop is a partial function: it is shown to return on every
  reachable shard.  The locale \<open>block_cache\<close> is what the table reader relies on.
\<close>

section \<open>Shards\<close>

record blockCacheKey =
  ck_Table :: u32
  ck_Offset :: u64

record cacheShard =
  sh_capacity :: int
  sh_size :: int
  sh_prev :: "nat \<Rightarrow> nat"
  sh_next :: "nat \<Rightarrow> nat"
  sh_key :: "nat \<Rightarrow> blockCacheKey"
  sh_value :: "nat \<Rightarrow> bytes"
  sh_items :: "blockCacheKey \<Rightarrow> nat option"
  sh_fresh :: nat

definition newCacheShard :: "int \<Rightarrow> cacheShard" where
  "newCacheShard capacity =
     \<lparr>sh_capacity = capacity, sh_size = 0, sh_prev = \<lambda>_. 0, sh_next = \<lambda>_. 0,
      sh_key = \<lambda>_. \<lparr>ck_Table = 0, ck_Offset = 0\<rparr>, sh_value = \<lambda>_. [], sh_items = \<lambda>_. None, sh_fresh = 1\<rparr>"

definition unlink :: "nat \<Rightarrow> cacheShard \<Rightarrow> cacheShard" where
  "unlink e s =
     (let s = s\<lparr>sh_next := (sh_next s)(sh_prev s e := sh_next s e)\<rparr>
      in s\<lparr>sh_prev := (sh_prev s)(sh_next s e := sh_prev s e)\<rparr>)"

definition pushFront :: "nat \<Rightarrow> cacheShard \<Rightarrow> cacheShard" where
  "pushFront e s =
     (let s = s\<lparr>sh_prev := (sh_prev s)(e := 0)\<rparr>;
          s = s\<lparr>sh_next := (sh_next s)(e := sh_next s 0)\<rparr>;
          s = s\<lparr>sh_prev := (sh_prev s)(sh_next s 0 := e)\<rparr>
      in s\<lparr>sh_next := (sh_next s)(0 := e)\<rparr>)"

definition shard_get :: "blockCacheKey \<Rightarrow> cacheShard \<Rightarrow> bytes option \<times> cacheShard" where
  "shard_get key s =
     (case sh_items s key of Some e \<Rightarrow> (Some (sh_value s e), pushFront e (unlink e s))
      | None \<Rightarrow> (None, s))"

definition evictOldest :: "cacheShard \<Rightarrow> cacheShard" where
  "evictOldest s =
     (let lru = sh_prev s 0
      in if lru = 0 then s
         else let s = unlink lru s
              in s\<lparr>sh_items := (sh_items s)(sh_key s lru := None),
                    sh_size := sh_size s - int (length (sh_value s lru))\<rparr>)"

partial_function (option) evict_loop :: "cacheShard \<Rightarrow> cacheShard option" where
  "evict_loop s = (if sh_capacity s < sh_size s then evict_loop (evictOldest s) else Some s)"

definition shard_insert :: "blockCacheKey \<Rightarrow> bytes \<Rightarrow> cacheShard \<Rightarrow> cacheShard" where
  "shard_insert key val s =
     (case sh_items s key of
        Some e \<Rightarrow>
          let s = s\<lparr>sh_size := sh_size s + (int (length val) - int (length (sh_value s e))),
                    sh_value := (sh_value s)(e := val)\<rparr>
          in pushFront e (unlink e s)
      | None \<Rightarrow>
          let e = sh_fresh s;
              s = s\<lparr>sh_fresh := e + 1, sh_key := (sh_key s)(e := key), sh_value := (sh_value s)(e := val)\<rparr>;
              s = pushFront e s
          in s\<lparr>sh_items := (sh_items s)(key \<mapsto> e), sh_size := sh_size s + int (length val)\<rparr>)"

definition shard_add :: "blockCacheKey \<Rightarrow> bytes \<Rightarrow> cacheShard \<Rightarrow> cacheShard option" where
  "shard_add key val s = evict_loop (shard_insert key val s)"

section \<open>The striped cache\<close>

definition cacheStripes :: nat where "cacheStripes = 16"

record blockCacheT =
  bc_capacity :: int
  bc_shards :: "cacheShard list"
  bc_hits :: nat
  bc_misses :: nat

definition newBlockCache :: "int \<Rightarrow> blockCacheT" where
  "newBlockCache capacity =
     (if capacity = 0 then \<lparr>bc_capacity = 0, bc_shards = [], bc_hits = 0, bc_misses = 0\<rparr>
      else let per = capacity div int cacheStripes; remainder = capacity mod int cacheStripes
      in \<lparr>bc_capacity = capacity,
          bc_shards = map (\<lambda>i. newCacheShard (if int i < remainder then per + 1 else per)) [0..<cacheStripes],
          bc_hits = 0, bc_misses = 0\<rparr>)"

definition shardFor :: "(bytes \<Rightarrow> u64) \<Rightarrow> blockCacheKey \<Rightarrow> nat" where
  "shardFor hash key =
     unat (hash (put_le 4 (ck_Table key) @ map (\<lambda>i. ucast (drop_bit (8 * i) (ck_Offset key))) [0..<8])
           AND (word_of_nat cacheStripes - 1))"

definition bc_get :: "(bytes \<Rightarrow> u64) \<Rightarrow> blockCacheKey \<Rightarrow> blockCacheT \<Rightarrow> bytes option \<times> blockCacheT" where
  "bc_get hash key c =
     (if bc_capacity c = 0 then (None, c)
      else let i = shardFor hash key; (r, s) = shard_get key (bc_shards c ! i);
               c = c\<lparr>bc_shards := (bc_shards c)[i := s]\<rparr>
      in case r of Some v \<Rightarrow> (Some v, c\<lparr>bc_hits := bc_hits c + 1\<rparr>)
         | None \<Rightarrow> (None, c\<lparr>bc_misses := bc_misses c + 1\<rparr>))"

definition bc_Add :: "(bytes \<Rightarrow> u64) \<Rightarrow> blockCacheKey \<Rightarrow> bytes \<Rightarrow> blockCacheT \<Rightarrow> blockCacheT option" where
  "bc_Add hash key val c =
     (if bc_capacity c = 0 then Some c
      else let i = shardFor hash key; s = bc_shards c ! i
      in if sh_capacity s < int (length val) then Some c
         else case shard_add key val s of None \<Rightarrow> None
              | Some s \<Rightarrow> Some (c\<lparr>bc_shards := (bc_shards c)[i := s]\<rparr>))"

definition bc_stats :: "blockCacheT \<Rightarrow> nat \<times> nat" where "bc_stats c = (bc_hits c, bc_misses c)"

definition bc_Size :: "blockCacheT \<Rightarrow> int" where "bc_Size c = sum_list (map sh_size (bc_shards c))"

section \<open>Doubly linked lists\<close>

text \<open>\<open>chain f a xs b\<close>: following \<open>f\<close> from \<open>a\<close> visits \<open>xs\<close> and then \<open>b\<close>.\<close>

fun chain :: "(nat \<Rightarrow> nat) \<Rightarrow> nat \<Rightarrow> nat list \<Rightarrow> nat \<Rightarrow> bool" where
  "chain f a [] b \<longleftrightarrow> f a = b"
| "chain f a (x # xs) b \<longleftrightarrow> f a = x \<and> chain f x xs b"

lemma chain_append: "chain f a (xs @ y # ys) b \<longleftrightarrow> chain f a xs y \<and> chain f y ys b"
  by (induction xs arbitrary: a) auto

lemma chain_frame: "y \<noteq> a \<Longrightarrow> y \<notin> set xs \<Longrightarrow> chain (f(y := v)) a xs b \<longleftrightarrow> chain f a xs b"
  by (induction xs arbitrary: a) auto

lemma chain_last: "chain f a xs b \<Longrightarrow> f (last (a # xs)) = b"
  by (induction xs arbitrary: a) auto

lemma chain_retarget:
  "chain f a xs b \<Longrightarrow> distinct (a # xs) \<Longrightarrow> chain (f(last (a # xs) := c)) a xs c"
proof (induction xs arbitrary: a)
  case (Cons x xs)
  define g where "g = f(last (x # xs) := c)"
  have "chain g x xs c" using Cons.prems unfolding g_def by (intro Cons.IH) simp_all
  moreover have "last (x # xs) \<noteq> a" using Cons.prems(2) last_in_set [of "x # xs"] by auto
  then have "g a = x" using Cons.prems(1) by (simp add: g_def)
  moreover have "f(last (a # x # xs) := c) = g" by (simp add: g_def)
  ultimately show ?case by (simp only: chain.simps)
qed simp

definition dlist :: "cacheShard \<Rightarrow> nat list \<Rightarrow> bool" where
  "dlist s as \<longleftrightarrow> chain (sh_next s) 0 as 0 \<and> chain (sh_prev s) 0 (rev as) 0 \<and> distinct (0 # as)"

lemma dlist_pushFront:
  assumes "dlist s as" "e \<noteq> 0" "e \<notin> set as"
  shows "dlist (pushFront e s) (e # as)"
proof -
  define h where "h = sh_next s 0"
  have n: "chain (sh_next s) 0 as 0" and p: "chain (sh_prev s) 0 (rev as) 0" and d: "distinct (0 # as)"
    using assms(1) by (auto simp: dlist_def)
  have h: "h = last (0 # rev as)" using n by (cases as) (auto simp: h_def)
  have "chain ((sh_next s)(e := h)) 0 as 0"
    using n assms by (simp add: chain_frame)
  then have "chain ((sh_next s)(e := h)) e as 0" by (cases as) (simp_all add: h_def)
  then have nx: "chain ((sh_next s)(e := h, 0 := e)) 0 (e # as) 0"
    using d assms(2) chain_frame [of 0 e as "(sh_next s)(e := h)"] by simp
  have pe: "chain ((sh_prev s)(e := 0)) 0 (rev as) 0" using p assms by (simp add: chain_frame)
  have dr: "distinct (0 # rev as)" using d by simp
  have "chain ((sh_prev s)(e := 0, h := e)) 0 (rev as) e"
    using chain_retarget [OF pe dr, of e] h by simp
  moreover have "h \<noteq> e" using h assms last_in_set [of "0 # rev as"] by (auto split: if_splits)
  ultimately have "chain ((sh_prev s)(e := 0, h := e)) 0 (rev (e # as)) 0"
    by (simp add: chain_append)
  with nx d assms show ?thesis
    by (simp add: dlist_def pushFront_def Let_def h_def fun_upd_twist)
qed

lemma chain_unlink:
  assumes "chain f z us e" "chain f e vs z" "distinct (z # us @ e # vs)"
  shows "chain (f(last (z # us) := f e)) z (us @ vs) z"
proof -
  have a: "chain (f(last (z # us) := f e)) z us (f e)"
    using assms(1,3) by (intro chain_retarget) simp_all
  show ?thesis
  proof (cases vs)
    case Nil
    then show ?thesis using a assms(2) by simp
  next
    case (Cons v vs')
    have "last (z # us) \<in> set (z # us)" by (rule last_in_set) simp
    then have "last (z # us) \<noteq> v" "last (z # us) \<notin> set vs'" using assms(3) Cons by auto
    then have "chain (f(last (z # us) := f e)) v vs' z"
      using assms(2) Cons chain_frame [of "last (z # us)" v vs' f "f e" z] by simp
    then show ?thesis using a assms(2) Cons by (simp add: chain_append)
  qed
qed

lemma chain_hd: "chain f a xs b \<Longrightarrow> f a = hd (xs @ [b])"
  by (cases xs) auto

lemma hd_rev_last: "hd (rev us @ [z]) = last (z # us)"
  by (cases us rule: rev_cases) auto

lemma dlist_unlink:
  assumes "dlist s (us @ e # vs)"
  shows "dlist (unlink e s) (us @ vs)"
proof -
  have n: "chain (sh_next s) 0 us e" "chain (sh_next s) e vs 0"
    and p: "chain (sh_prev s) 0 (rev vs) e" "chain (sh_prev s) e (rev us) 0"
    and d: "distinct (0 # us @ e # vs)"
    using assms by (auto simp: dlist_def chain_append)
  have a: "sh_prev s e = last (0 # us)" using chain_hd [OF p(2)] by (simp only: hd_rev_last)
  have b: "sh_next s e = last (0 # rev vs)"
    using chain_hd [OF n(2)] hd_rev_last [of "rev vs" 0] by simp
  have "last (0 # us) \<in> set (0 # us)" by (rule last_in_set) simp
  then have ne: "sh_prev s e \<noteq> e" using d a by auto
  have dr: "distinct (0 # rev vs @ e # rev us)" using d by auto
  have "chain ((sh_next s)(sh_prev s e := sh_next s e)) 0 (us @ vs) 0"
    using chain_unlink [OF n d] a by simp
  moreover have "chain ((sh_prev s)(sh_next s e := sh_prev s e)) 0 (rev (us @ vs)) 0"
    using chain_unlink [OF p dr] b by simp
  ultimately show ?thesis
    using d ne by (simp add: dlist_def unlink_def Let_def)
qed

lemma unlink_fields [simp]:
  "sh_capacity (unlink e s) = sh_capacity s" "sh_size (unlink e s) = sh_size s" "sh_key (unlink e s) = sh_key s"
  "sh_value (unlink e s) = sh_value s" "sh_items (unlink e s) = sh_items s" "sh_fresh (unlink e s) = sh_fresh s"
  by (simp_all add: unlink_def Let_def)

lemma pushFront_fields [simp]:
  "sh_capacity (pushFront e s) = sh_capacity s" "sh_size (pushFront e s) = sh_size s" "sh_key (pushFront e s) = sh_key s"
  "sh_value (pushFront e s) = sh_value s" "sh_items (pushFront e s) = sh_items s" "sh_fresh (pushFront e s) = sh_fresh s"
  by (simp_all add: pushFront_def Let_def)

lemma dlist_ext:
  "sh_next s' = sh_next s \<Longrightarrow> sh_prev s' = sh_prev s \<Longrightarrow> dlist s' as = dlist s as"
  by (simp add: dlist_def)

section \<open>Shards implement least-recently-used lists\<close>

type_synonym lru = "(blockCacheKey \<times> bytes) list"

definition lru_size :: "lru \<Rightarrow> int" where "lru_size l = sum_list (map (int \<circ> length \<circ> snd) l)"

definition lru_get :: "blockCacheKey \<Rightarrow> lru \<Rightarrow> bytes option \<times> lru" where
  "lru_get k l = (case map_of l k of None \<Rightarrow> (None, l) | Some v \<Rightarrow> (Some v, (k, v) # filter (\<lambda>x. fst x \<noteq> k) l))"

fun lru_trim :: "int \<Rightarrow> lru \<Rightarrow> lru" where
  "lru_trim cap l = (if cap < lru_size l \<and> l \<noteq> [] then lru_trim cap (butlast l) else l)"

declare lru_trim.simps [simp del]

definition lru_add :: "int \<Rightarrow> blockCacheKey \<Rightarrow> bytes \<Rightarrow> lru \<Rightarrow> lru" where
  "lru_add cap k v l = lru_trim cap ((k, v) # filter (\<lambda>x. fst x \<noteq> k) l)"

definition node :: "cacheShard \<Rightarrow> nat \<Rightarrow> blockCacheKey \<times> bytes" where
  "node s a = (sh_key s a, sh_value s a)"

definition shard_rep :: "cacheShard \<Rightarrow> lru \<Rightarrow> bool" where
  "shard_rep s l \<longleftrightarrow> (\<exists>as. dlist s as \<and> l = map (node s) as \<and> distinct (map fst l)
     \<and> (\<forall>a\<in>set as. a < sh_fresh s) \<and> 0 < sh_fresh s
     \<and> (\<forall>k a. sh_items s k = Some a \<longleftrightarrow> a \<in> set as \<and> sh_key s a = k) \<and> sh_size s = lru_size l)"

lemma shard_rep_new: "shard_rep (newCacheShard cap) []"
  unfolding shard_rep_def by (intro exI [of _ "[]"]) (simp add: newCacheShard_def dlist_def lru_size_def)

lemma map_of_node:
  "distinct (map (sh_key s) as) \<Longrightarrow> a \<in> set as \<Longrightarrow> map_of (map (node s) as) (sh_key s a) = Some (sh_value s a)"
  by (intro map_of_is_SomeI) (auto simp: node_def comp_def)

lemma filter_node:
  assumes "distinct (map (sh_key s) (us @ e # vs))"
  shows "filter (\<lambda>x. fst x \<noteq> sh_key s e) (map (node s) (us @ e # vs)) = map (node s) (us @ vs)"
proof -
  have "filter (\<lambda>x. sh_key s x \<noteq> sh_key s e) us = us" "filter (\<lambda>x. sh_key s x \<noteq> sh_key s e) vs = vs"
    using assms by (auto simp: filter_id_conv image_iff)
  then show ?thesis by (simp add: filter_map node_def comp_def)
qed

lemma lru_size_move: "lru_size (us @ x # vs) = int (length (snd x)) + lru_size (us @ vs)"
  by (simp add: lru_size_def)

text \<open>Moving a node to the front.\<close>

lemma shard_rep_touch:
  assumes "dlist s (us @ e # vs)" "\<forall>a\<in>set (us @ e # vs). a < sh_fresh s" "0 < sh_fresh s"
    "distinct (map (sh_key s) (us @ e # vs))"
    "\<forall>k a. sh_items s k = Some a \<longleftrightarrow> a \<in> set (us @ e # vs) \<and> sh_key s a = k"
    "sh_size s = lru_size (map (node s) (us @ e # vs))"
  shows "shard_rep (pushFront e (unlink e s)) (map (node s) (e # us @ vs))"
proof -
  have d: "distinct (0 # us @ e # vs)" using assms(1) by (simp add: dlist_def)
  have "dlist (pushFront e (unlink e s)) (e # us @ vs)"
    using dlist_unlink [OF assms(1)] d by (intro dlist_pushFront) auto
  moreover have "node (pushFront e (unlink e s)) = node s" by (simp add: node_def fun_eq_iff)
  moreover have "distinct (map fst (map (node s) (e # us @ vs)))"
    using assms(4) by (auto simp: node_def comp_def)
  moreover have "lru_size (map (node s) (us @ e # vs)) = lru_size (map (node s) (e # us @ vs))"
    by (simp add: lru_size_def)
  ultimately show ?thesis
    using assms unfolding shard_rep_def by (intro exI [of _ "e # us @ vs"]) auto
qed

lemma shard_repE:
  assumes "shard_rep s l" "sh_items s key = Some e"
  obtains us vs where "dlist s (us @ e # vs)" "l = map (node s) (us @ e # vs)" "sh_key s e = key"
    "\<forall>a\<in>set (us @ e # vs). a < sh_fresh s" "0 < sh_fresh s" "distinct (map (sh_key s) (us @ e # vs))"
    "\<forall>k a. sh_items s k = Some a \<longleftrightarrow> a \<in> set (us @ e # vs) \<and> sh_key s a = k" "sh_size s = lru_size l"
proof -
  obtain as where as: "dlist s as" "l = map (node s) as" "distinct (map fst l)"
    "\<forall>a\<in>set as. a < sh_fresh s" "0 < sh_fresh s"
    "\<forall>k a. sh_items s k = Some a \<longleftrightarrow> a \<in> set as \<and> sh_key s a = k" "sh_size s = lru_size l"
    using assms(1) by (auto simp: shard_rep_def)
  then have "e \<in> set as" "sh_key s e = key" using assms(2) by auto
  then obtain us vs where "as = us @ e # vs" by (auto simp: in_set_conv_decomp)
  with as \<open>sh_key s e = key\<close> that [of us vs] show thesis by (simp add: node_def comp_def)
qed

lemma shard_rep_None:
  assumes "shard_rep s l" "sh_items s key = None" shows "map_of l key = None"
proof -
  obtain as where "l = map (node s) as" and i: "\<forall>k a. sh_items s k = Some a \<longleftrightarrow> a \<in> set as \<and> sh_key s a = k"
    using assms(1) by (auto simp: shard_rep_def)
  moreover have "\<forall>a\<in>set as. key \<noteq> sh_key s a"
    using i [rule_format, of key] assms(2) by auto
  ultimately show ?thesis by (simp add: map_of_eq_None_iff node_def image_iff)
qed

lemma shard_rep_Some:
  assumes "shard_rep s l" "sh_items s key = Some e" shows "map_of l key = Some (sh_value s e)"
  using assms
proof (rule shard_repE)
  fix us vs assume "l = map (node s) (us @ e # vs)" "sh_key s e = key" "distinct (map (sh_key s) (us @ e # vs))"
  then show ?thesis using map_of_node [of s "us @ e # vs" e] by simp
qed

lemma shard_get_rep:
  assumes "shard_rep s l"
  shows "fst (shard_get key s) = fst (lru_get key l)" "shard_rep (snd (shard_get key s)) (snd (lru_get key l))"
proof -
  have "fst (shard_get key s) = fst (lru_get key l) \<and> shard_rep (snd (shard_get key s)) (snd (lru_get key l))"
  proof (cases "sh_items s key")
    case None
    then show ?thesis using assms shard_rep_None [OF assms None] by (simp add: shard_get_def lru_get_def)
  next
    case (Some e)
    from assms Some show ?thesis
    proof (rule shard_repE)
      fix us vs
      assume h: "dlist s (us @ e # vs)" "l = map (node s) (us @ e # vs)" "sh_key s e = key"
        "\<forall>a\<in>set (us @ e # vs). a < sh_fresh s" "0 < sh_fresh s" "distinct (map (sh_key s) (us @ e # vs))"
        "\<forall>k a. sh_items s k = Some a \<longleftrightarrow> a \<in> set (us @ e # vs) \<and> sh_key s a = k" "sh_size s = lru_size l"
      have "shard_rep (pushFront e (unlink e s)) (map (node s) (e # us @ vs))"
        using h by (intro shard_rep_touch) simp_all
      moreover have "map (node s) (e # us @ vs) = (key, sh_value s e) # filter (\<lambda>x. fst x \<noteq> key) l"
        using filter_node [OF h(6)] h(2,3) by (simp add: node_def)
      ultimately show ?thesis
        using shard_rep_Some [OF assms Some] Some by (simp add: shard_get_def lru_get_def)
    qed
  qed
  then show "fst (shard_get key s) = fst (lru_get key l)" "shard_rep (snd (shard_get key s)) (snd (lru_get key l))"
    by simp_all
qed

lemma shard_insert_new:
  assumes "shard_rep s l" "sh_items s key = None"
  shows "shard_rep (shard_insert key val s) ((key, val) # l)"
proof -
  obtain as where as: "dlist s as" "l = map (node s) as" "distinct (map fst l)"
    "\<forall>a\<in>set as. a < sh_fresh s" "0 < sh_fresh s"
    "\<forall>k a. sh_items s k = Some a \<longleftrightarrow> a \<in> set as \<and> sh_key s a = k" "sh_size s = lru_size l"
    using assms(1) by (auto simp: shard_rep_def)
  define e where "e = sh_fresh s"
  define s1 where "s1 = s\<lparr>sh_fresh := e + 1, sh_key := (sh_key s)(e := key), sh_value := (sh_value s)(e := val)\<rparr>"
  define s2 where "s2 = pushFront e s1"
  have e: "e \<noteq> 0" "e \<notin> set as" using as by (auto simp: e_def)
  have "dlist s1 as" using as(1) unfolding s1_def by (subst dlist_ext [of _ s]) simp_all
  then have d: "dlist s2 (e # as)" unfolding s2_def using e by (intro dlist_pushFront)
  have r: "shard_insert key val s = s2\<lparr>sh_items := (sh_items s2)(key \<mapsto> e), sh_size := sh_size s2 + int (length val)\<rparr>"
    using assms(2) by (simp add: shard_insert_def e_def s1_def s2_def Let_def)
  have n: "node (shard_insert key val s) e = (key, val)" "\<forall>a\<in>set as. node (shard_insert key val s) a = node s a"
    using e by (auto simp: r s2_def s1_def node_def)
  have k: "key \<notin> set (map fst l)" using shard_rep_None [OF assms] by (simp add: map_of_eq_None_iff)
  have "dlist (shard_insert key val s) (e # as)"
    using d unfolding r by (subst dlist_ext [of _ s2]) simp_all
  moreover have "(key, val) # l = map (node (shard_insert key val s)) (e # as)" using n as(2) by simp
  moreover have "\<forall>a\<in>set (e # as). a < sh_fresh (shard_insert key val s)" "0 < sh_fresh (shard_insert key val s)"
    using as(4) by (auto simp: r s2_def s1_def e_def)
  moreover have "sh_items (shard_insert key val s) k = Some a \<longleftrightarrow>
      a \<in> set (e # as) \<and> sh_key (shard_insert key val s) a = k" for k a
    using as(6) [rule_format, of k a] as(6) [rule_format, of key a] e assms(2) by (auto simp: r s2_def s1_def)
  moreover have "sh_size (shard_insert key val s) = lru_size ((key, val) # l)"
    using as(7) by (simp add: r s2_def s1_def lru_size_def)
  moreover have "distinct (map fst ((key, val) # l))" using as(3) k by simp
  ultimately show ?thesis unfolding shard_rep_def by (intro exI [of _ "e # as"] conjI allI) assumption+
qed

lemma shard_insert_old:
  assumes "shard_rep s l" "sh_items s key = Some e"
  shows "shard_rep (shard_insert key val s) ((key, val) # filter (\<lambda>x. fst x \<noteq> key) l)"
  using assms
proof (rule shard_repE)
  fix us vs
  assume h: "dlist s (us @ e # vs)" "l = map (node s) (us @ e # vs)" "sh_key s e = key"
    "\<forall>a\<in>set (us @ e # vs). a < sh_fresh s" "0 < sh_fresh s" "distinct (map (sh_key s) (us @ e # vs))"
    "\<forall>k a. sh_items s k = Some a \<longleftrightarrow> a \<in> set (us @ e # vs) \<and> sh_key s a = k" "sh_size s = lru_size l"
  define s1 where "s1 = s\<lparr>sh_size := sh_size s + (int (length val) - int (length (sh_value s e))),
      sh_value := (sh_value s)(e := val)\<rparr>"
  have d: "distinct (0 # us @ e # vs)" using h(1) by (simp add: dlist_def)
  then have nd: "map (node s1) us = map (node s) us" "map (node s1) vs = map (node s) vs" "node s1 e = (key, val)"
    using h(3) by (auto simp: node_def s1_def)
  have "shard_rep (pushFront e (unlink e s1)) (map (node s1) (e # us @ vs))"
  proof (rule shard_rep_touch)
    show "dlist s1 (us @ e # vs)" using h(1) unfolding s1_def by (subst dlist_ext [of _ s]) simp_all
    have "sh_size s = int (length (sh_value s e)) + lru_size (map (node s) us @ map (node s) vs)"
      using h(2,8) by (simp add: lru_size_move node_def)
    then have "sh_size s1 = int (length val) + lru_size (map (node s1) us @ map (node s1) vs)"
      unfolding nd by (simp add: s1_def)
    then show "sh_size s1 = lru_size (map (node s1) (us @ e # vs))"
      by (simp add: lru_size_move nd(3))
  qed (use h in \<open>simp_all add: s1_def\<close>)
  moreover have "map (node s1) (e # us @ vs) = (key, val) # filter (\<lambda>x. fst x \<noteq> key) l"
    using filter_node [OF h(6)] h(2,3) nd by simp
  moreover have "shard_insert key val s = pushFront e (unlink e s1)"
    using assms(2) by (simp add: shard_insert_def s1_def)
  ultimately show ?thesis by simp
qed

lemma shard_insert_rep:
  assumes "shard_rep s l"
  shows "shard_rep (shard_insert key val s) ((key, val) # filter (\<lambda>x. fst x \<noteq> key) l)"
proof (cases "sh_items s key")
  case None
  then have "filter (\<lambda>x. fst x \<noteq> key) l = l"
    using shard_rep_None [OF assms None] by (auto simp: filter_id_conv map_of_eq_None_iff image_iff)
  with shard_insert_new [OF assms None] show ?thesis by simp
next
  case (Some e)
  with shard_insert_old [OF assms] show ?thesis by simp
qed

lemma evictOldest_rep:
  assumes "shard_rep s l" "l \<noteq> []"
  shows "shard_rep (evictOldest s) (butlast l) \<and> sh_capacity (evictOldest s) = sh_capacity s"
proof -
  obtain as where as: "dlist s as" "l = map (node s) as" "distinct (map fst l)"
    "\<forall>a\<in>set as. a < sh_fresh s" "0 < sh_fresh s"
    "\<forall>k a. sh_items s k = Some a \<longleftrightarrow> a \<in> set as \<and> sh_key s a = k" "sh_size s = lru_size l"
    using assms(1) by (auto simp: shard_rep_def)
  obtain us e where ue: "as = us @ [e]" using assms(2) as(2) by (cases as rule: rev_cases) auto
  have lru: "sh_prev s 0 = e" "e \<noteq> 0" using as(1) ue by (auto simp: dlist_def)
  define s1 where "s1 = unlink e s"
  have r: "evictOldest s = s1\<lparr>sh_items := (sh_items s1)(sh_key s1 e := None),
      sh_size := sh_size s1 - int (length (sh_value s1 e))\<rparr>"
    using lru by (simp add: evictOldest_def s1_def Let_def)
  have "dlist s1 us" using dlist_unlink [of s us e "[]"] as(1) ue by (simp add: s1_def)
  then have "dlist (evictOldest s) us" unfolding r by (subst dlist_ext [of _ s1]) simp_all
  moreover have "butlast l = map (node (evictOldest s)) us"
    using as(2) ue by (simp add: node_def r s1_def butlast_append)
  moreover have "distinct (map fst (butlast l))" using as(3) by (simp add: map_butlast distinct_butlast)
  moreover have "sh_items (evictOldest s) k = Some a \<longleftrightarrow> a \<in> set us \<and> sh_key (evictOldest s) a = k" for k a
    using as(6) [rule_format, of k a] as(3) ue as(2) as(1)
    by (auto simp: r s1_def node_def comp_def dlist_def image_iff)
  moreover have "sh_size (evictOldest s) = lru_size (butlast l)"
    using as(2,7) ue by (simp add: r s1_def lru_size_def node_def butlast_append)
  ultimately have "shard_rep (evictOldest s) (butlast l)"
    unfolding shard_rep_def using as(4,5) ue by (intro exI [of _ us]) (simp add: r s1_def)
  then show ?thesis by (simp add: r s1_def)
qed

lemma lru_size_nonneg: "0 \<le> lru_size l"
  by (induction l) (auto simp: lru_size_def)

lemma evict_loop_rep:
  "shard_rep s l \<Longrightarrow> 0 \<le> sh_capacity s \<Longrightarrow>
   \<exists>s'. evict_loop s = Some s' \<and> shard_rep s' (lru_trim (sh_capacity s) l) \<and> sh_capacity s' = sh_capacity s"
proof (induction l arbitrary: s rule: length_induct)
  case (1 l)
  have sz: "sh_size s = lru_size l" using "1.prems"(1) by (auto simp: shard_rep_def)
  show ?case
  proof (cases "sh_capacity s < lru_size l")
    case True
    then have ne: "l \<noteq> []" using "1.prems"(2) by (auto simp: lru_size_def)
    note ev = evictOldest_rep [OF "1.prems"(1) ne]
    have "length (butlast l) < length l" using ne by simp
    with "1.IH" ev "1.prems"(2) obtain s' where "evict_loop (evictOldest s) = Some s'"
      "shard_rep s' (lru_trim (sh_capacity s) (butlast l))" "sh_capacity s' = sh_capacity s" by metis
    then show ?thesis using True ne sz
      by (subst evict_loop.simps, subst lru_trim.simps) simp
  next
    case False
    then show ?thesis using sz "1.prems" by (subst evict_loop.simps, subst lru_trim.simps) simp
  qed
qed

lemma shard_add_rep:
  assumes "shard_rep s l" "0 \<le> sh_capacity s"
  shows "\<exists>s'. shard_add key val s = Some s' \<and> shard_rep s' (lru_add (sh_capacity s) key val l)
    \<and> sh_capacity s' = sh_capacity s"
proof -
  have "sh_capacity (shard_insert key val s) = sh_capacity s"
    by (simp add: shard_insert_def Let_def split: option.split)
  then show ?thesis
    using evict_loop_rep [OF shard_insert_rep [OF assms(1), of key val]] assms(2)
    by (simp add: shard_add_def lru_add_def)
qed

lemma lru_trim_size: "0 \<le> cap \<Longrightarrow> lru_size (lru_trim cap l) \<le> cap"
proof (induction cap l rule: lru_trim.induct)
  case (1 cap l)
  show ?case
  proof (cases "cap < lru_size l \<and> l \<noteq> []")
    case True
    with 1 show ?thesis by (subst lru_trim.simps) simp
  next
    case False
    then have "lru_trim cap l = l" by (subst lru_trim.simps) (simp only: if_False)
    moreover have "lru_size l \<le> cap" using False "1.prems" by (cases l) (auto simp: lru_size_def)
    ultimately show ?thesis by simp
  qed
qed

lemma lru_trim_subset: "set (lru_trim cap l) \<subseteq> set l"
proof (induction cap l rule: lru_trim.induct)
  case (1 cap l)
  then show ?case by (subst lru_trim.simps) (auto dest: in_set_butlastD)
qed

section \<open>The contract of the cache\<close>

definition coherent :: "('c \<Rightarrow> 'k \<Rightarrow> 'v option) \<Rightarrow> ('k \<Rightarrow> 'v \<Rightarrow> bool) \<Rightarrow> 'c \<Rightarrow> bool" where
  "coherent holds R c \<longleftrightarrow> (\<forall>k v. holds c k = Some v \<longrightarrow> R k v)"

locale block_cache =
  fixes get :: "'k \<Rightarrow> 'c \<Rightarrow> 'v option \<times> 'c" and add :: "'k \<Rightarrow> 'v \<Rightarrow> 'c \<Rightarrow> 'c option"
    and holds :: "'c \<Rightarrow> 'k \<Rightarrow> 'v option" and inv :: "'c \<Rightarrow> bool"
  assumes get_holds: "inv c \<Longrightarrow> get k c = (r, c') \<Longrightarrow> r = holds c k \<and> inv c' \<and> holds c' = holds c"
    and add_holds: "inv c \<Longrightarrow> \<exists>c'. add k v c = Some c' \<and> inv c'
      \<and> (\<forall>k' w. holds c' k' = Some w \<longrightarrow> k' = k \<and> w = v \<or> holds c k' = Some w)"
begin

lemma get_coherent:
  assumes "inv c" "coherent holds R c" "get k c = (r, c')"
  shows "inv c' \<and> coherent holds R c' \<and> (\<forall>v. r = Some v \<longrightarrow> R k v)"
  using get_holds [OF assms(1,3)] assms(2) by (simp add: coherent_def)

lemma add_coherent:
  assumes "inv c" "coherent holds R c" "R k v"
  shows "\<exists>c'. add k v c = Some c' \<and> inv c' \<and> coherent holds R c'"
proof -
  obtain c' where c': "add k v c = Some c'" "inv c'"
    and h: "\<And>k' w. holds c' k' = Some w \<Longrightarrow> k' = k \<and> w = v \<or> holds c k' = Some w"
    using add_holds [OF assms(1), of k v] by blast
  have "R k' w" if "holds c' k' = Some w" for k' w
    using h [OF that] assms(2,3) by (auto simp: coherent_def)
  with c' show ?thesis by (auto simp: coherent_def)
qed

lemma coherent_mono: "coherent holds R c \<Longrightarrow> (\<And>k v. R k v \<Longrightarrow> Q k v) \<Longrightarrow> coherent holds Q c"
  by (auto simp: coherent_def)

end

definition shard_holds :: "cacheShard \<Rightarrow> blockCacheKey \<Rightarrow> bytes option" where
  "shard_holds s k = map_option (sh_value s) (sh_items s k)"

lemma shard_holds_rep: "shard_rep s l \<Longrightarrow> shard_holds s k = map_of l k"
  by (cases "sh_items s k") (simp_all add: shard_holds_def shard_rep_None shard_rep_Some)

definition shard_ok :: "cacheShard \<Rightarrow> bool" where
  "shard_ok s \<longleftrightarrow> 0 \<le> sh_capacity s \<and> sh_size s \<le> sh_capacity s \<and> (\<exists>l. shard_rep s l)"

lemma shard_size: "shard_rep s l \<Longrightarrow> sh_size s = lru_size l"
  by (auto simp: shard_rep_def)

lemma shard_distinct: "shard_rep s l \<Longrightarrow> distinct (map fst l)"
  by (auto simp: shard_rep_def)

lemma lru_get_size: "distinct (map fst l) \<Longrightarrow> lru_size (snd (lru_get k l)) = lru_size l"
proof (cases "map_of l k")
  case (Some v)
  assume d: "distinct (map fst l)"
  obtain us vs where l: "l = us @ (k, v) # vs" using map_of_SomeD [OF Some] by (auto simp: in_set_conv_decomp)
  have "filter (\<lambda>x. fst x \<noteq> k) us = us" "filter (\<lambda>x. fst x \<noteq> k) vs = vs"
    using d l by (auto simp: filter_id_conv image_iff)
  then have "filter (\<lambda>x. fst x \<noteq> k) l = us @ vs" using l by simp
  with Some l show ?thesis by (simp add: lru_get_def lru_size_def)
qed (simp add: lru_get_def)

lemma lru_get_holds: "map_of (snd (lru_get k l)) = map_of l"
proof (cases "map_of l k")
  case (Some v)
  have "map_of (filter (\<lambda>x. fst x \<noteq> k) l) k' = (if k' = k then None else map_of l k')" for k'
    by (induction l) auto
  with Some show ?thesis by (auto simp: lru_get_def fun_eq_iff)
qed (simp add: lru_get_def)

lemma shard_get_ok:
  assumes "shard_ok s" "shard_get k s = (r, s')"
  shows "r = shard_holds s k \<and> shard_ok s' \<and> shard_holds s' = shard_holds s \<and> sh_capacity s' = sh_capacity s"
proof -
  obtain l where l: "shard_rep s l" using assms(1) by (auto simp: shard_ok_def)
  note g = shard_get_rep [OF l, of k]
  have c: "sh_capacity s' = sh_capacity s"
    using assms(2) by (auto simp: shard_get_def split: option.splits)
  have "r = map_of l k" using g(1) assms(2) by (simp add: lru_get_def split: option.splits)
  moreover have "shard_rep s' (snd (lru_get k l))" using g(2) assms(2) by simp
  ultimately show ?thesis
    using c assms(1) l lru_get_size [OF shard_distinct [OF l], of k]
    by (auto simp: shard_ok_def fun_eq_iff shard_holds_rep lru_get_holds shard_size)
qed

lemma shard_add_ok:
  assumes "shard_ok s"
  shows "\<exists>s'. shard_add k v s = Some s' \<and> shard_ok s' \<and> sh_capacity s' = sh_capacity s
    \<and> (\<forall>k' w. shard_holds s' k' = Some w \<longrightarrow> k' = k \<and> w = v \<or> shard_holds s k' = Some w)"
proof -
  obtain l where l: "shard_rep s l" and cap: "0 \<le> sh_capacity s" using assms by (auto simp: shard_ok_def)
  obtain s' where s': "shard_add k v s = Some s'" "shard_rep s' (lru_add (sh_capacity s) k v l)"
    "sh_capacity s' = sh_capacity s" using shard_add_rep [OF l cap] by blast
  have "k' = k \<and> w = v \<or> map_of l k' = Some w" if "map_of (lru_add (sh_capacity s) k v l) k' = Some w" for k' w
  proof -
    have "(k', w) \<in> set ((k, v) # filter (\<lambda>x. fst x \<noteq> k) l)"
      using map_of_SomeD [OF that] unfolding lru_add_def by (rule subsetD [OF lru_trim_subset])
    then show ?thesis using shard_distinct [OF l] by (auto simp: map_of_eq_Some_iff)
  qed
  then show ?thesis
    using s' cap lru_trim_size [OF cap] l
    by (auto simp: shard_ok_def shard_holds_rep shard_size lru_add_def)
qed

section \<open>The striped cache meets the contract\<close>

definition bc_inv :: "blockCacheT \<Rightarrow> bool" where
  "bc_inv c \<longleftrightarrow> 0 \<le> bc_capacity c
     \<and> (if bc_capacity c = 0 then bc_shards c = []
        else length (bc_shards c) = cacheStripes \<and> list_all shard_ok (bc_shards c)
             \<and> sum_list (map sh_capacity (bc_shards c)) = bc_capacity c)"

definition bc_holds :: "(bytes \<Rightarrow> u64) \<Rightarrow> blockCacheT \<Rightarrow> blockCacheKey \<Rightarrow> bytes option" where
  "bc_holds hash c k = (if bc_capacity c = 0 then None else shard_holds (bc_shards c ! shardFor hash k) k)"

lemma shardFor_less: "shardFor hash k < cacheStripes"
proof -
  have "(x :: u64) AND (word_of_nat cacheStripes - 1) \<le> 15" for x
    by (simp add: cacheStripes_def word_and_le1)
  then show ?thesis by (simp add: shardFor_def cacheStripes_def word_le_nat_alt le_imp_less_Suc [of _ 15, simplified])
qed

lemma bc_inv_update:
  assumes "bc_inv c" "bc_capacity c \<noteq> 0" "shard_ok s" "sh_capacity s = sh_capacity (bc_shards c ! i)"
    "i < cacheStripes"
  shows "bc_inv (c\<lparr>bc_shards := (bc_shards c)[i := s]\<rparr>)"
proof -
  have "map sh_capacity ((bc_shards c)[i := s]) = map sh_capacity (bc_shards c)"
    using assms by (simp add: map_update bc_inv_def list_update_same_conv)
  then have "sum_list (map sh_capacity ((bc_shards c)[i := s])) = bc_capacity c"
    using assms by (simp only: bc_inv_def) simp
  then show ?thesis
    using assms set_update_subset_insert [of "bc_shards c" i s] by (auto simp: bc_inv_def list_all_iff)
qed

lemma bc_holds_update:
  assumes "bc_inv c" "bc_capacity c \<noteq> 0"
  shows "bc_holds hash (c\<lparr>bc_shards := (bc_shards c)[i := s]\<rparr>) k
    = (if shardFor hash k = i then shard_holds s k else bc_holds hash c k)"
  using assms shardFor_less [of hash k] by (simp add: bc_holds_def bc_inv_def)

lemma bc_inv_counters [simp]:
  "bc_inv (c\<lparr>bc_hits := n\<rparr>) = bc_inv c" "bc_inv (c\<lparr>bc_misses := n\<rparr>) = bc_inv c"
  "bc_holds hash (c\<lparr>bc_hits := n\<rparr>) = bc_holds hash c" "bc_holds hash (c\<lparr>bc_misses := n\<rparr>) = bc_holds hash c"
  by (simp_all add: bc_inv_def bc_holds_def fun_eq_iff)

lemma bc_get_holds:
  assumes "bc_inv c" "bc_get hash k c = (r, c')"
  shows "r = bc_holds hash c k \<and> bc_inv c' \<and> bc_holds hash c' = bc_holds hash c"
proof (cases "bc_capacity c = 0")
  case True
  then show ?thesis using assms by (simp add: bc_get_def bc_holds_def)
next
  case False
  let ?i = "shardFor hash k"
  obtain r1 s1 where g: "shard_get k (bc_shards c ! ?i) = (r1, s1)" by fastforce
  have i: "?i < cacheStripes" by (rule shardFor_less)
  have ok: "shard_ok (bc_shards c ! ?i)" using assms(1) False i by (simp add: bc_inv_def list_all_length)
  note k = shard_get_ok [OF ok g]
  have "bc_inv (c\<lparr>bc_shards := (bc_shards c)[?i := s1]\<rparr>)"
    using assms(1) False k i by (intro bc_inv_update) simp_all
  moreover have "bc_holds hash (c\<lparr>bc_shards := (bc_shards c)[?i := s1]\<rparr>) = bc_holds hash c"
    using assms(1) False k by (auto simp: bc_holds_update fun_eq_iff) (simp_all add: bc_holds_def)
  ultimately show ?thesis
    using assms(2) False g k by (auto simp: bc_get_def Let_def bc_holds_def [of hash c k] split: option.splits)
qed

lemma bc_Add_holds:
  assumes "bc_inv c"
  shows "\<exists>c'. bc_Add hash k v c = Some c' \<and> bc_inv c'
    \<and> (\<forall>k' w. bc_holds hash c' k' = Some w \<longrightarrow> k' = k \<and> w = v \<or> bc_holds hash c k' = Some w)"
proof (cases "bc_capacity c = 0 \<or> sh_capacity (bc_shards c ! shardFor hash k) < int (length v)")
  case True
  then show ?thesis using assms by (auto simp: bc_Add_def Let_def)
next
  case False
  let ?i = "shardFor hash k"
  have i: "?i < cacheStripes" by (rule shardFor_less)
  have ok: "shard_ok (bc_shards c ! ?i)" using assms(1) False i by (simp add: bc_inv_def list_all_length)
  obtain s' where s': "shard_add k v (bc_shards c ! ?i) = Some s'" "shard_ok s'"
    "sh_capacity s' = sh_capacity (bc_shards c ! ?i)"
    "\<forall>k' w. shard_holds s' k' = Some w \<longrightarrow> k' = k \<and> w = v \<or> shard_holds (bc_shards c ! ?i) k' = Some w"
    using shard_add_ok [OF ok, of k v] by auto
  let ?c = "c\<lparr>bc_shards := (bc_shards c)[?i := s']\<rparr>"
  have "bc_inv ?c" using assms False s' i by (intro bc_inv_update) simp_all
  moreover have "k' = k \<and> w = v \<or> bc_holds hash c k' = Some w" if "bc_holds hash ?c k' = Some w" for k' w
  proof (cases "shardFor hash k' = ?i")
    case True
    then show ?thesis using that s'(4) assms False by (auto simp: bc_holds_update) (auto simp: bc_holds_def)
  next
    case ne: False
    then show ?thesis using that assms False by (simp add: bc_holds_update)
  qed
  ultimately show ?thesis
    using False s'(1) by (intro exI [of _ ?c]) (simp add: bc_Add_def Let_def)
qed

interpretation bc: block_cache "bc_get hash" "bc_Add hash" "bc_holds hash" bc_inv
  using bc_get_holds bc_Add_holds by unfold_locales blast+

lemma sum_list_stripes:
  assumes "0 \<le> r" "r < int n"
  shows "sum_list (map (\<lambda>i. if int i < r then p + 1 else p) [0..<n]) = int n * p + r"
proof -
  have "sum_list (map (\<lambda>i. if int i < r then p + 1 else p) [0..<m]) = int m * p + min r (int m)" for m
    using assms(1) by (induction m) (auto simp: algebra_simps min_def)
  then show ?thesis using assms(2) by simp
qed

lemma bc_inv_new:
  assumes "0 \<le> cap"
  shows "bc_inv (newBlockCache cap) \<and> bc_holds hash (newBlockCache cap) = (\<lambda>_. None)"
proof (cases "cap = 0")
  case True
  then show ?thesis by (simp add: newBlockCache_def bc_inv_def bc_holds_def fun_eq_iff)
next
  case False
  let ?f = "\<lambda>i. newCacheShard (if int i < cap mod int cacheStripes then cap div int cacheStripes + 1 else cap div int cacheStripes)"
  have "0 \<le> cap div int cacheStripes" using assms by (simp add: cacheStripes_def)
  then have ok: "shard_ok (?f i)" for i
    using shard_rep_new by (auto simp: shard_ok_def newCacheShard_def [of "if _ then _ else _"])
      (auto simp: newCacheShard_def)
  have cap: "map sh_capacity (map ?f [0..<cacheStripes])
      = map (\<lambda>i. if int i < cap mod int cacheStripes then cap div int cacheStripes + 1 else cap div int cacheStripes) [0..<cacheStripes]"
    by (simp add: newCacheShard_def)
  have "sum_list (map sh_capacity (map ?f [0..<cacheStripes])) = cap"
    unfolding cap by (subst sum_list_stripes) (simp_all add: cacheStripes_def)
  moreover have "shard_holds (?f i) k = None" for i k by (simp add: shard_holds_def newCacheShard_def)
  ultimately show ?thesis
    using False assms ok shardFor_less
    by (simp add: newBlockCache_def Let_def bc_inv_def bc_holds_def fun_eq_iff list_all_iff)
qed

lemma bc_Size_le: "bc_inv c \<Longrightarrow> bc_Size c \<le> bc_capacity c"
proof (cases "bc_capacity c = 0")
  case False
  assume i: "bc_inv c"
  then have "sum_list (map sh_size (bc_shards c)) \<le> sum_list (map sh_capacity (bc_shards c))"
    using False by (intro sum_list_mono) (simp add: bc_inv_def shard_ok_def list_all_iff)
  with False i show ?thesis by (simp add: bc_inv_def bc_Size_def)
qed (simp add: bc_inv_def bc_Size_def)

section \<open>Properties\<close>

datatype cache_op = CGet blockCacheKey | CAdd blockCacheKey bytes

fun cache_run :: "(bytes \<Rightarrow> u64) \<Rightarrow> cache_op list \<Rightarrow> blockCacheT \<Rightarrow> (bytes option list \<times> blockCacheT) option" where
  "cache_run hash [] c = Some ([], c)"
| "cache_run hash (CGet k # ops) c =
     (let (r, c) = bc_get hash k c
      in map_option (\<lambda>(rs, c). (r # rs, c)) (cache_run hash ops c))"
| "cache_run hash (CAdd k v # ops) c =
     (case bc_Add hash k v c of None \<Rightarrow> None
      | Some c \<Rightarrow> map_option (\<lambda>(rs, c). (None # rs, c)) (cache_run hash ops c))"

lemma bc_capacity_get [simp]: "bc_capacity (snd (bc_get hash k c)) = bc_capacity c"
  by (simp add: bc_get_def Let_def split_beta split: option.split)

lemma bc_capacity_Add: "bc_Add hash k v c = Some c' \<Longrightarrow> bc_capacity c' = bc_capacity c"
  by (auto simp: bc_Add_def Let_def split: if_splits option.splits)

lemma cache_run_ok:
  assumes "bc_inv c" "coherent (bc_holds hash) (\<lambda>k v. CAdd k v \<in> set done) c"
  shows "\<exists>rs c'. cache_run hash ops c = Some (rs, c') \<and> bc_inv c' \<and> bc_capacity c' = bc_capacity c
    \<and> length rs = length ops
    \<and> (\<forall>i<length ops. \<forall>k v. ops ! i = CGet k \<and> rs ! i = Some v \<longrightarrow> CAdd k v \<in> set (done @ take i ops))"
  using assms
proof (induction ops arbitrary: c "done")
  case (Cons x ops)
  have step: ?case if c1: "bc_inv c1" "bc_capacity c1 = bc_capacity c"
      "coherent (bc_holds hash) (\<lambda>k v. CAdd k v \<in> set (done @ [x])) c1"
      and r: "\<And>k v. x = CGet k \<Longrightarrow> r = Some v \<Longrightarrow> CAdd k v \<in> set done"
      and e: "cache_run hash (x # ops) c = map_option (\<lambda>(rs, c). (r # rs, c)) (cache_run hash ops c1)"
    for c1 r
  proof -
    obtain rs c' where h: "cache_run hash ops c1 = Some (rs, c')" "bc_inv c'" "bc_capacity c' = bc_capacity c1"
      "length rs = length ops"
      "\<forall>i<length ops. \<forall>k v. ops ! i = CGet k \<and> rs ! i = Some v \<longrightarrow> CAdd k v \<in> set ((done @ [x]) @ take i ops)"
      using Cons.IH [OF c1(1,3)] by auto
    have "\<forall>i<length (x # ops). \<forall>k v. (x # ops) ! i = CGet k \<and> (r # rs) ! i = Some v
        \<longrightarrow> CAdd k v \<in> set (done @ take i (x # ops))"
    proof (intro allI impI, goal_cases)
      case (1 i k v)
      then show ?case using h(5) r by (cases i) auto
    qed
    then show ?thesis using h e c1(2) by (intro exI [of _ "r # rs"] exI [of _ c']) simp
  qed
  show ?case
  proof (cases x)
    case (CGet k)
    obtain r c1 where g: "bc_get hash k c = (r, c1)" by fastforce
    note gc = bc.get_coherent [OF Cons.prems g]
    show ?thesis
      using gc g CGet bc_capacity_get [of hash k c]
      by (intro step [of c1 r]) (auto simp: coherent_def)
  next
    case (CAdd k v)
    have co: "coherent (bc_holds hash) (\<lambda>k v. CAdd k v \<in> set (done @ [x])) c"
      using Cons.prems(2) by (auto simp: coherent_def)
    obtain c1 where a: "bc_Add hash k v c = Some c1" "bc_inv c1"
      "coherent (bc_holds hash) (\<lambda>k v. CAdd k v \<in> set (done @ [x])) c1"
      using bc.add_coherent [OF Cons.prems(1) co, of k v] CAdd by auto
    show ?thesis
      using a CAdd bc_capacity_Add [OF a(1)] by (intro step [of c1 None]) simp_all
  qed
qed simp

text \<open>
  C10.  Every sequence of operations on a fresh block cache runs to completion,
  the eviction loop included; the cache never holds more bytes than its
  capacity; and a hit returns a value that was added under that key before.
\<close>

theorem cache_bounded_coherent:
  assumes "0 \<le> cap"
  shows "\<exists>rs c. cache_run hash ops (newBlockCache cap) = Some (rs, c) \<and> bc_Size c \<le> cap
    \<and> (\<forall>i<length ops. \<forall>k v. ops ! i = CGet k \<and> rs ! i = Some v \<longrightarrow> CAdd k v \<in> set (take i ops))"
proof -
  have "coherent (bc_holds hash) (\<lambda>k v. CAdd k v \<in> set []) (newBlockCache cap)"
    using bc_inv_new [OF assms] by (simp add: coherent_def)
  moreover have "bc_capacity (newBlockCache cap) = cap" by (simp add: newBlockCache_def Let_def)
  ultimately show ?thesis
    using cache_run_ok [of "newBlockCache cap" hash "[]" ops] bc_inv_new [OF assms, of hash] bc_Size_le by fastforce
qed

theorem cache_bounded_coherent_witness:
  "\<exists>rs c. cache_run (\<lambda>b. 3) [CAdd \<lparr>ck_Table = 1, ck_Offset = 0\<rparr> [7], CGet \<lparr>ck_Table = 1, ck_Offset = 0\<rparr>]
      (newBlockCache 100) = Some (rs, c) \<and> bc_Size c \<le> 100"
proof -
  have "0 \<le> (100 :: int)" by simp
  from cache_bounded_coherent [OF this, of "\<lambda>b. 3"
      "[CAdd \<lparr>ck_Table = 1, ck_Offset = 0\<rparr> [7], CGet \<lparr>ck_Table = 1, ck_Offset = 0\<rparr>]"]
  show ?thesis by blast
qed

text \<open>
  C28.  The linked-list shard implements the least-recently-used list: a lookup
  returns what the list holds and moves it to the front, and an insertion puts
  the new value in front and drops the oldest entries that no longer fit.
\<close>

theorem shard_refines_lru:
  assumes "shard_rep s l" "0 \<le> sh_capacity s"
  shows "fst (shard_get k s) = fst (lru_get k l) \<and> shard_rep (snd (shard_get k s)) (snd (lru_get k l))
    \<and> (\<exists>s'. shard_add k v s = Some s' \<and> shard_rep s' (lru_add (sh_capacity s) k v l))"
  using shard_get_rep [OF assms(1)] shard_add_rep [OF assms] by blast

theorem shard_refines_lru_witness:
  "\<exists>s'. shard_add \<lparr>ck_Table = 1, ck_Offset = 0\<rparr> [7] (newCacheShard 10) = Some s'
     \<and> shard_rep s' [(\<lparr>ck_Table = 1, ck_Offset = 0\<rparr>, [7])]"
proof -
  have "lru_add 10 \<lparr>ck_Table = 1, ck_Offset = 0\<rparr> [7] [] = [(\<lparr>ck_Table = 1, ck_Offset = 0\<rparr>, [7])]"
    by (simp add: lru_add_def lru_trim.simps lru_size_def)
  moreover have "sh_capacity (newCacheShard 10) = 10" by (simp add: newCacheShard_def)
  ultimately show ?thesis
    using shard_refines_lru [OF shard_rep_new [of 10], of "\<lparr>ck_Table = 1, ck_Offset = 0\<rparr>" "[7]"] by simp
qed

end
