(* ===== verification/Alloc.thy ===== *)
theory Alloc
  imports Lv_Prelude
begin

text \<open>
  The file-number allocator (\<^verbatim>\<open>engine_alloc.go\<close>): a counter advanced by a
  compare-and-swap loop.  \<open>Next\<close> is the loop run alone; the step relation
  interleaves any number of callers at the granularity of the atomic load and the
  compare-and-swap.  Numbers handed out are never zero and never handed out
  twice, under every interleaving.
\<close>

record allocatorT =
  alloc_n :: u32

definition newAllocator :: "u32 \<Rightarrow> allocatorT" where
  "newAllocator start = \<lparr>alloc_n = start\<rparr>"

text \<open>The atomic operations of \<^verbatim>\<open>atomic.Uint32\<close> the loop uses.\<close>

definition Load :: "allocatorT \<Rightarrow> u32" where
  "Load a = alloc_n a"

definition CompareAndSwap :: "u32 \<Rightarrow> u32 \<Rightarrow> allocatorT \<Rightarrow> bool \<times> allocatorT" where
  "CompareAndSwap old new a = (if alloc_n a = old then (True, a\<lparr>alloc_n := new\<rparr>) else (False, a))"

text \<open>A caller that runs alone: the compare-and-swap of the first pass succeeds.\<close>

definition Next :: "allocatorT \<Rightarrow> u32 \<times> allocatorT" where
  "Next a =
     (let current = Load a
      in if current = NOT 0 then (0, a)
         else let (ok, a') = CompareAndSwap current (current + 1) a
              in if ok then (current + 1, a') else (0, a'))"

section \<open>Interleaved callers\<close>

text \<open>A caller is about to load, holds a loaded value, or has returned a number.\<close>

datatype caller = Loading | Loaded u32 | Returned u32

record alloc_sys =
  shared :: allocatorT
  callers :: "nat \<Rightarrow> caller"
  handed :: "u32 list"

inductive alloc_step :: "alloc_sys \<Rightarrow> alloc_sys \<Rightarrow> bool" where
  load: "callers s t = Loading \<Longrightarrow>
    alloc_step s (s\<lparr>callers := (callers s)(t := Loaded (Load (shared s)))\<rparr>)"
| exhausted: "callers s t = Loaded c \<Longrightarrow> c = NOT 0 \<Longrightarrow>
    alloc_step s (s\<lparr>callers := (callers s)(t := Returned 0)\<rparr>)"
| swapped: "callers s t = Loaded c \<Longrightarrow> c \<noteq> NOT 0 \<Longrightarrow>
    CompareAndSwap c (c + 1) (shared s) = (True, a') \<Longrightarrow>
    alloc_step s (s\<lparr>shared := a', callers := (callers s)(t := Returned (c + 1)), handed := handed s @ [c + 1]\<rparr>)"
| retry: "callers s t = Loaded c \<Longrightarrow> c \<noteq> NOT 0 \<Longrightarrow>
    CompareAndSwap c (c + 1) (shared s) = (False, a') \<Longrightarrow>
    alloc_step s (s\<lparr>shared := a', callers := (callers s)(t := Loading)\<rparr>)"
| again: "callers s t = Returned r \<Longrightarrow>
    alloc_step s (s\<lparr>callers := (callers s)(t := Loading)\<rparr>)"

inductive_cases alloc_stepE: "alloc_step s s'"

inductive alloc_reach :: "u32 \<Rightarrow> alloc_sys \<Rightarrow> bool" for start where
  init: "alloc_reach start \<lparr>shared = newAllocator start, callers = (\<lambda>_. Loading), handed = []\<rparr>"
| step: "alloc_reach start s \<Longrightarrow> alloc_step s s' \<Longrightarrow> alloc_reach start s'"

lemma not_zero_max: "(NOT 0 :: u32) = 0xffffffff"
proof -
  have "(0xffffffff :: u32) + 1 = 0" by simp
  then show ?thesis by (simp add: eq_neg_iff_add_eq_0 [symmetric])
qed

lemma CAS_true: "CompareAndSwap c d a = (True, a') \<longleftrightarrow> alloc_n a = c \<and> a' = a\<lparr>alloc_n := d\<rparr>"
  by (auto simp: CompareAndSwap_def)

lemma CAS_false: "CompareAndSwap c d a = (False, a') \<longleftrightarrow> alloc_n a \<noteq> c \<and> a' = a"
  by (auto simp: CompareAndSwap_def)

lemma unat_inc: "(c :: u32) \<noteq> NOT 0 \<Longrightarrow> unat (c + 1) = Suc (unat c)"
proof -
  assume "c \<noteq> NOT 0"
  then have "unat c \<noteq> unat (0xffffffff :: u32)" by (metis not_zero_max word_unat_eq_iff)
  then have "unat c \<noteq> 4294967295" by simp
  with unsigned_less [of c, where ?'a = nat] show ?thesis by (simp add: unat_word_ariths)
qed

text \<open>
  The invariant: the numbers handed out are exactly the consecutive values above
  the start up to the counter.
\<close>

definition alloc_inv :: "u32 \<Rightarrow> alloc_sys \<Rightarrow> bool" where
  "alloc_inv start s \<longleftrightarrow> start \<le> alloc_n (shared s)
     \<and> map unat (handed s) = [Suc (unat start) ..< Suc (unat (alloc_n (shared s)))]"

lemma alloc_inv_step: "alloc_step s s' \<Longrightarrow> alloc_inv start s \<Longrightarrow> alloc_inv start s'"
proof (induction rule: alloc_step.induct)
  case (swapped s t c a')
  then have "unat (c + 1) = Suc (unat c)" by (simp add: unat_inc)
  with swapped show ?case
    by (auto simp: alloc_inv_def CAS_true word_le_nat_alt)
qed (auto simp: alloc_inv_def CAS_false)

lemma alloc_inv_reach: "alloc_reach start s \<Longrightarrow> alloc_inv start s"
proof (induction rule: alloc_reach.induct)
  case init
  then show ?case by (simp add: alloc_inv_def newAllocator_def)
next
  case (step s s')
  then show ?case by (blast intro: alloc_inv_step)
qed

section \<open>Properties\<close>

text \<open>
  C20.  Under every interleaving of any number of callers the allocator hands out
  each number at most once, in increasing order, always above the number it was
  started with and never zero, so the zero it returns when the 32-bit namespace
  is exhausted is never a valid file number.
\<close>

theorem alloc_unique:
  assumes "alloc_reach start s"
  shows "distinct (handed s) \<and> sorted (handed s) \<and> (\<forall>n\<in>set (handed s). start < n \<and> n \<noteq> 0)
    \<and> length (handed s) = unat (alloc_n (shared s)) - unat start"
proof -
  from alloc_inv_reach [OF assms]
  have m: "map unat (handed s) = [Suc (unat start) ..< Suc (unat (alloc_n (shared s)))]"
    by (simp add: alloc_inv_def)
  have "distinct (map unat (handed s))" "sorted (map unat (handed s))" unfolding m by (simp_all only: distinct_upt sorted_upt)
  moreover have "start < n \<and> n \<noteq> 0" if "n \<in> set (handed s)" for n
  proof -
    from that m [THEN arg_cong, of set] have "unat n \<in> {Suc (unat start) ..< Suc (unat (alloc_n (shared s)))}"
      by (auto simp del: upt_Suc)
    then show ?thesis by (auto simp: word_less_nat_alt)
  qed
  moreover have "length (handed s) = unat (alloc_n (shared s)) - unat start"
    using m by (metis diff_Suc_Suc length_map length_upt)
  moreover have "sorted (handed s)"
    using \<open>sorted (map unat (handed s))\<close> unfolding sorted_map word_le_nat_alt [symmetric] .
  ultimately show ?thesis
    by (simp only: distinct_map) blast
qed

theorem alloc_unique_witness:
  "alloc_reach 4 \<lparr>shared = \<lparr>alloc_n = 5\<rparr>, callers = (\<lambda>_. Loading)(0 := Loaded 4, 1 := Returned 5), handed = [5]\<rparr>
   \<and> distinct [5 :: u32]"
proof -
  let ?s0 = "\<lparr>shared = newAllocator 4, callers = (\<lambda>_. Loading), handed = []\<rparr>"
  let ?s1 = "?s0\<lparr>callers := (\<lambda>_. Loading)(0 := Loaded 4)\<rparr>"
  let ?s2 = "?s1\<lparr>callers := (\<lambda>_. Loading)(0 := Loaded 4, 1 := Loaded 4)\<rparr>"
  let ?s3 = "\<lparr>shared = \<lparr>alloc_n = 5\<rparr>, callers = (\<lambda>_. Loading)(0 := Loaded 4, 1 := Returned 5), handed = [5]\<rparr>"
  have "alloc_reach 4 ?s1"
    using alloc_reach.step [OF alloc_reach.init alloc_step.load [of ?s0 0]] by (simp add: Load_def newAllocator_def)
  then have "alloc_reach 4 ?s2"
    using alloc_reach.step [OF _ alloc_step.load [of ?s1 1]] by (simp add: Load_def newAllocator_def)
  then have r: "alloc_reach 4 ?s3"
    using alloc_reach.step [OF _ alloc_step.swapped [of ?s2 1 4 "\<lparr>alloc_n = 5\<rparr>"]]
    by (simp add: CompareAndSwap_def newAllocator_def)
  from alloc_unique [OF r] r show ?thesis by simp
qed

end
