(* ===== verification/Blob.thy ===== *)
theory Blob
  imports Alloc Wal_Record
begin

text \<open>
  Expiring values (\<^verbatim>\<open>ttl.go\<close>) and value separation (\<^verbatim>\<open>blob.go\<close>): the stored form of
  a value with a deadline, the fixed-width blob pointer, and the blob writer over
  a directory of blob files.  The writer's calls into the file system take their
  outcomes from a schedule, so every error path of the code is a branch.  The
  lemmas show the two encodings round-trip, and that every pointer the writer
  returned reads back the value it was given, however many files it rolled
  through, with the sealed sizes the manifest records being the true ones.
\<close>

section \<open>Values with a deadline\<close>

definition expiryPrefixLen :: nat where "expiryPrefixLen = 8"

definition encodeExpiringValue :: "bytes \<Rightarrow> int \<Rightarrow> bytes" where
  "encodeExpiringValue val expiresAt = PutUint64 (word_of_int expiresAt) @ val"

definition decodeExpiringValue :: "bytes \<Rightarrow> (bytes \<times> int) result" where
  "decodeExpiringValue stored =
     (if length stored < expiryPrefixLen then Inl (Errorf ''ttl: truncated expiration metadata'')
      else let expiresAt = sint (Uint64 (take expiryPrefixLen stored))
           in if expiresAt \<le> 0 then Inl (Errorf ''ttl: invalid expiration timestamp'')
              else Inr (drop expiryPrefixLen stored, expiresAt))"

definition validateExpiresAt :: "int \<Rightarrow> int \<Rightarrow> unit result" where
  "validateExpiresAt now expiresAt =
     (if expiresAt = 0 then Inr ()
      else if expiresAt \<le> now then Inl ErrInvalidTTL
      else Inr ())"

lemma sint_word_of_int64: "int64_range x \<Longrightarrow> sint (word_of_int x :: u64) = x"
  by (simp add: signed_of_int signed_take_bit_int_eq_self int64_range_def)

lemma decodeExpiringValue_encode:
  "0 < d \<Longrightarrow> int64_range d \<Longrightarrow> decodeExpiringValue (encodeExpiringValue v d) = Inr (v, d)"
  by (simp add: decodeExpiringValue_def encodeExpiringValue_def expiryPrefixLen_def sint_word_of_int64)

lemma decodeExpiringValue_inv:
  assumes "decodeExpiringValue stored = Inr (v, d)"
  shows "0 < d \<and> int64_range d \<and> encodeExpiringValue v d = stored"
proof -
  let ?w = "Uint64 (take 8 stored)"
  from assms have d: "d = sint ?w" and v: "v = drop 8 stored" and len: "8 \<le> length stored" and pos: "0 < d"
    by (auto simp: decodeExpiringValue_def expiryPrefixLen_def Let_def split: if_splits)
  have "int64_range d"
    using sint_greater_eq [of ?w] sint_less [of ?w] unfolding d int64_range_def by simp
  moreover have "PutUint64 ?w = take 8 stored" using len by (intro PutUint64_Uint64) simp
  then have "encodeExpiringValue v d = stored" unfolding encodeExpiringValue_def d v by simp
  ultimately show ?thesis using pos by simp
qed

section \<open>Blob pointers\<close>

record blobPointer =
  bp_num :: u32
  bp_offset :: u64
  bp_length :: u32
  bp_expiresAt :: int

definition blobPointerLen :: nat where "blobPointerLen = 4 + 8 + 4 + 8"

definition encodeBlobPointer :: "bytes \<Rightarrow> blobPointer \<Rightarrow> bytes" where
  "encodeBlobPointer dst p =
     dst @ PutUint32 (bp_num p) @ PutUint64 (bp_offset p) @ PutUint32 (bp_length p)
     @ PutUint64 (word_of_int (bp_expiresAt p))"

definition decodeBlobPointer :: "bytes \<Rightarrow> blobPointer result" where
  "decodeBlobPointer v =
     (if length v \<noteq> blobPointerLen then Inl (Errorf ''blob: pointer length'')
      else Inr \<lparr>bp_num = Uint32 (drop 0 v), bp_offset = Uint64 (drop 4 v),
                bp_length = Uint32 (drop 12 v), bp_expiresAt = sint (Uint64 (drop 16 v))\<rparr>)"

lemma length_encodeBlobPointer [simp]: "length (encodeBlobPointer [] p) = blobPointerLen"
  by (simp add: encodeBlobPointer_def blobPointerLen_def)

lemma decodeBlobPointer_encode:
  "int64_range (bp_expiresAt p) \<Longrightarrow> decodeBlobPointer (encodeBlobPointer [] p) = Inr p"
  by (simp add: decodeBlobPointer_def) (simp add: encodeBlobPointer_def sint_word_of_int64)

section \<open>The blob writer\<close>

record blobFileMeta =
  bf_Num :: u32
  bf_Size :: int

text \<open>The directory of blob files, with the outcomes of the calls still to come.\<close>

record blobfs =
  blobs :: "u32 \<rightharpoonup> bytes"
  bsched :: io_sched

record blobWriter =
  bw_alloc :: allocatorT
  rollSize :: int
  cur :: "u32 option"
  bw_off :: int
  finished :: "blobFileMeta list"

definition DefaultBlobFileSize :: int where "DefaultBlobFileSize = push_bit 20 256"

definition newBlobWriter :: "allocatorT \<Rightarrow> int \<Rightarrow> blobWriter" where
  "newBlobWriter a roll =
     \<lparr>bw_alloc = a, rollSize = (if roll \<le> 0 then DefaultBlobFileSize else roll),
      cur = None, bw_off = 0, finished = []\<rparr>"

definition bio :: "blobfs \<Rightarrow> io_outcome \<times> blobfs" where
  "bio fs = (let (x, s) = io_next (bsched fs) in (x, fs\<lparr>bsched := s\<rparr>))"

definition sealCurrent :: "blobWriter \<Rightarrow> blobfs \<Rightarrow> unit result \<times> blobWriter \<times> blobfs" where
  "sealCurrent w fs =
     (case cur w of None \<Rightarrow> (Inr (), w, fs)
      | Some num \<Rightarrow>
        let size = bw_off w; w = w\<lparr>cur := None, bw_off := 0\<rparr>; (sync, fs) = bio fs
        in case sync of IO_fail _ err \<Rightarrow> let (_, fs) = bio fs in (Inl err, w, fs)
        | IO_ok \<Rightarrow>
          let (close, fs) = bio fs
          in case close of IO_fail _ err \<Rightarrow> (Inl err, w, fs)
          | IO_ok \<Rightarrow>
            let (sdir, fs) = bio fs
            in case sdir of IO_fail _ err \<Rightarrow> (Inl err, w, fs)
            | IO_ok \<Rightarrow> (Inr (), w\<lparr>finished := finished w @ [\<lparr>bf_Num = num, bf_Size = size\<rparr>]\<rparr>, fs))"

definition roll :: "blobWriter \<Rightarrow> blobfs \<Rightarrow> unit result \<times> blobWriter \<times> blobfs" where
  "roll w fs =
     (let (r, w, fs) = sealCurrent w fs
      in case r of Inl err \<Rightarrow> (Inl err, w, fs)
      | Inr _ \<Rightarrow>
        let (num, a) = Next (bw_alloc w); w = w\<lparr>bw_alloc := a\<rparr>
        in if num = 0 then (Inl ErrFileNumberExhausted, w, fs)
        else let (path, fs) = bio fs
        in case path of IO_fail _ err \<Rightarrow> (Inl err, w, fs)
        | IO_ok \<Rightarrow>
          if blobs fs num \<noteq> None then (Inl IoError, w, fs)
          else let (op, fs) = bio fs
          in case op of IO_fail _ err \<Rightarrow> (Inl err, w, fs)
          | IO_ok \<Rightarrow> (Inr (), w\<lparr>cur := Some num, bw_off := 0\<rparr>, fs\<lparr>blobs := (blobs fs)(num \<mapsto> [])\<rparr>))"

text \<open>\<^verbatim>\<open>os.File.Write\<close> at the end of file \<open>num\<close>.\<close>

definition blob_write :: "u32 \<Rightarrow> bytes \<Rightarrow> blobfs \<Rightarrow> unit result \<times> blobfs" where
  "blob_write num val fs =
     (let (x, fs) = bio fs; old = (case blobs fs num of None \<Rightarrow> [] | Some c \<Rightarrow> c)
      in case x of IO_ok \<Rightarrow> (Inr (), fs\<lparr>blobs := (blobs fs)(num \<mapsto> old @ val)\<rparr>)
         | IO_fail k err \<Rightarrow> (Inl err, fs\<lparr>blobs := (blobs fs)(num \<mapsto> old @ take k val)\<rparr>))"

definition blob_append :: "blobWriter \<Rightarrow> bytes \<Rightarrow> int \<Rightarrow> blobfs \<Rightarrow> blobPointer result \<times> blobWriter \<times> blobfs" where
  "blob_append w val expiresAt fs =
     (let (r, w, fs) = (if cur w = None \<or> rollSize w \<le> bw_off w then roll w fs else (Inr (), w, fs))
      in case r of Inl err \<Rightarrow> (Inl err, w, fs)
      | Inr _ \<Rightarrow>
        case cur w of None \<Rightarrow> (Inl IoError, w, fs)
        | Some num \<Rightarrow>
          let off = bw_off w; (wr, fs) = blob_write num val fs
          in case wr of Inl err \<Rightarrow> (Inl err, w, fs)
          | Inr _ \<Rightarrow>
            (Inr \<lparr>bp_num = num, bp_offset = word_of_int off, bp_length = word_of_nat (length val),
                   bp_expiresAt = expiresAt\<rparr>, w\<lparr>bw_off := bw_off w + int (length val)\<rparr>, fs))"

definition blob_close :: "blobWriter \<Rightarrow> blobfs \<Rightarrow> blobFileMeta list result \<times> blobWriter \<times> blobfs" where
  "blob_close w fs =
     (let (r, w, fs) = sealCurrent w fs
      in case r of Inl err \<Rightarrow> (Inl err, w, fs) | Inr _ \<Rightarrow> (Inr (finished w), w, fs))"

definition abandon :: "blobWriter \<Rightarrow> blobfs \<Rightarrow> blobWriter \<times> blobfs" where
  "abandon w fs =
     (case cur w of None \<Rightarrow> (w, fs)
      | Some num \<Rightarrow>
        let (_, fs) = bio fs; (rm, fs) = bio fs
        in (w\<lparr>cur := None, bw_off := 0\<rparr>,
            case rm of IO_ok \<Rightarrow> fs\<lparr>blobs := (blobs fs)(num := None)\<rparr> | IO_fail _ _ \<Rightarrow> fs))"

text \<open>\<^verbatim>\<open>blobReader.read\<close> on the file the pointer names.\<close>

definition blob_read :: "bytes \<Rightarrow> blobPointer \<Rightarrow> bytes result" where
  "blob_read file p =
     (case ReadAt file (sint (bp_offset p)) (unat (bp_length p)) of
        Inl err \<Rightarrow> Inl (Wrapped ''blob: read'' err)
      | Inr buf \<Rightarrow> Inr buf)"

text \<open>A run of appends, stopping at the first error, as the flush loop makes it.\<close>

fun append_all :: "blobWriter \<Rightarrow> (bytes \<times> int) list \<Rightarrow> blobfs \<Rightarrow> blobPointer list result \<times> blobWriter \<times> blobfs" where
  "append_all w [] fs = (Inr [], w, fs)"
| "append_all w ((v, d) # vs) fs =
     (let (r, w, fs) = blob_append w v d fs
      in case r of Inl err \<Rightarrow> (Inl err, w, fs)
      | Inr p \<Rightarrow>
        let (rs, w, fs) = append_all w vs fs
        in case rs of Inl err \<Rightarrow> (Inl err, w, fs) | Inr ps \<Rightarrow> (Inr (p # ps), w, fs))"

section \<open>What the writer keeps\<close>

definition bw_inv :: "blobWriter \<Rightarrow> blobfs \<Rightarrow> bool" where
  "bw_inv w fs \<longleftrightarrow> 0 < rollSize w \<and> rollSize w < 2 ^ 63
     \<and> (\<forall>n. cur w = Some n \<longrightarrow> n \<notin> bf_Num ` set (finished w)
          \<and> (\<exists>c. blobs fs n = Some c \<and> bw_off w = int (length c)))
     \<and> (\<forall>m\<in>set (finished w). \<exists>c. blobs fs (bf_Num m) = Some c \<and> bf_Size m = int (length c))"

text \<open>Files only grow, and the writer's own files are those sealed and the current one.\<close>

definition fs_ext :: "blobfs \<Rightarrow> blobfs \<Rightarrow> bool" where
  "fs_ext fs fs' \<longleftrightarrow> (\<forall>n c. blobs fs n = Some c \<longrightarrow> (\<exists>d. blobs fs' n = Some (c @ d)))"

definition bw_files :: "blobWriter \<Rightarrow> u32 set" where
  "bw_files w = set_option (cur w) \<union> bf_Num ` set (finished w)"

lemma fs_ext_refl [simp]: "fs_ext fs fs"
  by (simp add: fs_ext_def)

lemma fs_ext_trans: "fs_ext a b \<Longrightarrow> fs_ext b c \<Longrightarrow> fs_ext a c"
  unfolding fs_ext_def by (metis append.assoc)

lemma bio_blobs [simp]: "bio fs = (x, fs') \<Longrightarrow> blobs fs' = blobs fs"
  by (auto simp: bio_def split: prod.splits)

lemma newBlobWriter_inv: "r < 2 ^ 63 \<Longrightarrow> bw_inv (newBlobWriter a r) fs"
  by (simp add: bw_inv_def newBlobWriter_def DefaultBlobFileSize_def push_bit_eq_mult)

lemma sealCurrent_ok:
  assumes "sealCurrent w fs = (Inr u, w', fs')" "bw_inv w fs"
  shows "bw_inv w' fs' \<and> blobs fs' = blobs fs \<and> cur w' = None \<and> bw_files w' = bw_files w \<and> rollSize w' = rollSize w"
  using assms
  by (auto simp: sealCurrent_def bw_inv_def bw_files_def Let_def split: option.splits prod.splits io_outcome.splits)

lemma roll_ok:
  assumes "roll w fs = (Inr u, w', fs')" "bw_inv w fs"
  shows "bw_inv w' fs' \<and> fs_ext fs fs' \<and> bw_files w \<subseteq> bw_files w' \<and> rollSize w' = rollSize w
    \<and> bw_off w' < rollSize w'"
proof -
  obtain r1 w1 fs1 where s: "sealCurrent w fs = (r1, w1, fs1)" by (cases "sealCurrent w fs") auto
  obtain num a where n: "Next (bw_alloc w1) = (num, a)" by fastforce
  obtain x fs2 where b2: "bio fs1 = (x, fs2)" by fastforce
  obtain y fs3 where b3: "bio fs2 = (y, fs3)" by fastforce
  from assms(1) obtain u1 where r: "r1 = Inr u1" and fresh: "blobs fs2 num = None"
    and w': "w' = w1\<lparr>bw_alloc := a, cur := Some num, bw_off := 0\<rparr>"
    and fs': "fs' = fs3\<lparr>blobs := (blobs fs3)(num \<mapsto> [])\<rparr>"
    by (auto simp: roll_def s n b2 b3 Let_def split: sum.splits if_splits io_outcome.splits)
  from sealCurrent_ok [OF s [unfolded r] assms(2)]
  have i1: "bw_inv w1 fs1" and bl: "blobs fs1 = blobs fs" and fl: "bw_files w1 = bw_files w"
    and c1: "cur w1 = None" and rs: "rollSize w1 = rollSize w" by auto
  have same: "blobs fs3 = blobs fs" using bl b2 b3 by (metis bio_blobs)
  have fr: "blobs fs num = None" using fresh bl b2 by (metis bio_blobs)
  then have "bw_inv w' fs'" using i1 bl same
    by (force simp: bw_inv_def w' fs' image_iff)
  moreover have "fs_ext fs fs'" using fr same by (auto simp: fs_ext_def fs')
  moreover have "bw_files w \<subseteq> bw_files w'" using fl c1 by (auto simp: bw_files_def w')
  ultimately show ?thesis using i1 rs by (simp add: w' bw_inv_def)
qed

lemma blob_write_ok:
  assumes "blob_write num v fs = (Inr u, fs')" "blobs fs num = Some c"
  shows "blobs fs' = (blobs fs)(num \<mapsto> c @ v)"
  using assms by (auto simp: blob_write_def Let_def split: prod.splits io_outcome.splits)

lemma blob_append_ok:
  assumes "blob_append w v d fs = (Inr p, w', fs')" "bw_inv w fs" "length v < 2 ^ 32"
  shows "bw_inv w' fs' \<and> fs_ext fs fs' \<and> bw_files w \<subseteq> bw_files w' \<and> bp_num p \<in> bw_files w'
    \<and> bp_expiresAt p = d \<and> (\<exists>c. blobs fs' (bp_num p) = Some c \<and> blob_read c p = Inr v)"
proof -
  obtain r1 w1 fs1 where s: "(if cur w = None \<or> rollSize w \<le> bw_off w then roll w fs else (Inr (), w, fs)) = (r1, w1, fs1)"
    by (cases "if cur w = None \<or> rollSize w \<le> bw_off w then roll w fs else (Inr (), w, fs)") auto
  from assms(1) obtain u num where r: "r1 = Inr u" and cu: "cur w1 = Some num"
    by (auto simp: blob_append_def s Let_def split: sum.splits option.splits)
  obtain r2 fs2 where wr: "blob_write num v fs1 = (r2, fs2)" by fastforce
  from assms(1) obtain u2 where r2: "r2 = Inr u2"
    and p: "p = \<lparr>bp_num = num, bp_offset = word_of_int (bw_off w1), bp_length = word_of_nat (length v), bp_expiresAt = d\<rparr>"
    and w': "w' = w1\<lparr>bw_off := bw_off w1 + int (length v)\<rparr>" and fs': "fs' = fs2"
    by (auto simp: blob_append_def s r cu wr Let_def split: sum.splits)
  have 1: "bw_inv w1 fs1 \<and> fs_ext fs fs1 \<and> bw_files w \<subseteq> bw_files w1 \<and> bw_off w1 < rollSize w1"
    using s assms(2) roll_ok [OF _ assms(2), of u w1 fs1] r by (auto split: if_splits)
  with cu obtain c where c: "blobs fs1 num = Some c" "bw_off w1 = int (length c)" by (auto simp: bw_inv_def)
  have bl: "blobs fs' = (blobs fs1)(num \<mapsto> c @ v)" using blob_write_ok [OF wr [unfolded r2] c(1)] fs' by simp
  have "bw_inv w' fs'" using 1 cu c by (auto simp: bw_inv_def w' bl)
  moreover have "fs_ext fs1 fs'" by (auto simp: fs_ext_def bl c)
  then have "fs_ext fs fs'" using 1 fs_ext_trans by blast
  moreover have "bw_files w \<subseteq> bw_files w' \<and> bp_num p \<in> bw_files w'"
    using 1 cu by (auto simp: bw_files_def w' p)
  moreover have "int64_range (bw_off w1)" using 1 c(2) by (simp add: bw_inv_def int64_range_def)
  then have "sint (bp_offset p) = int (length c)" unfolding c(2) using sint_word_of_int64 [of "int (length c)"] by (simp add: p c(2))
  then have "blob_read (c @ v) p = Inr v"
    using ReadAt_ok [of c "length c" v "length v" "[]"] assms(3)
    by (simp add: blob_read_def) (simp add: p unat_of_nat)
  ultimately show ?thesis by (simp add: bl p)
qed

lemma blob_read_ext:
  "blobs fs n = Some c \<Longrightarrow> blob_read c p = Inr v \<Longrightarrow> fs_ext fs fs' \<Longrightarrow>
   \<exists>c'. blobs fs' n = Some c' \<and> blob_read c' p = Inr v"
proof -
  assume a: "blobs fs n = Some c" "blob_read c p = Inr v" "fs_ext fs fs'"
  then obtain e where "blobs fs' n = Some (c @ e)" by (auto simp: fs_ext_def)
  moreover have "ReadAt c (sint (bp_offset p)) (unat (bp_length p)) = Inr v"
    using a(2) by (simp add: blob_read_def split: sum.splits)
  then have "blob_read (c @ e) p = Inr v" by (simp add: blob_read_def ReadAt_append)
  ultimately show ?thesis by blast
qed

lemma append_all_ok:
  "append_all w vs fs = (Inr ps, w', fs') \<Longrightarrow> bw_inv w fs \<Longrightarrow> \<forall>(v, d)\<in>set vs. length v < 2 ^ 32 \<Longrightarrow>
   bw_inv w' fs' \<and> fs_ext fs fs' \<and> bw_files w \<subseteq> bw_files w' \<and>
   list_all2 (\<lambda>(v, d) p. bp_num p \<in> bw_files w' \<and> bp_expiresAt p = d \<and>
     (\<exists>c. blobs fs' (bp_num p) = Some c \<and> blob_read c p = Inr v)) vs ps"
proof (induction vs arbitrary: w fs ps)
  case Nil
  then show ?case by simp
next
  case (Cons vd vs)
  obtain v d where vd: "vd = (v, d)" by fastforce
  obtain r1 w1 fs1 where a: "blob_append w v d fs = (r1, w1, fs1)" by (cases "blob_append w v d fs") auto
  obtain r2 w2 fs2 where t: "append_all w1 vs fs1 = (r2, w2, fs2)" by (cases "append_all w1 vs fs1") auto
  from Cons.prems(1) obtain p ps' where r: "r1 = Inr p" "r2 = Inr ps'" "ps = p # ps'" "w2 = w'" "fs2 = fs'"
    by (auto simp: vd a t Let_def split: sum.splits)
  from Cons.prems vd have len: "length v < 2 ^ 32" and lens: "\<forall>(v, d)\<in>set vs. length v < 2 ^ 32" by auto
  note A = blob_append_ok [OF a [unfolded r] Cons.prems(2) len]
  with Cons.IH [OF t [unfolded r] _ lens]
  have B: "bw_inv w' fs'" "fs_ext fs1 fs'" "bw_files w1 \<subseteq> bw_files w'"
    "list_all2 (\<lambda>(v, d) p. bp_num p \<in> bw_files w' \<and> bp_expiresAt p = d \<and>
     (\<exists>c. blobs fs' (bp_num p) = Some c \<and> blob_read c p = Inr v)) vs ps'" by auto
  have "\<exists>c. blobs fs' (bp_num p) = Some c \<and> blob_read c p = Inr v"
    using A B(2) blob_read_ext by blast
  with A B fs_ext_trans show ?case unfolding vd r(3) by auto
qed

section \<open>Properties\<close>

text \<open>
  C9.  Every value written out of line can be read back: for any run of appends
  that succeeds on a fresh writer, followed by a successful close, each returned
  pointer survives its own encoding, names a file the close reports, carries the
  deadline it was given and reads exactly its value; and the size reported for
  each file is the true one.  Files that were there before only survive
  unchanged or extended.
\<close>

theorem blob_writer_readback:
  assumes "append_all (newBlobWriter a r) vs fs = (Inr ps, w1, fs1)"
    and "blob_close w1 fs1 = (Inr fin, w2, fs2)"
    and "r < 2 ^ 63" "\<forall>(v, d)\<in>set vs. length v < 2 ^ 32 \<and> int64_range d"
  shows "list_all2 (\<lambda>(v, d) p. decodeBlobPointer (encodeBlobPointer [] p) = Inr p \<and> bp_expiresAt p = d
      \<and> bp_num p \<in> bf_Num ` set fin \<and> (\<exists>c. blobs fs2 (bp_num p) = Some c \<and> blob_read c p = Inr v)) vs ps
    \<and> (\<forall>m\<in>set fin. \<exists>c. blobs fs2 (bf_Num m) = Some c \<and> bf_Size m = int (length c))
    \<and> fs_ext fs fs2"
proof -
  obtain s w' fs' where sl: "sealCurrent w1 fs1 = (s, w', fs')" by (cases "sealCurrent w1 fs1") auto
  from assms(2) obtain u where s: "s = Inr u" and e: "fin = finished w2" "w' = w2" "fs' = fs2"
    by (auto simp: blob_close_def sl split: sum.splits)
  have len: "\<forall>(v, d)\<in>set vs. length v < 2 ^ 32" using assms(4) by auto
  note A = append_all_ok [OF assms(1) newBlobWriter_inv [OF assms(3)] len]
  then have B: "bw_inv w2 fs2" "blobs fs2 = blobs fs1" "cur w2 = None" "bw_files w2 = bw_files w1"
    using sealCurrent_ok [OF sl [unfolded s e]] by auto
  then have fin: "bw_files w1 = bf_Num ` set fin" by (simp add: bw_files_def e)
  have "list_all2 (\<lambda>(v, d) p. decodeBlobPointer (encodeBlobPointer [] p) = Inr p \<and> bp_expiresAt p = d
      \<and> bp_num p \<in> bf_Num ` set fin \<and> (\<exists>c. blobs fs2 (bp_num p) = Some c \<and> blob_read c p = Inr v)) vs ps"
  proof (rule list.rel_mono_strong)
    show "list_all2 (\<lambda>(v, d) p. bp_num p \<in> bf_Num ` set fin \<and> bp_expiresAt p = d \<and>
      (\<exists>c. blobs fs2 (bp_num p) = Some c \<and> blob_read c p = Inr v)) vs ps"
      using A unfolding B(2) fin by blast
  qed (use assms(4) in \<open>auto simp: decodeBlobPointer_encode\<close>)
  moreover have "fs_ext fs fs2" using A B(2) by (simp add: fs_ext_def)
  ultimately show ?thesis using B(1) by (auto simp: bw_inv_def e)
qed

theorem blob_writer_readback_witness:
  "\<exists>ps w1 fs1 fin w2 fs2.
     append_all (newBlobWriter (newAllocator 6) 2) [([1, 2, 3], 0), ([4], 9), ([5], 0)] \<lparr>blobs = Map.empty, bsched = []\<rparr>
       = (Inr ps, w1, fs1)
     \<and> blob_close w1 fs1 = (Inr fin, w2, fs2) \<and> map bp_num ps = [7, 8, 8]
     \<and> list_all2 (\<lambda>(v, d) p. \<exists>c. blobs fs2 (bp_num p) = Some c \<and> blob_read c p = Inr v)
          [([1, 2, 3], 0 :: int), ([4], 9), ([5], 0)] ps"
proof -
  let ?fs = "\<lparr>blobs = Map.empty, bsched = []\<rparr>" and ?vs = "[([1, 2, 3], 0), ([4], 9), ([5], 0)] :: (bytes \<times> int) list"
  let ?w = "newBlobWriter (newAllocator 6) 2"
  obtain r1 w1 fs1 where a: "append_all ?w ?vs ?fs = (r1, w1, fs1)" by (cases "append_all ?w ?vs ?fs") auto
  obtain r2 w2 fs2 where b: "blob_close w1 fs1 = (r2, w2, fs2)" by (cases "blob_close w1 fs1") auto
  have "case append_all ?w ?vs ?fs of (r, w, fs) \<Rightarrow> map_sum (\<lambda>_. ()) (map bp_num) r = Inr [7, 8, 8]
      \<and> map_sum (\<lambda>_. ()) (\<lambda>_. ()) (fst (blob_close w fs)) = Inr ()"
    by code_simp
  with a b obtain ps fin where r: "r1 = Inr ps" "map bp_num ps = [7, 8, 8]" "r2 = Inr fin"
    by (cases r1; cases r2) auto
  have "(2 :: int) < 2 ^ 63" "\<forall>(v, d)\<in>set ?vs. length v < 2 ^ 32 \<and> int64_range d"
    by (simp_all add: int64_range_def)
  from blob_writer_readback [OF a [unfolded r] b [unfolded r] this, THEN conjunct1]
  have "list_all2 (\<lambda>(v, d) p. \<exists>c. blobs fs2 (bp_num p) = Some c \<and> blob_read c p = Inr v) ?vs ps"
    by (rule list_all2_mono) auto
  then show ?thesis by (intro exI conjI) (rule a [unfolded r] b [unfolded r] r(2), assumption?)+
qed

text \<open>
  C21.  A value stored with a deadline round-trips: decoding the stored form gives
  the value and the deadline, every byte string the decoder accepts is the stored
  form of what it returns, and a deadline the write path validated at the current
  time is one the decoder accepts.
\<close>

theorem expiring_value_roundtrip:
  "(0 < d \<and> int64_range d \<longrightarrow> decodeExpiringValue (encodeExpiringValue v d) = Inr (v, d))
   \<and> (decodeExpiringValue stored = Inr (v', d') \<longrightarrow>
        0 < d' \<and> int64_range d' \<and> encodeExpiringValue v' d' = stored)
   \<and> (validateExpiresAt now d = Inr () \<and> 0 \<le> now \<longrightarrow> d = 0 \<or> now < d)"
  by (auto simp: decodeExpiringValue_encode dest: decodeExpiringValue_inv)
     (auto simp: validateExpiresAt_def split: if_splits)

theorem expiring_value_roundtrip_witness:
  "decodeExpiringValue (encodeExpiringValue [1, 2] 1700000000) = Inr ([1, 2], 1700000000)
   \<and> encodeExpiringValue [7] 5 = [5, 0, 0, 0, 0, 0, 0, 0, 7]
   \<and> validateExpiresAt 10 11 = Inr ()"
proof -
  have d: "decodeExpiringValue [5, 0, 0, 0, 0, 0, 0, 0, 7] = Inr ([7], 5)" by code_simp
  have "validateExpiresAt 10 1700000000 = Inr ()" "validateExpiresAt 10 11 = Inr ()"
    by (simp_all add: validateExpiresAt_def)
  with expiring_value_roundtrip [of 1700000000 "[1, 2]" "[5, 0, 0, 0, 0, 0, 0, 0, 7]" "[7]" 5 10] d
  show ?thesis by (simp add: int64_range_def)
qed

end
