(* ===== verification/Table_Reader.thy ===== *)
theory Table_Reader
  imports Table_Writer Cache Blob
begin

text \<open>
  The table reader (\<^verbatim>\<open>table_reader.go\<close>): footer and metadata validation, the lazily
  parsed index, bloom and range-tombstone blocks, point lookup through the block
  cache, and the sequential iterator with its read-ahead window.  The file is an
  \<^verbatim>\<open>io.ReaderAt\<close>: any function from offset and length to bytes or an error.  The
  block cache is threaded as a value (\<open>None\<close> is the nil cache); since its eviction
  loop is a partial function, an operation that uses it returns an option whose
  \<open>None\<close> would mean that it does not return.  The metadata mutex and atomic pointer
  only order concurrent loads of the same immutable value.
\<close>

type_synonym readerAt = "int \<Rightarrow> nat \<Rightarrow> bytes result"

record indexEntry =
  ie_sepOff :: u32
  ie_sepLen :: u32
  ie_offset :: u64
  ie_length :: u32

record tableMetaBlocks =
  tm_filter :: bytes
  tm_indexBuf :: bytes
  tm_indexEnt :: "indexEntry list"
  tm_rangeDel :: "rangeTombstone list"

record tableReader =
  tr_r :: readerAt
  tr_size :: int
  tr_indexBH :: blockHandle
  tr_filterBH :: blockHandle
  tr_rangeDelBH :: blockHandle
  tr_meta :: "tableMetaBlocks option"
  tr_tableNum :: u32

section \<open>Reading blocks and metadata\<close>

definition readBlockRaw :: "codecLib \<Rightarrow> tableReader \<Rightarrow> blockHandle \<Rightarrow> bytes result" where
  "readBlockRaw lib tr h =
     (if tr_size tr < int footerLen then Inl (Errorf ''table: block handle out of range'')
      else let dataSize = word_of_int (tr_size tr - int footerLen)
      in if bh_length h < word_of_nat blockTrailerLen \<or> dataSize < bh_length h \<or> dataSize - bh_length h < bh_offset h
         then Inl (Errorf ''table: block handle out of range'')
      else try_then (tr_r tr (sint (bh_offset h)) (unat (bh_length h))) (decodeBlock lib))"

definition max_u32 :: u64 where "max_u32 = 0xffffffff"

function parseIndex_loop ::
  "int \<Rightarrow> bytes \<Rightarrow> u64 \<Rightarrow> nat \<Rightarrow> u64 \<Rightarrow> bytes option \<Rightarrow> indexEntry list \<Rightarrow> indexEntry list result" where
  "parseIndex_loop sz payload dataEnd pos nextOffset previousSep ents =
     (if pos < length payload then
        let (keyLen, n) = Uvarint (drop pos payload)
        in if n \<le> 0 then Inl (Errorf ''bad separator length'')
        else let pos1 = pos + nat n
        in if keyLen < word_of_nat trailerLen \<or> word_of_nat (length payload - pos1) < keyLen \<or> max_u32 < keyLen
           then Inl (Errorf ''separator exceeds index block'')
        else let pos2 = pos1 + unat keyLen; (valLen, n) = Uvarint (drop pos2 payload)
        in if n \<le> 0 then Inl (Errorf ''bad handle length'')
        else let pos3 = pos2 + nat n
        in if word_of_nat (length payload - pos3) < valLen then Inl (Errorf ''handle exceeds index block'')
        else let handleBytes = take (unat valLen) (drop pos3 payload); pos4 = pos3 + unat valLen;
                 (h, used) = decodeHandle handleBytes; region = word_of_int (sz - int footerLen)
        in if used = 0 \<or> used \<noteq> length handleBytes \<or> max_u32 < bh_length h then Inl (Errorf ''bad block handle'')
        else if bh_length h < word_of_nat blockTrailerLen \<or> region < bh_length h \<or> region - bh_length h < bh_offset h
             then Inl (Errorf ''block handle out of range'')
        else if bh_offset h \<noteq> nextOffset \<or> dataEnd - bh_offset h < bh_length h
             then Inl (Errorf ''non-contiguous data block layout'')
        else let sep = take (unat keyLen) (drop pos1 payload); (_, kind) = ikeySeqKind sep
        in if \<not> validIKeyKind kind then Inl (Errorf ''unknown internal-key kind'')
        else if (case previousSep of None \<Rightarrow> False | Some p \<Rightarrow> 0 \<le> ikeyCompare p sep)
             then Inl (Errorf ''index separators out of order'')
        else parseIndex_loop sz payload dataEnd pos4 (bh_offset h + bh_length h) (Some sep)
               (ents @ [\<lparr>ie_sepOff = word_of_nat pos1, ie_sepLen = ucast keyLen, ie_offset = bh_offset h,
                         ie_length = ucast (bh_length h)\<rparr>])
      else if nextOffset \<noteq> dataEnd then Inl (Errorf ''index does not cover data region'')
      else Inr ents)"
  by pat_completeness auto
termination by (relation "measure (\<lambda>(sz, payload, dataEnd, pos, rest). length payload - pos)") auto

declare parseIndex_loop.simps [simp del]

definition parseIndex :: "tableReader \<Rightarrow> bytes \<Rightarrow> u64 \<Rightarrow> indexEntry list result" where
  "parseIndex tr payload dataEnd = parseIndex_loop (tr_size tr) payload dataEnd 0 0 None []"

definition wrap_err :: "string \<Rightarrow> 'a result \<Rightarrow> 'a result" where
  "wrap_err what r = (case r of Inl err \<Rightarrow> Inl (Wrapped what err) | Inr x \<Rightarrow> Inr x)"

definition loadMeta :: "codecLib \<Rightarrow> tableReader \<Rightarrow> tableMetaBlocks result" where
  "loadMeta lib tr =
     try_then (wrap_err ''table: read filter'' (readBlockRaw lib tr (tr_filterBH tr))) (\<lambda>filterRaw.
     try_then (validateBloomFilter filterRaw) (\<lambda>_.
     try_then (wrap_err ''table: read index'' (readBlockRaw lib tr (tr_indexBH tr))) (\<lambda>indexPayload.
     let rd = tr_rangeDelBH tr; haveRangeDel = (bh_length rd \<noteq> 0 \<or> bh_offset rd \<noteq> 0);
         dataEnd = (if haveRangeDel then bh_offset rd else bh_offset (tr_filterBH tr))
     in try_then (wrap_err ''table: parse index'' (parseIndex tr indexPayload dataEnd)) (\<lambda>ents.
        try_then (if haveRangeDel
                  then try_then (wrap_err ''table: read range-del'' (readBlockRaw lib tr rd)) decodeRangeDelBlock
                  else Inr []) (\<lambda>rts.
        Inr \<lparr>tm_filter = filterRaw, tm_indexBuf = indexPayload, tm_indexEnt = ents, tm_rangeDel = rts\<rparr>)))))"

definition ensureMeta :: "codecLib \<Rightarrow> tableReader \<Rightarrow> tableMetaBlocks result \<times> tableReader" where
  "ensureMeta lib tr =
     (case tr_meta tr of Some m \<Rightarrow> (Inr m, tr)
      | None \<Rightarrow>
        case loadMeta lib tr of Inl err \<Rightarrow> (Inl err, tr) | Inr m \<Rightarrow> (Inr m, tr\<lparr>tr_meta := Some m\<rparr>))"

definition dropMeta :: "tableReader \<Rightarrow> tableReader" where "dropMeta tr = tr\<lparr>tr_meta := None\<rparr>"

definition rangeTombstones :: "codecLib \<Rightarrow> tableReader \<Rightarrow> rangeTombstone list result \<times> tableReader" where
  "rangeTombstones lib tr =
     (let (m, tr) = ensureMeta lib tr in (try_then m (\<lambda>m. Inr (tm_rangeDel m)), tr))"

definition newTableReaderOpt :: "codecLib \<Rightarrow> readerAt \<Rightarrow> int \<Rightarrow> u32 \<Rightarrow> bool \<Rightarrow> tableReader result" where
  "newTableReaderOpt lib r sz tableNum lazyMeta =
     (if sz < int footerLen then Inl (Errorf ''table: file too small'')
      else try_then (wrap_err ''table: read footer'' (r (sz - int footerLen) footerLen)) (\<lambda>footer.
      if Uint64 (drop (footerLen - 8) footer) \<noteq> magic then Inl (Errorf ''table: bad magic'')
      else let (indexBH, n) = decodeHandle footer
      in if n = 0 then Inl (Errorf ''table: bad index handle'')
      else let (filterBH, n2) = decodeHandle (drop n footer)
      in if n2 = 0 then Inl (Errorf ''table: bad filter handle'')
      else let (rangeDelBH, n3) = decodeHandle (drop (n + n2) footer)
      in if n3 = 0 \<or> footerLen - 8 < n + n2 + n3 then Inl (Errorf ''table: bad range-del handle'')
      else if \<not> list_all (\<lambda>b. b = 0) (drop (n + n2 + n3) (take (footerLen - 8) footer))
           then Inl (Errorf ''table: non-zero footer padding'')
      else let dataEnd = word_of_int (sz - int footerLen)
      in if dataEnd < bh_length filterBH \<or> dataEnd - bh_length filterBH < bh_offset filterBH
            \<or> dataEnd < bh_length indexBH \<or> dataEnd - bh_length indexBH < bh_offset indexBH
            \<or> bh_offset filterBH + bh_length filterBH \<noteq> bh_offset indexBH
            \<or> bh_offset indexBH + bh_length indexBH \<noteq> dataEnd
         then Inl (Errorf ''table: invalid metadata block layout'')
      else if (bh_length rangeDelBH \<noteq> 0 \<or> bh_offset rangeDelBH \<noteq> 0)
              \<and> (dataEnd < bh_length rangeDelBH \<or> dataEnd - bh_length rangeDelBH < bh_offset rangeDelBH
                 \<or> bh_offset rangeDelBH + bh_length rangeDelBH \<noteq> bh_offset filterBH)
           then Inl (Errorf ''table: invalid range-del block layout'')
      else let tr = \<lparr>tr_r = r, tr_size = sz, tr_indexBH = indexBH, tr_filterBH = filterBH,
                     tr_rangeDelBH = rangeDelBH, tr_meta = None, tr_tableNum = tableNum\<rparr>
      in if \<not> lazyMeta then (case ensureMeta lib tr of (Inl err, _) \<Rightarrow> Inl err | (Inr _, tr) \<Rightarrow> Inr tr)
         else Inr tr))"

definition newCachedTableReader :: "codecLib \<Rightarrow> readerAt \<Rightarrow> int \<Rightarrow> u32 \<Rightarrow> tableReader result" where
  "newCachedTableReader lib r sz tableNum = newTableReaderOpt lib r sz tableNum False"

definition newCachedTableReaderLazy :: "codecLib \<Rightarrow> readerAt \<Rightarrow> int \<Rightarrow> u32 \<Rightarrow> tableReader result" where
  "newCachedTableReaderLazy lib r sz tableNum = newTableReaderOpt lib r sz tableNum True"

definition sep :: "tableMetaBlocks \<Rightarrow> nat \<Rightarrow> bytes" where
  "sep m i =
     (let e = tm_indexEnt m ! i
      in take (unat (ie_sepOff e + ie_sepLen e) - unat (ie_sepOff e)) (drop (unat (ie_sepOff e)) (tm_indexBuf m)))"

definition blockHandleAt :: "tableMetaBlocks \<Rightarrow> nat \<Rightarrow> blockHandle" where
  "blockHandleAt m i =
     (let e = tm_indexEnt m ! i in \<lparr>bh_offset = ie_offset e, bh_length = ucast (ie_length e)\<rparr>)"

fun verify_blocks :: "codecLib \<Rightarrow> tableReader \<Rightarrow> tableMetaBlocks \<Rightarrow> nat list \<Rightarrow> unit result" where
  "verify_blocks lib tr m [] = Inr ()"
| "verify_blocks lib tr m (i # is) =
     try_then (wrap_err ''table: data block'' (readBlockRaw lib tr (blockHandleAt m i))) (\<lambda>_. verify_blocks lib tr m is)"

definition tr_verify :: "codecLib \<Rightarrow> tableReader \<Rightarrow> unit result" where
  "tr_verify lib tr =
     try_then (newCachedTableReader lib (tr_r tr) (tr_size tr) (tr_tableNum tr)) (\<lambda>fresh.
     case tr_meta fresh of None \<Rightarrow> Inr ()
     | Some m \<Rightarrow> verify_blocks lib tr m [0..<length (tm_indexEnt m)])"

section \<open>Point lookup\<close>

definition readBlock ::
  "codecLib \<Rightarrow> (bytes \<Rightarrow> u64) \<Rightarrow> tableReader \<Rightarrow> blockHandle \<Rightarrow> blockCacheT option
   \<Rightarrow> (bytes result \<times> blockCacheT option) option" where
  "readBlock lib hash tr h cache =
     (case cache of
        Some c \<Rightarrow>
          let key = \<lparr>ck_Table = tr_tableNum tr, ck_Offset = bh_offset h\<rparr>; (hit, c) = bc_get hash key c
          in (case hit of Some payload \<Rightarrow> Some (Inr payload, Some c)
              | None \<Rightarrow>
                case readBlockRaw lib tr h of Inl err \<Rightarrow> Some (Inl err, Some c)
                | Inr payload \<Rightarrow> Option.bind (bc_Add hash key payload c) (\<lambda>c. Some (Inr payload, Some c)))
      | None \<Rightarrow> Some (readBlockRaw lib tr h, None))"

record lookupResult =
  lr_value :: bytes
  lr_versionSeq :: u64
  lr_expiresAt :: int
  lr_found :: bool
  lr_deleted :: bool
  lr_blobPtr :: "blobPointer option"
  lr_bloomPassed :: bool

definition lookupMiss :: lookupResult where
  "lookupMiss = \<lparr>lr_value = [], lr_versionSeq = 0, lr_expiresAt = 0, lr_found = False, lr_deleted = False,
                 lr_blobPtr = None, lr_bloomPassed = False\<rparr>"

function findBlock_loop :: "tableMetaBlocks \<Rightarrow> bytes \<Rightarrow> nat \<Rightarrow> nat \<Rightarrow> nat" where
  "findBlock_loop m lookup lo hi =
     (if lo < hi then
        let mid = (lo + hi) div 2
        in if ikeyCompare (sep m mid) lookup < 0 then findBlock_loop m lookup (mid + 1) hi
           else findBlock_loop m lookup lo mid
      else lo)"
  by pat_completeness auto
termination by (relation "measure (\<lambda>(m, l, lo, hi). hi - lo)") auto

declare findBlock_loop.simps [simp del]

definition findBlock :: "tableMetaBlocks \<Rightarrow> bytes \<Rightarrow> nat" where
  "findBlock m lookup = findBlock_loop m lookup 0 (length (tm_indexEnt m))"

text \<open>The outcome for the first visible version of the key (lines 468--500).\<close>

definition versionResult :: "u64 \<Rightarrow> ikeyKind \<Rightarrow> bytes \<Rightarrow> int \<Rightarrow> lookupResult result" where
  "versionResult kseq kind val now =
     (let gone = lookupMiss\<lparr>lr_versionSeq := kseq, lr_found := True, lr_deleted := True\<rparr>
      in if kind = ikeyKindDelete then Inr gone
      else if kind = ikeyKindBlobRef then
        (case decodeBlobPointer val of Inl err \<Rightarrow> Inl (Wrapped ''table'' err)
         | Inr ptr \<Rightarrow>
           if bp_expiresAt ptr \<noteq> 0 \<and> bp_expiresAt ptr \<le> now then Inr gone
           else Inr (lookupMiss\<lparr>lr_versionSeq := kseq, lr_expiresAt := bp_expiresAt ptr, lr_found := True,
                                lr_blobPtr := Some ptr\<rparr>))
      else if kind = ikeyKindSetTTL then
        (case decodeExpiringValue val of Inl err \<Rightarrow> Inl (Wrapped ''table'' err)
         | Inr (v, exp) \<Rightarrow>
           if exp \<le> now then Inr gone
           else Inr (lookupMiss\<lparr>lr_value := v, lr_versionSeq := kseq, lr_expiresAt := exp, lr_found := True\<rparr>))
      else Inr (lookupMiss\<lparr>lr_value := val, lr_versionSeq := kseq, lr_found := True\<rparr>))"

function lookup_scan ::
  "dataBlockIter \<Rightarrow> bytes option \<Rightarrow> bytes \<Rightarrow> u64 \<Rightarrow> int \<Rightarrow> lookupResult result" where
  "lookup_scan it previous userKey seq now =
     (let (ok, it') = it_next it
      in if \<not> ok then (case it_err it' of Some err \<Rightarrow> Inl err | None \<Rightarrow> Inr lookupMiss)
      else if length (it_key it') < trailerLen then Inl (Errorf ''table: short internal key'')
      else if (case previous of None \<Rightarrow> False | Some p \<Rightarrow> 0 \<le> ikeyCompare p (it_key it'))
           then Inl (Errorf ''table: block keys out of order'')
      else let cmp = bytes_compare (ikeyUserKey (it_key it')) userKey
      in if 0 < cmp then (case it_err it' of Some err \<Rightarrow> Inl err | None \<Rightarrow> Inr lookupMiss)
      else if cmp < 0 then lookup_scan it' (Some (it_key it')) userKey seq now
      else let (kseq, kind) = ikeySeqKind (it_key it')
      in if \<not> validIKeyKind kind then Inl (Errorf ''table: unknown internal-key kind'')
      else if seq < kseq then lookup_scan it' (Some (it_key it')) userKey seq now
      else versionResult kseq kind (it_value it') now)"
  by pat_completeness auto
termination by (relation "measure (\<lambda>(it, rest). length (it_entries it) - it_pos it)") (auto intro: it_next_less)

declare lookup_scan.simps [simp del]

definition lookupPastBloom ::
  "codecLib \<Rightarrow> (bytes \<Rightarrow> u64) \<Rightarrow> tableReader \<Rightarrow> tableMetaBlocks \<Rightarrow> bytes \<Rightarrow> u64 \<Rightarrow> int \<Rightarrow> blockCacheT option
   \<Rightarrow> (lookupResult result \<times> blockCacheT option) option" where
  "lookupPastBloom lib hash tr m userKey seq now cache =
     (let lookup = ikeyLookupKey [] userKey seq; i = findBlock m lookup
      in if length (tm_indexEnt m) \<le> i then Some (Inr lookupMiss, cache)
      else Option.bind (readBlock lib hash tr (blockHandleAt m i) cache) (\<lambda>(r, cache).
        Some (try_then r (\<lambda>payload. try_then (splitDataBlock payload) (\<lambda>(entries, restarts, nRestart).
          let it = \<lparr>it_entries = entries, it_restarts = restarts, it_nRestart = nRestart, it_pos = 0, it_key = [],
                    it_value = [], it_err = None\<rparr>
          in lookup_scan (it_seek lookup it) None userKey seq now)), cache)))"

definition lookupAtTime ::
  "codecLib \<Rightarrow> (bytes \<Rightarrow> u64) \<Rightarrow> tableReader \<Rightarrow> bytes \<Rightarrow> u64 \<Rightarrow> int \<Rightarrow> blockCacheT option
   \<Rightarrow> (lookupResult result \<times> tableReader \<times> blockCacheT option) option" where
  "lookupAtTime lib hash tr userKey seq now cache =
     (let (m, tr) = ensureMeta lib tr
      in case m of Inl err \<Rightarrow> Some (Inl err, tr, cache)
      | Inr m \<Rightarrow>
        if \<not> bloomMayContain (tm_filter m) (bloomHash userKey) then Some (Inr lookupMiss, tr, cache)
        else Option.bind (lookupPastBloom lib hash tr m userKey seq now cache) (\<lambda>(res, cache).
          Some (try_then res (\<lambda>r. Inr (r\<lparr>lr_bloomPassed := True\<rparr>)), tr, cache)))"

definition tr_get ::
  "codecLib \<Rightarrow> (bytes \<Rightarrow> u64) \<Rightarrow> tableReader \<Rightarrow> bytes \<Rightarrow> u64 \<Rightarrow> int \<Rightarrow> blockCacheT option
   \<Rightarrow> ((bytes \<times> bool \<times> bool) result \<times> tableReader \<times> blockCacheT option) option" where
  "tr_get lib hash tr userKey seq now cache =
     Option.bind (lookupAtTime lib hash tr userKey seq now cache) (\<lambda>(r, tr, cache).
       Some (try_then r (\<lambda>r. Inr (lr_value r, lr_found r, lr_deleted r)), tr, cache))"

definition hasVersionAtTime ::
  "codecLib \<Rightarrow> (bytes \<Rightarrow> u64) \<Rightarrow> tableReader \<Rightarrow> bytes \<Rightarrow> u64 \<Rightarrow> int \<Rightarrow> blockCacheT option
   \<Rightarrow> ((u64 \<times> bool \<times> bool \<times> bool) result \<times> tableReader \<times> blockCacheT option) option" where
  "hasVersionAtTime lib hash tr userKey seq now cache =
     Option.bind (lookupAtTime lib hash tr userKey seq now cache) (\<lambda>(r, tr, cache).
       Some (try_then r (\<lambda>r. Inr (lr_versionSeq r, lr_found r, lr_deleted r, lr_bloomPassed r)), tr, cache))"

section \<open>The iterator\<close>

definition tableReadAheadSize :: u64 where "tableReadAheadSize = push_bit 10 256"

record tableIterator =
  ti_meta :: "tableMetaBlocks option"
  ti_blk :: int
  ti_inner :: dataBlockIter
  ti_loaded :: bool
  ti_err :: "error option"
  ti_lastKey :: "bytes option"
  ti_win :: "bytes option"
  ti_winOff :: u64

definition tr_newIterator :: tableIterator where
  "tr_newIterator =
     \<lparr>ti_meta = None, ti_blk = -1,
      ti_inner = \<lparr>it_entries = [], it_restarts = [], it_nRestart = 0, it_pos = 0, it_key = [], it_value = [], it_err = None\<rparr>,
      ti_loaded = False, ti_err = None, ti_lastKey = None, ti_win = None, ti_winOff = 0\<rparr>"

definition blockRaw :: "tableReader \<Rightarrow> blockHandle \<Rightarrow> tableIterator \<Rightarrow> bytes result \<times> tableIterator" where
  "blockRaw tr h it =
     (if tableReadAheadSize < bh_length h then (tr_r tr (sint (bh_offset h)) (unat (bh_length h)), it)
      else let hit = (case ti_win it of None \<Rightarrow> False
                      | Some win \<Rightarrow> \<not> (bh_offset h < ti_winOff it
                                       \<or> ti_winOff it + ulen win < bh_offset h + bh_length h));
               filled = (if hit then Inr it
                         else let end0 = bh_offset h + tableReadAheadSize;
                                  end1 = (if word_of_int (tr_size tr) < end0 then word_of_int (tr_size tr) else end0)
                              in try_then (tr_r tr (sint (bh_offset h)) (unat (end1 - bh_offset h)))
                                   (\<lambda>buf. Inr (it\<lparr>ti_win := Some buf, ti_winOff := bh_offset h\<rparr>)))
      in case filled of Inl err \<Rightarrow> (Inl err, it)
         | Inr it \<Rightarrow>
           let start = bh_offset h - ti_winOff it
           in (Inr (take (unat (bh_length h)) (drop (unat start) (case ti_win it of None \<Rightarrow> [] | Some w \<Rightarrow> w))), it))"

text \<open>Loading the next block: \<open>Inl\<close> leaves the loop of \<open>Next\<close>, with or without an error.\<close>

definition ti_load :: "codecLib \<Rightarrow> tableReader \<Rightarrow> tableMetaBlocks \<Rightarrow> tableIterator \<Rightarrow> tableIterator + tableIterator" where
  "ti_load lib tr m it =
     (let it = it\<lparr>ti_blk := ti_blk it + 1\<rparr>
      in if int (length (tm_indexEnt m)) \<le> ti_blk it then Inl it
      else let (raw, it) = blockRaw tr (blockHandleAt m (nat (ti_blk it))) it
      in case try_then raw (\<lambda>raw. try_then (decodeBlockInto lib raw) (\<lambda>(payload, _). splitDataBlock payload)) of
           Inl err \<Rightarrow> Inl (it\<lparr>ti_err := Some err\<rparr>)
         | Inr (entries, _) \<Rightarrow> Inr (it\<lparr>ti_inner := resetEntries entries (ti_inner it), ti_loaded := True\<rparr>))"

lemma blockRaw_blk: "ti_blk (snd (blockRaw tr h it)) = ti_blk it"
  by (simp add: blockRaw_def Let_def try_then_def split: sum.split)

lemma ti_load_blk: "Inr it' = ti_load lib tr m it \<Longrightarrow> ti_blk it < ti_blk it' \<and> ti_blk it' < int (length (tm_indexEnt m))"
  using blockRaw_blk [of tr "blockHandleAt m (nat (ti_blk it + 1))" "it\<lparr>ti_blk := ti_blk it + 1\<rparr>"]
  by (auto simp: ti_load_def Let_def split_beta split: if_splits sum.splits)

text \<open>
  The loop of \<open>Next\<close>.  A pass that loads a block moves to the next one; a pass
  that returns leaves the loop.
\<close>

function ti_loop :: "codecLib \<Rightarrow> tableReader \<Rightarrow> tableMetaBlocks \<Rightarrow> tableIterator \<Rightarrow> bool \<times> tableIterator" where
  "ti_loop lib tr m it =
     (let (ok, inner) = (if ti_loaded it then it_next (ti_inner it) else (False, ti_inner it));
          it = it\<lparr>ti_inner := inner\<rparr>
      in if ti_loaded it \<and> ok then
        if length (it_key inner) < trailerLen then (False, it\<lparr>ti_err := Some (Errorf ''table: short internal key'')\<rparr>)
        else let (_, kind) = ikeySeqKind (it_key inner)
        in if \<not> validIKeyKind kind then (False, it\<lparr>ti_err := Some (Errorf ''table: unknown internal-key kind'')\<rparr>)
        else if (case ti_lastKey it of None \<Rightarrow> False | Some k \<Rightarrow> 0 \<le> ikeyCompare k (it_key inner))
             then (False, it\<lparr>ti_err := Some (Errorf ''table: keys out of order'')\<rparr>)
        else (True, it\<lparr>ti_lastKey := Some (it_key inner)\<rparr>)
      else if ti_loaded it \<and> it_err inner \<noteq> None then (False, it\<lparr>ti_err := it_err inner\<rparr>)
      else (case ti_load lib tr m it of Inl it \<Rightarrow> (False, it) | Inr it \<Rightarrow> ti_loop lib tr m it))"
  by pat_completeness auto
termination
  by (relation "measure (\<lambda>(lib, tr, m, it). nat (int (length (tm_indexEnt m)) - ti_blk it))")
    (auto dest!: sym [of "ti_load _ _ _ _"] ti_load_blk)

declare ti_loop.simps [simp del]

definition ti_Next :: "codecLib \<Rightarrow> tableReader \<Rightarrow> tableIterator \<Rightarrow> bool \<times> tableIterator \<times> tableReader" where
  "ti_Next lib tr it =
     (if ti_err it \<noteq> None then (False, it, tr)
      else let (m, tr) = (case ti_meta it of Some m \<Rightarrow> (Inr m, tr) | None \<Rightarrow> ensureMeta lib tr)
      in case m of Inl err \<Rightarrow> (False, it\<lparr>ti_err := Some err\<rparr>, tr)
         | Inr m \<Rightarrow> let (ok, it) = ti_loop lib tr m (it\<lparr>ti_meta := Some m\<rparr>) in (ok, it, tr))"

end
