(* ===== verification/Table_Correct.thy ===== *)
theory Table_Correct
  imports Table_Reader
begin

text \<open>
  Reading back what the writer wrote.  For a table file laid out by the writer
  the reader opens it, its parsed index names every data block by its last key
  and its place, a point lookup returns the newest version visible at the read
  sequence, and a scan returns exactly the entries written.
\<close>

section \<open>Words below 2^32\<close>

lemma u64_small: "n < 2 ^ 32 \<Longrightarrow> unat (word_of_nat n :: u64) = n"
  by (simp add: unat_of_nat)

lemma u64_less: "a < 2 ^ 32 \<Longrightarrow> b < 2 ^ 32 \<Longrightarrow> (word_of_nat a :: u64) < word_of_nat b \<longleftrightarrow> a < b"
  by (simp add: word_less_nat_alt u64_small)

lemma u64_eq: "a < 2 ^ 32 \<Longrightarrow> b < 2 ^ 32 \<Longrightarrow> (word_of_nat a :: u64) = word_of_nat b \<longleftrightarrow> a = b"
  by (metis u64_small)

lemma u64_diff: "b \<le> a \<Longrightarrow> (word_of_nat a :: u64) - word_of_nat b = word_of_nat (a - b)"
  by (simp add: of_nat_diff)

lemma u64_region:
  assumes "o' + n \<le> D" "D < 2 ^ 32"
  shows "\<not> (word_of_nat D :: u64) < word_of_nat n \<and> \<not> (word_of_nat D :: u64) - word_of_nat n < word_of_nat o'"
proof -
  have "(word_of_nat D :: u64) - word_of_nat n = word_of_nat (D - n)" using assms by (intro u64_diff) simp
  moreover have "\<not> (word_of_nat (D - n) :: u64) < word_of_nat o'" using assms by (subst u64_less) simp_all
  moreover have "\<not> (word_of_nat D :: u64) < word_of_nat n" using assms by (subst u64_less) simp_all
  ultimately show ?thesis by simp
qed

lemma u64_sint: "n < 2 ^ 32 \<Longrightarrow> sint (word_of_nat n :: u64) = int n"
  by (simp add: signed_of_nat signed_take_bit_int_eq_self)

lemma ucast_u32: "n < 2 ^ 32 \<Longrightarrow> ucast (ucast (word_of_nat n :: u64) :: u32) = (word_of_nat n :: u64)"
  by (simp add: word_unat_eq_iff unsigned_ucast_eq unsigned_take_bit_eq take_bit_nat_eq_self u64_small)

lemmas u64_simps = u64_small u64_less u64_eq u64_diff u64_sint

section \<open>Opening\<close>

definition file_reader :: "bytes \<Rightarrow> tableReader \<Rightarrow> bool" where
  "file_reader f tr \<longleftrightarrow> tr_r tr = ReadAt f \<and> tr_size tr = int (length f) \<and> length f < 2 ^ 32"

lemma readBlockRaw_ok:
  assumes tr: "file_reader f tr" and f: "f = pre @ finishBlock lib p c @ post" and "footerLen \<le> length post"
    and "lossless lib" and h: "h = \<lparr>bh_offset = ulen pre, bh_length = ulen (finishBlock lib p c)\<rparr>"
  shows "readBlockRaw lib tr h = Inr p"
proof -
  define blk where "blk = finishBlock lib p c"
  have len: "length f = length pre + length blk + length post" by (simp add: f blk_def)
  have f32: "length f < 2 ^ 32" using tr by (simp add: file_reader_def)
  have b5: "blockTrailerLen \<le> length blk"
    by (simp add: blk_def finishBlock_def blockTrailerLen_def Let_def)
  have sz: "word_of_int (tr_size tr - int footerLen) = (word_of_nat (length f - footerLen) :: u64)"
    using tr len assms(3) by (simp add: file_reader_def of_nat_diff)
  have c1: "\<not> (ulen blk < (word_of_nat blockTrailerLen :: u64))"
    using b5 f32 len by (subst u64_less) (simp_all add: blockTrailerLen_def)
  have c2: "\<not> (word_of_nat (length f - footerLen) < ulen blk)"
    using len f32 assms(3) by (subst u64_less) simp_all
  have d: "word_of_nat (length f - footerLen) - ulen blk = (word_of_nat (length f - footerLen - length blk) :: u64)"
    using len assms(3) by (intro u64_diff) simp
  have c3: "\<not> ((word_of_nat (length f - footerLen) :: u64) - ulen blk < ulen pre)"
    unfolding d using len f32 assms(3) by (subst u64_less) simp_all
  have "tr_r tr (sint (ulen pre)) (unat (ulen blk)) = Inr blk"
    using tr len f32 ReadAt_ok [of pre "length pre" blk "length blk" post]
    by (simp add: file_reader_def u64_sint u64_small f blk_def)
  then show ?thesis
    using c1 c2 c3 tr len assms(3) decodeBlock_finishBlock [OF \<open>lossless lib\<close>, of p c]
    unfolding readBlockRaw_def sz h by (simp add: blk_def [symmetric] Let_def file_reader_def)
qed

lemma encodeFooter_parts:
  obtains pad where "encodeFooter ih fh rh
    = encodeHandle ih [] @ encodeHandle fh [] @ encodeHandle rh [] @ replicate pad 0 @ PutUint64 magic"
    "length (encodeHandle ih []) + length (encodeHandle fh []) + length (encodeHandle rh []) + pad = 64"
proof -
  define p where "p = encodeHandle ih [] @ encodeHandle fh [] @ encodeHandle rh []"
  have p: "encodeHandle rh (encodeHandle fh (encodeHandle ih [])) = p"
    by (simp add: p_def encodeHandle_def)
  have l: "length p \<le> 60"
    using length_encodeHandle [of ih] length_encodeHandle [of fh] length_encodeHandle [of rh] by (simp add: p_def)
  have "encodeFooter ih fh rh = p @ replicate (64 - length p) 0 @ PutUint64 magic"
    using l by (simp add: encodeFooter_def p footerLen_def Let_def min_def)
  then show thesis using that [of "64 - length p"] l by (simp add: p_def)
qed

section \<open>Parsing the index\<close>

text \<open>The index of blocks \<open>xs\<close> (last key and stored bytes of each), and its parsed form.\<close>

fun idx_bytes :: "nat \<Rightarrow> (bytes \<times> bytes) list \<Rightarrow> bytes" where
  "idx_bytes off [] = []"
| "idx_bytes off ((k, r) # xs) =
     flat_entry (k, encodeHandle \<lparr>bh_offset = word_of_nat off, bh_length = ulen r\<rparr> []) @ idx_bytes (off + length r) xs"

fun idx_ents :: "nat \<Rightarrow> nat \<Rightarrow> (bytes \<times> bytes) list \<Rightarrow> indexEntry list" where
  "idx_ents pos off [] = []"
| "idx_ents pos off ((k, r) # xs) =
     \<lparr>ie_sepOff = word_of_nat (pos + length (put_uvarint (ulen k))), ie_sepLen = word_of_nat (length k),
      ie_offset = word_of_nat off, ie_length = word_of_nat (length r)\<rparr>
     # idx_ents (pos + length (flat_entry (k, encodeHandle \<lparr>bh_offset = word_of_nat off, bh_length = ulen r\<rparr> [])))
         (off + length r) xs"

definition above_prev :: "bytes option \<Rightarrow> bytes \<Rightarrow> bool" where
  "above_prev prev k \<longleftrightarrow> (case prev of None \<Rightarrow> True | Some p \<Rightarrow> ikeyCompare p k < 0)"

lemma ucast_u64_u32: "ucast (word_of_nat n :: u64) = (word_of_nat n :: u32)"
  by (simp add: word_unat_eq_iff unsigned_ucast_eq unsigned_of_nat unsigned_take_bit_eq take_bit_take_bit)

lemma parseIndex_step:
  assumes pay: "payload = pre @ flat_entry (k, encodeHandle \<lparr>bh_offset = word_of_nat off, bh_length = ulen r\<rparr> []) @ rest"
    and p32: "length payload < 2 ^ 32" and k: "wf_kv (k, v)" and ab: "above_prev prev k"
    and L: "off + length r + n + footerLen \<le> L" "L < 2 ^ 32" and r: "blockTrailerLen \<le> length r"
  shows "parseIndex_loop (int L) payload (word_of_nat (off + length r + n)) (length pre) (word_of_nat off) prev ents
    = parseIndex_loop (int L) payload (word_of_nat (off + length r + n))
        (length (pre @ flat_entry (k, encodeHandle \<lparr>bh_offset = word_of_nat off, bh_length = ulen r\<rparr> [])))
        (word_of_nat (off + length r)) (Some k)
        (ents @ [\<lparr>ie_sepOff = word_of_nat (length pre + length (put_uvarint (ulen k))), ie_sepLen = word_of_nat (length k),
                  ie_offset = word_of_nat off, ie_length = word_of_nat (length r)\<rparr>])"
proof -
  define h where "h = \<lparr>bh_offset = (word_of_nat off :: u64), bh_length = ulen r\<rparr>"
  define hb where "hb = encodeHandle h []"
  define a where "a = put_uvarint (ulen k)"
  define b where "b = put_uvarint (ulen hb)"
  have P: "payload = pre @ a @ k @ b @ hb @ rest"
    by (simp add: pay flat_entry_def put_bytes_def a_def b_def hb_def h_def)
  have pos: "length (pre @ flat_entry (k, encodeHandle \<lparr>bh_offset = word_of_nat off, bh_length = ulen r\<rparr> []))
      = length pre + length a + length k + length b + length hb"
    by (simp add: flat_entry_def put_bytes_def a_def b_def hb_def h_def)
  have len: "length pre + length a + length k + length b + length hb + length rest < 2 ^ 32"
    using p32 P by simp
  have k8: "trailerLen \<le> length k"
    using k by (simp_all add: wf_kv_def valid_ikey_def)
  have u1: "Uvarint (drop (length pre) payload) = (ulen k, int (length a))" by (simp add: P a_def)
  have u2: "Uvarint (drop (length pre + length a + length k) payload) = (ulen hb, int (length b))"
    by (simp add: P b_def)
  have ap: "0 < length a" "0 < length b" by (simp_all add: a_def b_def)
  have lt: "length pre < length payload" using ap by (simp add: P)
  have c1: "\<not> (ulen k < word_of_nat trailerLen)" using k8 len by (subst u64_less) (simp_all add: trailerLen_def)
  have c2: "\<not> ((word_of_nat (length payload - (length pre + length a)) :: u64) < ulen k)"
    using len by (subst u64_less) (simp_all add: P)
  have c3: "\<not> max_u32 < ulen k" using len by (simp add: max_u32_def word_less_nat_alt u64_small)
  have uk: "unat (ulen k) = length k" "unat (ulen hb) = length hb" using len by (simp_all add: u64_small)
  have c4: "\<not> ((word_of_nat (length payload - (length pre + length a + length k + length b)) :: u64) < ulen hb)"
    using len by (subst u64_less) (simp_all add: P)
  have t1: "take (length hb) (drop (length pre + length a + length k + length b) payload) = hb" by (simp add: P)
  have t2: "take (length k) (drop (length pre + length a) payload) = k" by (simp add: P)
  have dh: "decodeHandle hb = (h, length hb)" using decodeHandle_encode [of h "[]"] by (simp add: hb_def)
  have hb0: "length hb \<noteq> 0" by (simp add: hb_def encodeHandle_def)
  have c5: "\<not> max_u32 < bh_length h" using L by (simp add: h_def max_u32_def word_less_nat_alt u64_small)
  have reg: "word_of_int (int L - int footerLen) = (word_of_nat (L - footerLen) :: u64)"
    using L by (simp add: of_nat_diff)
  have c6: "\<not> bh_length h < word_of_nat blockTrailerLen"
    unfolding h_def blockHandle.simps using L r by (subst u64_less) (simp_all add: blockTrailerLen_def)
  have c7: "\<not> word_of_nat (L - footerLen) < bh_length h"
    unfolding h_def blockHandle.simps using L by (subst u64_less) simp_all
  have d8: "word_of_nat (L - footerLen) - ulen r = (word_of_nat (L - footerLen - length r) :: u64)"
    using L by (intro u64_diff) simp
  have c8: "\<not> word_of_nat (L - footerLen) - bh_length h < word_of_nat off"
    unfolding h_def blockHandle.simps d8 using L by (subst u64_less) simp_all
  have d9: "word_of_nat (off + length r + n) - word_of_nat off = (word_of_nat (off + length r + n - off) :: u64)"
    by (intro u64_diff) simp
  have c9: "\<not> word_of_nat (off + length r + n) - word_of_nat off < bh_length h"
    unfolding h_def blockHandle.simps d9 using L by (subst u64_less) simp_all
  have c10: "\<not> (case prev of None \<Rightarrow> False | Some p \<Rightarrow> 0 \<le> ikeyCompare p k)"
    using ab by (auto simp: above_prev_def split: option.splits)
  have bo: "bh_offset h = word_of_nat off" by (simp add: h_def)
  have nx: "bh_offset h + bh_length h = word_of_nat (off + length r)" by (simp add: h_def)
  have ipos: "\<not> int (length a) \<le> 0" "\<not> int (length b) \<le> 0" using ap by simp_all
  obtain sq kind where kd: "ikeySeqKind k = (sq, kind)" and kv: "validIKeyKind kind"
    using k by (cases "ikeySeqKind k") (auto simp: wf_kv_def)
  have h_len: "ucast (bh_length h) = (word_of_nat (length r) :: u32)" by (simp add: h_def ucast_u64_u32)
  show ?thesis
    unfolding pos
    by (subst parseIndex_loop.simps)
      (simp only: lt if_True if_False u1 u2 Let_def prod.case uk nat_int ipos t1 t2 dh hb0 reg c1 c2 c3 c4 c5 c6 c7 c8 c9
        c10 kd kv bo simp_thms ucast_u64_u32 a_def [symmetric] nx [unfolded bo] h_len)
qed

abbreviation raw_len :: "(bytes \<times> bytes) list \<Rightarrow> nat" where "raw_len xs \<equiv> length (concat (map snd xs))"

lemma parseIndex_all:
  assumes "payload = pre @ idx_bytes off xs" "length payload < 2 ^ 32" "off + raw_len xs + footerLen \<le> L" "L < 2 ^ 32"
    and "\<forall>x\<in>set xs. wf_kv (fst x, []) \<and> blockTrailerLen \<le> length (snd x) \<and> above_prev prev (fst x)"
    and "sorted_wrt (\<lambda>a b. ikeyCompare (fst a) (fst b) < 0) xs"
  shows "parseIndex_loop (int L) payload (word_of_nat (off + raw_len xs)) (length pre) (word_of_nat off) prev ents
    = Inr (ents @ idx_ents (length pre) off xs)"
  using assms
proof (induction xs arbitrary: off pre prev ents)
  case Nil
  then show ?case by (subst parseIndex_loop.simps) simp
next
  case (Cons x xs)
  obtain k r where x: "x = (k, r)" by fastforce
  define e where "e = flat_entry (k, encodeHandle \<lparr>bh_offset = word_of_nat off, bh_length = ulen r\<rparr> [])"
  have off: "off + raw_len (x # xs) = off + length r + raw_len xs" by (simp add: x)
  have "parseIndex_loop (int L) payload (word_of_nat (off + length r + raw_len xs)) (length pre) (word_of_nat off) prev ents
    = parseIndex_loop (int L) payload (word_of_nat (off + length r + raw_len xs)) (length (pre @ e))
        (word_of_nat (off + length r)) (Some k)
        (ents @ [\<lparr>ie_sepOff = word_of_nat (length pre + length (put_uvarint (ulen k))), ie_sepLen = word_of_nat (length k),
                  ie_offset = word_of_nat off, ie_length = word_of_nat (length r)\<rparr>])"
    unfolding e_def using Cons.prems x off by (intro parseIndex_step [where v = "[]"]) (simp_all add: e_def)
  also have "\<dots> = Inr ((ents @ [\<lparr>ie_sepOff = word_of_nat (length pre + length (put_uvarint (ulen k))), ie_sepLen = word_of_nat (length k),
                  ie_offset = word_of_nat off, ie_length = word_of_nat (length r)\<rparr>]) @ idx_ents (length (pre @ e)) (off + length r) xs)"
    using Cons.prems x off by (intro Cons.IH) (auto simp: e_def above_prev_def)
  finally show ?case unfolding off by (simp add: x e_def)
qed

lemma idx_ents_nth:
  assumes "i < length xs" "length (pre @ idx_bytes off xs) < 2 ^ 32" "off + raw_len xs < 2 ^ 32"
    and m: "tm_indexBuf m = pre @ idx_bytes off xs" "tm_indexEnt m = es @ idx_ents (length pre) off xs"
  shows "sep m (length es + i) = fst (xs ! i)
    \<and> blockHandleAt m (length es + i) = \<lparr>bh_offset = word_of_nat (off + raw_len (take i xs)), bh_length = ulen (snd (xs ! i))\<rparr>"
  using assms
proof (induction xs arbitrary: i off pre es)
  case (Cons x xs)
  obtain k r where x: "x = (k, r)" by fastforce
  define e where "e = flat_entry (k, encodeHandle \<lparr>bh_offset = word_of_nat off, bh_length = ulen r\<rparr> [])"
  define a where "a = put_uvarint (ulen k)"
  obtain b where e: "e = a @ k @ b" by (simp add: e_def a_def flat_entry_def put_bytes_def)
  have len: "length pre + length a + length k + length b + length (idx_bytes (off + length r) xs) < 2 ^ 32"
    using Cons.prems(2) by (simp add: x e_def [symmetric] e)
  show ?case
  proof (cases i)
    case 0
    have u: "unat (word_of_nat (length pre + length a) :: u32) = length pre + length a"
      "unat (word_of_nat (length pre + length a) + word_of_nat (length k) :: u32) = length pre + length a + length k"
      using len by (simp_all add: unat_of_nat flip: of_nat_add)
    have "ucast (word_of_nat (length r) :: u32) = (word_of_nat (length r) :: u64)"
      using Cons.prems(3) ucast_u32 [of "length r"] ucast_u64_u32 [of "length r"] by (simp add: x)
    then show ?thesis
      using u Cons.prems(4,5) 0
      by (simp add: sep_def blockHandleAt_def Let_def x e_def [symmetric] a_def [symmetric] nth_append del: of_nat_add)
        (simp add: e)
  next
    case (Suc j)
    then show ?thesis
      using Cons.IH [of j "pre @ e" "off + length r"
          "es @ [\<lparr>ie_sepOff = word_of_nat (length pre + length a), ie_sepLen = word_of_nat (length k),
                  ie_offset = word_of_nat off, ie_length = word_of_nat (length r)\<rparr>]"] Cons.prems
      by (simp add: x e_def [symmetric] a_def [symmetric] add.assoc del: of_nat_add)
  qed
qed simp

definition idx_of :: "codecLib \<Rightarrow> blockCodec \<Rightarrow> dblock list \<Rightarrow> (bytes \<times> bytes) list" where
  "idx_of lib c blks = map (\<lambda>blk. (fst (last (snd blk)), finishBlock lib (fst blk) c)) blks"

lemma idx_of_raw: "map snd (idx_of lib c blks) = raw_blocks lib c blks"
  by (simp add: idx_of_def raw_blocks_def)

lemma flat_index: "flat (index_entries lib c blks) = idx_bytes 0 (idx_of lib c blks)"
proof -
  have "flat (map2 (\<lambda>blk h. (fst (last (snd blk)), encodeHandle h [])) blks (handles_from off (raw_blocks lib c blks)))
      = idx_bytes off (idx_of lib c blks)" for off
  proof (induction blks arbitrary: off)
    case (Cons blk blks)
    then show ?case by (simp add: raw_blocks_def idx_of_def flat_def)
  qed (simp add: raw_blocks_def idx_of_def)
  then show ?thesis by (simp add: index_entries_def)
qed

section \<open>A written table opens\<close>

definition filter_of :: "tableWriterConfig \<Rightarrow> (bytes \<times> bytes) list \<Rightarrow> bytes" where
  "filter_of cfg kvs = build (newBloom (cfg_bloomBits cfg)) (map (bloomHash \<circ> ikeyUserKey \<circ> fst) kvs)"

definition meta_of ::
  "codecLib \<Rightarrow> tableWriterConfig \<Rightarrow> (bytes \<times> bytes) list \<Rightarrow> rangeTombstone list \<Rightarrow> dblock list \<Rightarrow> tableMetaBlocks" where
  "meta_of lib cfg kvs rts blks =
     (let xs = idx_of lib (cfg_codec cfg) blks
      in \<lparr>tm_filter = filter_of cfg kvs, tm_indexBuf = idx_bytes 0 xs, tm_indexEnt = idx_ents 0 0 xs, tm_rangeDel = rts\<rparr>)"

definition table_ok ::
  "codecLib \<Rightarrow> tableWriterConfig \<Rightarrow> (bytes \<times> bytes) list \<Rightarrow> rangeTombstone list \<Rightarrow> dblock list \<Rightarrow> bytes \<Rightarrow> bool" where
  "table_ok lib cfg kvs rts blks f \<longleftrightarrow> table_of lib cfg kvs rts blks f \<and> table_fits cfg kvs rts \<and> lossless lib
     \<and> (\<forall>rt\<in>set rts. wf_rangeDel rt)"

lemma sorted_last:
  "sorted_wrt P (concat (map snd blks)) \<Longrightarrow> list_all (\<lambda>b. snd b \<noteq> []) blks \<Longrightarrow>
   sorted_wrt (\<lambda>a b. P (last (snd a)) (last (snd b))) blks"
proof (induction blks)
  case (Cons blk blks)
  have "P (last (snd blk)) (last (snd b))" if "b \<in> set blks" for b
  proof -
    have "last (snd b) \<in> set (concat (map snd blks))"
      using that Cons.prems(2) by (force simp: list_all_iff intro: last_in_set)
    moreover have "last (snd blk) \<in> set (snd blk)" using Cons.prems(2) by simp
    ultimately show ?thesis using Cons.prems(1) by (auto simp: sorted_wrt_append)
  qed
  then show ?case using Cons by (simp add: sorted_wrt_append)
qed simp

lemma finishBlock_min: "blockTrailerLen \<le> length (finishBlock lib p c)"
  by (simp add: finishBlock_def blockTrailerLen_def Let_def)

lemma idx_of_wf:
  assumes "table_of lib cfg kvs rts blks f"
  shows "\<forall>x\<in>set (idx_of lib c blks). wf_kv (fst x, []) \<and> blockTrailerLen \<le> length (snd x)"
    and "sorted_wrt (\<lambda>a b. ikeyCompare (fst a) (fst b) < 0) (idx_of lib c blks)"
proof -
  have k: "concat (map snd blks) = kvs" and d: "list_all data_payload blks" and s: "sorted_entries kvs"
    and w: "list_all wf_kv kvs" using assms by (auto simp: table_of_def)
  have ne: "list_all (\<lambda>b. snd b \<noteq> []) blks" using d by (auto simp: list_all_iff data_payload_def)
  show "\<forall>x\<in>set (idx_of lib c blks). wf_kv (fst x, []) \<and> blockTrailerLen \<le> length (snd x)"
  proof
    fix x assume "x \<in> set (idx_of lib c blks)"
    then obtain blk where b: "blk \<in> set blks" "x = (fst (last (snd blk)), finishBlock lib (fst blk) c)"
      by (auto simp: idx_of_def)
    then have "last (snd blk) \<in> set kvs" using ne k by (force simp: list_all_iff intro: last_in_set)
    then have "wf_kv (last (snd blk))" using w by (simp add: list_all_iff)
    then show "wf_kv (fst x, []) \<and> blockTrailerLen \<le> length (snd x)" using b(2) finishBlock_min by (simp add: wf_kv_def)
  qed
  have "sorted_wrt (\<lambda>a b. ikeyCompare (fst a) (fst b) < 0) (concat (map snd blks))"
    using s k by (simp add: sorted_entries_def)
  from sorted_last [OF this ne] show "sorted_wrt (\<lambda>a b. ikeyCompare (fst a) (fst b) < 0) (idx_of lib c blks)"
    by (simp add: idx_of_def sorted_wrt_map)
qed

text \<open>The regions of a table file.\<close>

lemma table_regions:
  assumes "table_of lib cfg kvs rts blks f"
  obtains data rd flt idx foot where
    "f = data @ rd @ flt @ idx @ foot"
    "data = concat (raw_blocks lib (cfg_codec cfg) blks)"
    "rd = (if rts = [] then [] else finishBlock lib (encodeRangeDelBlock [] rts) noneCodec)"
    "flt = finishBlock lib (filter_of cfg kvs) noneCodec"
    "idx = finishBlock lib (idx_bytes 0 (idx_of lib (cfg_codec cfg) blks)) (cfg_codec cfg)"
    "foot = encodeFooter \<lparr>bh_offset = ulen (data @ rd @ flt), bh_length = ulen idx\<rparr>
       \<lparr>bh_offset = ulen (data @ rd), bh_length = ulen flt\<rparr>
       (if rts = [] then zeroHandle else \<lparr>bh_offset = ulen data, bh_length = ulen rd\<rparr>)"
    "length foot = footerLen"
proof -
  have "tw_c (newTableWriter \<lparr>f_data = [], f_sched = []\<rparr> cfg) = cfg_codec cfg" by (simp add: newTableWriter_def)
  then show thesis
    using that assms
    by (simp add: table_of_def table_layout_def Let_def filter_of_def flat_index length_encodeFooter add.assoc)
qed

definition layout_handles ::
  "codecLib \<Rightarrow> tableWriterConfig \<Rightarrow> (bytes \<times> bytes) list \<Rightarrow> rangeTombstone list \<Rightarrow> dblock list \<Rightarrow> tableReader \<Rightarrow> bool" where
  "layout_handles lib cfg kvs rts blks tr \<longleftrightarrow>
     (let data = concat (raw_blocks lib (cfg_codec cfg) blks);
          rd = (if rts = [] then [] else finishBlock lib (encodeRangeDelBlock [] rts) noneCodec);
          flt = finishBlock lib (filter_of cfg kvs) noneCodec;
          idx = finishBlock lib (idx_bytes 0 (idx_of lib (cfg_codec cfg) blks)) (cfg_codec cfg)
      in tr_indexBH tr = \<lparr>bh_offset = ulen (data @ rd @ flt), bh_length = ulen idx\<rparr>
       \<and> tr_filterBH tr = \<lparr>bh_offset = ulen (data @ rd), bh_length = ulen flt\<rparr>
       \<and> tr_rangeDelBH tr = (if rts = [] then zeroHandle else \<lparr>bh_offset = ulen data, bh_length = ulen rd\<rparr>))"

lemma loadMeta_ok:
  assumes ok: "table_ok lib cfg kvs rts blks f" and fr: "file_reader f tr"
    and h: "layout_handles lib cfg kvs rts blks tr"
  shows "loadMeta lib tr = Inr (meta_of lib cfg kvs rts blks)"
proof -
  have tof: "table_of lib cfg kvs rts blks f" and ll: "lossless lib" and fit: "table_fits cfg kvs rts"
    using ok by (simp_all add: table_ok_def)
  obtain data rd flt idx foot where
    f: "f = data @ rd @ flt @ idx @ foot" and data: "data = concat (raw_blocks lib (cfg_codec cfg) blks)"
    and rd: "rd = (if rts = [] then [] else finishBlock lib (encodeRangeDelBlock [] rts) noneCodec)"
    and flt: "flt = finishBlock lib (filter_of cfg kvs) noneCodec"
    and idx: "idx = finishBlock lib (idx_bytes 0 (idx_of lib (cfg_codec cfg) blks)) (cfg_codec cfg)"
    and foot: "length foot = footerLen"
    using table_regions [OF tof] by metis
  let ?xs = "idx_of lib (cfg_codec cfg) blks"
  have ih: "tr_indexBH tr = \<lparr>bh_offset = ulen (data @ rd @ flt), bh_length = ulen idx\<rparr>"
    and fh: "tr_filterBH tr = \<lparr>bh_offset = ulen (data @ rd), bh_length = ulen flt\<rparr>"
    and rh: "tr_rangeDelBH tr = (if rts = [] then zeroHandle else \<lparr>bh_offset = ulen data, bh_length = ulen rd\<rparr>)"
    using h unfolding layout_handles_def Let_def data rd flt idx by simp_all
  have f32: "length f < 2 ^ 32" using table_of_length [OF tof fit] .
  have len: "length f = length data + length rd + length flt + length idx + footerLen" by (simp add: f foot)
  have r1: "readBlockRaw lib tr (tr_filterBH tr) = Inr (filter_of cfg kvs)"
    by (rule readBlockRaw_ok [OF fr, of "data @ rd" lib _ noneCodec "idx @ foot"]) (simp_all add: f flt fh ll foot)
  have r2: "readBlockRaw lib tr (tr_indexBH tr) = Inr (idx_bytes 0 ?xs)"
    by (rule readBlockRaw_ok [OF fr, of "data @ rd @ flt" lib _ "cfg_codec cfg" foot]) (simp_all add: f idx ih ll foot)
  have v: "validateBloomFilter (filter_of cfg kvs) = Inr ()" using build_accepts by (simp add: filter_of_def)
  have have_rd: "(bh_length (tr_rangeDelBH tr) \<noteq> 0 \<or> bh_offset (tr_rangeDelBH tr) \<noteq> 0) = (rts \<noteq> [])"
  proof (cases "rts = []")
    case False
    then have "0 < length rd" using finishBlock_min [of lib "encodeRangeDelBlock [] rts" noneCodec]
      unfolding rd blockTrailerLen_def by (simp del: length_greater_0_conv)
    then have "ulen rd \<noteq> (0 :: u64)" using len f32 u64_eq [of "length rd" 0] by simp
    then show ?thesis using False by (simp add: rh)
  qed (simp add: rh zeroHandle_def)
  have de: "(if rts \<noteq> [] then bh_offset (tr_rangeDelBH tr) else bh_offset (tr_filterBH tr)) = word_of_nat (raw_len ?xs)"
    by (simp add: rh fh rd idx_of_raw data)
  have d: "list_all data_payload blks" and k: "concat (map snd blks) = kvs" using tof by (auto simp: table_of_def)
  have ib: "length (idx_bytes 0 ?xs) < 2 ^ 32"
    using length_index_entries [OF d, of lib "cfg_codec cfg"] fit
    by (simp add: flat_index table_fits_def k)
  have pi: "parseIndex tr (idx_bytes 0 ?xs) (word_of_nat (raw_len ?xs)) = Inr (idx_ents 0 0 ?xs)"
    using parseIndex_all [of "idx_bytes 0 ?xs" "[]" 0 ?xs "length f" None "[]"] ib f32 len idx_of_wf [OF tof] fr
    by (simp add: parseIndex_def file_reader_def above_prev_def idx_of_raw data)
  have rr: "(if rts \<noteq> [] then try_then (wrap_err ''table: read range-del'' (readBlockRaw lib tr (tr_rangeDelBH tr)))
      decodeRangeDelBlock else Inr []) = Inr rts"
  proof (cases "rts = []")
    case False
    have "readBlockRaw lib tr (tr_rangeDelBH tr) = Inr (encodeRangeDelBlock [] rts)"
      by (rule readBlockRaw_ok [OF fr, of data lib _ noneCodec "flt @ idx @ foot"]) (use False in \<open>simp_all add: f rd rh ll foot\<close>)
    moreover have "fits (encodeRangeDelBlock [] rts)" using fit by (simp add: table_fits_def fits_def)
    ultimately show ?thesis using False ok by (simp add: wrap_err_def decodeRangeDelBlock_encode table_ok_def)
  qed simp
  show ?thesis
    unfolding loadMeta_def Let_def have_rd de
    by (simp add: r1 r2 v pi wrap_err_def [of "''table: read filter''"] wrap_err_def [of "''table: read index''"]
        wrap_err_def [of "''table: parse index''"] rr meta_of_def Let_def)
qed

definition opened ::
  "codecLib \<Rightarrow> tableWriterConfig \<Rightarrow> (bytes \<times> bytes) list \<Rightarrow> rangeTombstone list \<Rightarrow> dblock list \<Rightarrow> bytes \<Rightarrow> tableReader \<Rightarrow> bool" where
  "opened lib cfg kvs rts blks f tr \<longleftrightarrow>
     table_ok lib cfg kvs rts blks f \<and> file_reader f tr \<and> layout_handles lib cfg kvs rts blks tr
     \<and> (tr_meta tr = None \<or> tr_meta tr = Some (meta_of lib cfg kvs rts blks))"

lemma ensureMeta_opened:
  assumes "opened lib cfg kvs rts blks f tr"
  shows "\<exists>tr'. ensureMeta lib tr = (Inr (meta_of lib cfg kvs rts blks), tr') \<and> opened lib cfg kvs rts blks f tr'
    \<and> tr_tableNum tr' = tr_tableNum tr \<and> tr_meta tr' = Some (meta_of lib cfg kvs rts blks)"
proof (cases "tr_meta tr")
  case None
  have "loadMeta lib tr = Inr (meta_of lib cfg kvs rts blks)"
    using assms by (intro loadMeta_ok [of _ _ _ _ _ f]) (simp_all add: opened_def)
  with None assms show ?thesis
    by (auto simp: ensureMeta_def opened_def file_reader_def layout_handles_def)
next
  case (Some m)
  with assms show ?thesis by (auto simp: ensureMeta_def opened_def)
qed

lemma open_ok:
  assumes ok: "table_ok lib cfg kvs rts blks f"
  shows "\<exists>tr. newTableReaderOpt lib (ReadAt f) (int (length f)) num lazy = Inr tr \<and> opened lib cfg kvs rts blks f tr
    \<and> tr_tableNum tr = num"
proof -
  have tof: "table_of lib cfg kvs rts blks f" and fit: "table_fits cfg kvs rts" using ok by (simp_all add: table_ok_def)
  obtain data rd flt idx foot where
    f: "f = data @ rd @ flt @ idx @ foot" and data: "data = concat (raw_blocks lib (cfg_codec cfg) blks)"
    and rd: "rd = (if rts = [] then [] else finishBlock lib (encodeRangeDelBlock [] rts) noneCodec)"
    and flt: "flt = finishBlock lib (filter_of cfg kvs) noneCodec"
    and idx: "idx = finishBlock lib (idx_bytes 0 (idx_of lib (cfg_codec cfg) blks)) (cfg_codec cfg)"
    and foot: "foot = encodeFooter \<lparr>bh_offset = ulen (data @ rd @ flt), bh_length = ulen idx\<rparr>
       \<lparr>bh_offset = ulen (data @ rd), bh_length = ulen flt\<rparr>
       (if rts = [] then zeroHandle else \<lparr>bh_offset = ulen data, bh_length = ulen rd\<rparr>)"
    and fl: "length foot = footerLen"
    using tof by (rule table_regions)
  define ih where "ih = \<lparr>bh_offset = (ulen (data @ rd @ flt)), bh_length = ulen idx\<rparr>"
  define fh where "fh = \<lparr>bh_offset = (ulen (data @ rd)), bh_length = ulen flt\<rparr>"
  define rh where "rh = (if rts = [] then zeroHandle else \<lparr>bh_offset = ulen data, bh_length = ulen rd\<rparr>)"
  have f32: "length f < 2 ^ 32" using table_of_length [OF tof fit] .
  have len: "length f = length data + length rd + length flt + length idx + footerLen" by (simp add: f fl)
  obtain pad where pad: "foot = encodeHandle ih [] @ encodeHandle fh [] @ encodeHandle rh [] @ replicate pad 0 @ PutUint64 magic"
    "length (encodeHandle ih []) + length (encodeHandle fh []) + length (encodeHandle rh []) + pad = 64"
    using encodeFooter_parts [of ih fh rh] unfolding foot ih_def fh_def rh_def by metis
  define a b c where "a = encodeHandle ih []" and "b = encodeHandle fh []" and "c = encodeHandle rh []"
  have ft: "foot = a @ b @ c @ replicate pad 0 @ PutUint64 magic" "length a + length b + length c + pad = 64"
    using pad by (simp_all add: a_def b_def c_def)
  have "f = (data @ rd @ flt @ idx) @ foot @ []" by (simp add: f)
  from ReadAt_ok [of "data @ rd @ flt @ idx" "length f - footerLen" foot footerLen "[]"]
  have rf: "ReadAt f (int (length f) - int footerLen) footerLen = Inr foot"
    by (simp add: f fl)
  have "drop 64 foot = PutUint64 magic"
    using ft(2) by (simp add: ft(1) drop_append)
  then have mg: "Uint64 (drop (footerLen - 8) foot) = magic" by (simp add: footerLen_def)
  have h1: "decodeHandle foot = (ih, length a)"
    using decodeHandle_encode [of ih] by (simp add: ft(1) a_def)
  have h2: "decodeHandle (drop (length a) foot) = (fh, length b)"
    using decodeHandle_encode [of fh] by (simp add: ft(1) b_def)
  have h3: "decodeHandle (drop (length a + length b) foot) = (rh, length c)"
    using decodeHandle_encode [of rh] by (simp add: ft(1) c_def)
  have nz: "length a \<noteq> 0" "length b \<noteq> 0" "length c \<noteq> 0" "\<not> footerLen - 8 < length a + length b + length c"
    using ft(2) by (simp_all add: a_def b_def c_def encodeHandle_def footerLen_def)
  have "take 64 foot = a @ b @ c @ replicate pad 0" using ft(2) by (simp add: ft(1))
  then have zp: "list_all (\<lambda>b. b = 0) (drop (length a + length b + length c) (take (footerLen - 8) foot))"
    by (simp add: footerLen_def list_all_iff)
  define D where "D = length f - footerLen"
  have D: "D = length data + length rd + length flt + length idx" "D < 2 ^ 32" using len f32 by (simp_all add: D_def)
  have de: "word_of_int (int (length f) - int footerLen) = (word_of_nat D :: u64)"
    using len by (simp add: D_def of_nat_diff)
  have c1: "\<not> (word_of_nat D < bh_length fh \<or> word_of_nat D - bh_length fh < bh_offset fh
      \<or> word_of_nat D < bh_length ih \<or> word_of_nat D - bh_length ih < bh_offset ih
      \<or> bh_offset fh + bh_length fh \<noteq> bh_offset ih \<or> bh_offset ih + bh_length ih \<noteq> word_of_nat D)"
    using u64_region [of "length (data @ rd)" "length flt" D] u64_region [of "length (data @ rd @ flt)" "length idx" D] D
    unfolding fh_def ih_def blockHandle.simps by simp
  have c2: "\<not> ((bh_length rh \<noteq> 0 \<or> bh_offset rh \<noteq> 0) \<and> (word_of_nat D < bh_length rh
      \<or> word_of_nat D - bh_length rh < bh_offset rh \<or> bh_offset rh + bh_length rh \<noteq> bh_offset fh))"
    using u64_region [of "length data" "length rd" D] D
    by (cases "rts = []") (simp_all add: fh_def rh_def zeroHandle_def)
  define tr where "tr = \<lparr>tr_r = ReadAt f, tr_size = int (length f), tr_indexBH = ih, tr_filterBH = fh,
                     tr_rangeDelBH = rh, tr_meta = None, tr_tableNum = num\<rparr>"
  have op: "opened lib cfg kvs rts blks f tr"
    using ok f32 by (simp add: opened_def tr_def file_reader_def layout_handles_def Let_def data rd flt idx
        ih_def fh_def rh_def)
  have "\<not> int (length f) < int footerLen" using len by simp
  then have "newTableReaderOpt lib (ReadAt f) (int (length f)) num lazy =
      (if \<not> lazy then (case ensureMeta lib tr of (Inl err, _) \<Rightarrow> Inl err | (Inr _, tr) \<Rightarrow> Inr tr) else Inr tr)"
    unfolding newTableReaderOpt_def
    by (simp only: rf wrap_err_def sum.case try_then_simps mg h1 h2 h3 Let_def prod.case nz zp de c1 c2 if_True if_False
        simp_thms tr_def)
  then show ?thesis using ensureMeta_opened [OF op] op by (cases lazy) (auto simp: tr_def)
qed

section \<open>Data blocks of an open table\<close>

lemma opened_block:
  assumes op: "opened lib cfg kvs rts blks f tr" and i: "i < length blks"
  defines "m \<equiv> meta_of lib cfg kvs rts blks"
  obtains pre post where
    "sep m i = fst (last (snd (blks ! i)))"
    "f = pre @ finishBlock lib (fst (blks ! i)) (cfg_codec cfg) @ post" "footerLen \<le> length post"
    "blockHandleAt m i = \<lparr>bh_offset = ulen pre, bh_length = ulen (finishBlock lib (fst (blks ! i)) (cfg_codec cfg))\<rparr>"
    "pre = concat (raw_blocks lib (cfg_codec cfg) (take i blks))"
proof -
  have tof: "table_of lib cfg kvs rts blks f" and fit: "table_fits cfg kvs rts" and f32: "length f < 2 ^ 32"
    using op by (simp_all add: opened_def table_ok_def file_reader_def)
  obtain data rd flt idx foot where f: "f = data @ rd @ flt @ idx @ foot"
    and data: "data = concat (raw_blocks lib (cfg_codec cfg) blks)" and fl: "length foot = footerLen"
    using table_regions [OF tof] by metis
  let ?xs = "idx_of lib (cfg_codec cfg) blks" and ?c = "cfg_codec cfg"
  have d: "list_all data_payload blks" and k: "concat (map snd blks) = kvs" using tof by (auto simp: table_of_def)
  have ib: "length (idx_bytes 0 ?xs) < 2 ^ 32"
    using length_index_entries [OF d, of lib ?c] fit by (simp add: flat_index table_fits_def k)
  have rl: "raw_len ?xs < 2 ^ 32" using f32 by (simp add: idx_of_raw f data)
  have xs: "length ?xs = length blks" "?xs ! i = (fst (last (snd (blks ! i))), finishBlock lib (fst (blks ! i)) ?c)"
    "take i ?xs = idx_of lib ?c (take i blks)"
    using i by (simp_all add: idx_of_def take_map)
  note n = idx_ents_nth [of i ?xs "[]" 0 m "[]"]
  have n': "sep m i = fst (last (snd (blks ! i)))"
    "blockHandleAt m i = \<lparr>bh_offset = ulen (concat (raw_blocks lib ?c (take i blks))),
       bh_length = ulen (finishBlock lib (fst (blks ! i)) ?c)\<rparr>"
    using n i ib rl xs by (simp_all add: m_def meta_of_def Let_def idx_of_raw)
  have "blks = take i blks @ blks ! i # drop (Suc i) blks" using i by (rule id_take_nth_drop)
  then have "raw_blocks lib ?c blks
      = raw_blocks lib ?c (take i blks) @ finishBlock lib (fst (blks ! i)) ?c # raw_blocks lib ?c (drop (Suc i) blks)"
    by (metis (no_types, lifting) list.simps(9) map_append raw_blocks_def)
  then have "f = concat (raw_blocks lib ?c (take i blks)) @ finishBlock lib (fst (blks ! i)) ?c
      @ (concat (raw_blocks lib ?c (drop (Suc i) blks)) @ rd @ flt @ idx @ foot)"
    by (simp add: f data)
  from that [OF n'(1) this _ n'(2)] fl show thesis by simp
qed

lemma readBlockRaw_block:
  assumes "opened lib cfg kvs rts blks f tr" "i < length blks"
  shows "readBlockRaw lib tr (blockHandleAt (meta_of lib cfg kvs rts blks) i) = Inr (fst (blks ! i))"
  using assms
proof (rule opened_block)
  fix pre post
  assume "f = pre @ finishBlock lib (fst (blks ! i)) (cfg_codec cfg) @ post" "footerLen \<le> length post"
    "blockHandleAt (meta_of lib cfg kvs rts blks) i
      = \<lparr>bh_offset = ulen pre, bh_length = ulen (finishBlock lib (fst (blks ! i)) (cfg_codec cfg))\<rparr>"
  then show ?thesis using assms(1)
    by (intro readBlockRaw_ok [of f tr pre lib "fst (blks ! i)" "cfg_codec cfg" post])
      (simp_all add: opened_def table_ok_def)
qed

lemma block_offset_inj:
  assumes op: "opened lib cfg kvs rts blks f tr" and "i < length blks" "j < length blks"
    and eq: "bh_offset (blockHandleAt (meta_of lib cfg kvs rts blks) i) = bh_offset (blockHandleAt (meta_of lib cfg kvs rts blks) j)"
  shows "i = j"
proof -
  let ?c = "cfg_codec cfg"
  have f32: "length f < 2 ^ 32" using op by (simp add: opened_def file_reader_def)
  have off: "bh_offset (blockHandleAt (meta_of lib cfg kvs rts blks) k) = ulen (concat (raw_blocks lib ?c (take k blks)))
      \<and> length (concat (raw_blocks lib ?c (take k blks))) < 2 ^ 32" if "k < length blks" for k
    using op that by (rule opened_block) (use f32 in simp)
  have lt: "length (concat (raw_blocks lib ?c (take a blks))) < length (concat (raw_blocks lib ?c (take b blks)))"
    if "a < b" "b \<le> length blks" for a b
  proof -
    have "take b blks = take a blks @ blks ! a # drop (Suc a) (take b blks)"
      using that id_take_nth_drop [of a "take b blks"] by simp
    then have "raw_blocks lib ?c (take b blks)
        = raw_blocks lib ?c (take a blks) @ finishBlock lib (fst (blks ! a)) ?c # raw_blocks lib ?c (drop (Suc a) (take b blks))"
      by (metis (no_types, lifting) list.simps(9) map_append raw_blocks_def)
    then show ?thesis using finishBlock_min [of lib "fst (blks ! a)" ?c]
      by (cases "finishBlock lib (fst (blks ! a)) ?c") (simp_all add: blockTrailerLen_def)
  qed
  define li lj where "li = length (concat (raw_blocks lib ?c (take i blks)))"
    and "lj = length (concat (raw_blocks lib ?c (take j blks)))"
  have "(word_of_nat li :: u64) = word_of_nat lj" "li < 2 ^ 32" "lj < 2 ^ 32"
    using off [OF assms(2)] off [OF assms(3)] eq by (simp_all add: li_def lj_def)
  then have "length (concat (raw_blocks lib ?c (take i blks))) = length (concat (raw_blocks lib ?c (take j blks)))"
    using u64_eq [of li lj] by (simp add: li_def lj_def)
  with lt [of i j] lt [of j i] assms(2,3) show ?thesis by (metis less_imp_le nat_less_le nat_neq_iff)
qed

text \<open>The entry iterator over a payload the writer produced.\<close>

lemma payload_iter:
  assumes "table_of lib cfg kvs rts blks f" "table_fits cfg kvs rts" "blk \<in> set blks"
  shows "\<exists>entries restarts n. splitDataBlock (fst blk) = Inr (entries, restarts, n)
    \<and> it_over (snd blk) \<lparr>it_entries = entries, it_restarts = restarts, it_nRestart = n, it_pos = 0, it_key = [],
        it_value = [], it_err = None\<rparr> \<and> list_all kv_fits (snd blk) \<and> sorted_entries (snd blk)"
proof -
  have k: "concat (map snd blks) = kvs" and d: "data_payload blk" and s: "sorted_entries kvs"
    using assms by (auto simp: table_of_def list_all_iff)
  obtain b where b: "db_inv (snd blk) b" "fst blk = fst (db_finish b)" using d by (auto simp: data_payload_def)
  obtain xs ys where sp: "blks = xs @ blk # ys" using assms(3) by (auto simp: in_set_conv_decomp)
  have rs: "raw_size (snd blk) \<le> raw_size kvs" using sp k [symmetric] by simp
  have "length (db_buf b) \<le> raw_size (snd blk)" using length_encoded [of "[]" "db_buf b" "snd blk"] b(1)
    by (simp add: db_inv_def)
  then have len: "length (db_buf b) < 2 ^ 32" using rs assms(2) by (simp add: table_fits_def)
  define it where "it = newDataBlockIter (fst (db_finish b))"
  have o: "it_over (snd blk) it" "it_pos it = 0" "it_key it = []" using it_over_finish [OF b(1) len] by (simp_all add: it_def)
  have "it_err it = None" using o by (simp add: it_over_def)
  then obtain entries restarts n where sd: "splitDataBlock (fst blk) = Inr (entries, restarts, n)"
    by (auto simp: it_def newDataBlockIter_def b(2) split: sum.splits)
  then have "it = \<lparr>it_entries = entries, it_restarts = restarts, it_nRestart = n, it_pos = 0, it_key = [],
        it_value = [], it_err = None\<rparr>"
    by (simp add: it_def newDataBlockIter_def b(2) [symmetric])
  moreover have "sorted_entries (snd blk)"
    using s k [symmetric] sp by (auto simp: sorted_entries_def sorted_wrt_append)
  moreover have "kv_fits kv" if kv: "kv \<in> set (snd blk)" for kv
  proof -
    obtain us vs where "snd blk = us @ kv # vs" using split_list [OF kv] by blast
    then have "length (fst kv) + length (snd kv) \<le> raw_size (snd blk)" by simp
    then show ?thesis using rs assms(2) by (simp add: kv_fits_def fits_def table_fits_def)
  qed
  ultimately show ?thesis using sd o by (auto simp: list_all_iff)
qed

section \<open>Point lookup\<close>

definition visible :: "bytes \<Rightarrow> u64 \<Rightarrow> bytes \<times> bytes \<Rightarrow> bool" where
  "visible u s kv \<longleftrightarrow> ikeyUserKey (fst kv) = u \<and> ikeySeq (fst kv) \<le> s"

text \<open>What a lookup should return: the first, hence newest, visible version of the key.\<close>

definition lookup_spec :: "(bytes \<times> bytes) list \<Rightarrow> bytes \<Rightarrow> u64 \<Rightarrow> int \<Rightarrow> lookupResult result" where
  "lookup_spec kvs u s now =
     (case find (visible u s) kvs of None \<Rightarrow> Inr lookupMiss
      | Some (k, v) \<Rightarrow> versionResult (ikeySeq k) (ikeyKindOf k) v now)"

lemma lookup_key_le:
  assumes "s \<le> maxIKeySeq" "wf_kv kv"
  shows "ikeyCompare (ikeyLookupKey [] u s) (fst kv) \<le> 0
    \<longleftrightarrow> u < ikeyUserKey (fst kv) \<or> visible u s kv"
proof -
  have "ikeyKindOf (fst kv) \<le> maxPersistedKind"
    using assms(2) by (auto simp: wf_kv_def validIKeyKind_def maxPersistedKind_def ikeyKind_defs)
  moreover have "fst kv = ikeyEncode [] (ikeyUserKey (fst kv)) (ikeySeq (fst kv)) (ikeyKindOf (fst kv))"
    using assms(2) ikeyEncode_parts [of "fst kv"] by (simp add: wf_kv_def)
  ultimately show ?thesis
    using ikeyCompare_encode [OF assms(1) ikeySeq_le_max, of u maxPersistedKind "ikeyUserKey (fst kv)" "fst kv" "ikeyKindOf (fst kv)"]
    by (auto simp: ikeyLookupKey_def visible_def)
qed

lemma lookup_key_less:
  assumes "s \<le> maxIKeySeq" "wf_kv kv"
  shows "ikeyCompare (fst kv) (ikeyLookupKey [] u s) < 0 \<longleftrightarrow> \<not> (u < ikeyUserKey (fst kv) \<or> visible u s kv)"
proof -
  have "valid_ikey (ikeyLookupKey [] u s)" "valid_ikey (fst kv)"
    using assms(2) by (simp_all add: ikeyLookupKey_def wf_kv_def)
  then show ?thesis using lookup_key_le [OF assms, of u] ik.cmp_swap [of "fst kv" "ikeyLookupKey [] u s"] by auto
qed

lemma user_key_mono:
  "sorted_entries (x # xs) \<Longrightarrow> y \<in> set xs \<Longrightarrow> ikeyUserKey (fst x) \<le> ikeyUserKey (fst y)"
  by (auto simp: sorted_entries_def ikeyCompare_lt)

lemma find_none_above:
  assumes "sorted_entries (x # xs)" "u < ikeyUserKey (fst x)"
  shows "find (visible u s) (x # xs) = None"
proof -
  have "\<not> visible u s y" if "y \<in> set (x # xs)" for y
    using user_key_mono [OF assms(1)] that assms(2) by (fastforce simp: visible_def)
  then show ?thesis unfolding find_None_iff by blast
qed

lemma it_run_Cons:
  assumes "it_run it = ((k, v) # rest, e)"
  obtains it' where "it_next it = (True, it')" "it_key it' = k" "it_value it' = v" "it_run it' = (rest, e)"
proof -
  obtain ok it' where nx: "it_next it = (ok, it')" by fastforce
  then show thesis
    using that [of it'] assms by (subst (asm) it_run.simps) (auto simp: split_beta split: if_splits prod.splits)
qed

lemma it_run_Nil: "it_run it = ([], e) \<Longrightarrow> it_next it = (False, e)"
  by (cases "it_next it") (subst (asm) it_run.simps, auto simp: split_beta split: if_splits)

lemma it_run_err: "it_run it = (kvs, e) \<Longrightarrow> kvs \<noteq> [] \<Longrightarrow> it_err it = None"
  by (cases kvs) (auto elim!: it_run_Cons dest!: it_next_progress)

lemma lookup_scan_run:
  assumes "it_run it = (kvs, e)" "it_err e = None" "sorted_entries kvs" "list_all wf_kv kvs"
    and "\<And>kv. kv \<in> set kvs \<Longrightarrow> above_prev prev (fst kv)"
  shows "lookup_scan it prev u s now = lookup_spec kvs u s now"
  using assms
proof (induction kvs arbitrary: it prev)
  case Nil
  from it_run_Nil [OF Nil.prems(1)] Nil.prems(2) show ?case
    by (subst lookup_scan.simps) (simp add: lookup_spec_def)
next
  case (Cons kv kvs)
  obtain k v where kv: "kv = (k, v)" by fastforce
  from Cons.prems(1) [unfolded kv] show ?case
  proof (rule it_run_Cons)
    fix it' assume nx: "it_next it = (True, it')" "it_key it' = k" "it_value it' = v" "it_run it' = (kvs, e)"
    have kp: "\<not> length k < trailerLen" "validIKeyKind (ikeyKindOf k)"
      using Cons.prems(4) kv by (simp_all add: wf_kv_def valid_ikey_def)
    have ord: "\<not> (case prev of None \<Rightarrow> False | Some p \<Rightarrow> 0 \<le> ikeyCompare p (it_key it'))"
      using Cons.prems(5) [of kv] kv nx(2) by (auto simp: above_prev_def split: option.splits)
    have e': "it_err it' = None" using it_next_progress [OF nx(1)] by simp
    have rest: "lookup_scan it' (Some k) u s now = lookup_spec kvs u s now"
      using Cons.prems nx kv by (intro Cons.IH) (auto simp: above_prev_def sorted_entries_def)
    show ?thesis
    proof (cases "u < ikeyUserKey k")
      case True
      then have "find (visible u s) (kv # kvs) = None" using Cons.prems(3) kv by (intro find_none_above) auto
      then show ?thesis
        using True nx kp ord e' by (subst lookup_scan.simps) (simp add: lookup_spec_def order_simps del: find.simps)
    next
      case False
      then have le: "\<not> 0 < bytes_compare (ikeyUserKey k) u" by (simp add: order_simps)
      show ?thesis
      proof (cases "visible u s kv")
        case True
        then have "bytes_compare (ikeyUserKey k) u = 0" "\<not> s < ikeySeq k" using kv by (auto simp: visible_def order_simps)
        then show ?thesis
          using nx kp ord le True kv by (subst lookup_scan.simps) (simp add: lookup_spec_def split_beta)
      next
        case nv: False
        then have "bytes_compare (ikeyUserKey k) u < 0 \<or> bytes_compare (ikeyUserKey k) u = 0 \<and> s < ikeySeq k"
          using False kv by (auto simp: visible_def order_simps not_le)
        then show ?thesis
          using nx kp ord le nv kv rest by (subst lookup_scan.simps) (auto simp: lookup_spec_def split_beta)
      qed
    qed
  qed
qed

lemma findBlock_loop_spec:
  assumes "\<And>j. lo \<le> j \<Longrightarrow> j < hi \<Longrightarrow> P j \<longleftrightarrow> ikeyCompare (sep m j) lookup < 0"
    and "\<And>i j. i \<le> j \<Longrightarrow> j < hi \<Longrightarrow> P j \<Longrightarrow> P i" and "lo \<le> hi" "\<And>j. j < lo \<Longrightarrow> P j"
  shows "findBlock_loop m lookup lo hi \<le> hi \<and> (\<forall>j < findBlock_loop m lookup lo hi. P j)
    \<and> (findBlock_loop m lookup lo hi < hi \<longrightarrow> \<not> P (findBlock_loop m lookup lo hi))"
  using assms
proof (induction m lookup lo hi rule: findBlock_loop.induct)
  case (1 m lookup lo hi)
  let ?mid = "(lo + hi) div 2"
  show ?case
  proof (cases "lo < hi")
    case True
    then have mid: "lo \<le> ?mid" "?mid < hi" by auto
    have Pm: "P ?mid \<longleftrightarrow> ikeyCompare (sep m ?mid) lookup < 0" using "1.prems"(1) mid by blast
    show ?thesis
    proof (cases "P ?mid")
      case p: True
      have lt: "ikeyCompare (sep m ?mid) lookup < 0" using p Pm by simp
      have below: "P j" if "j < ?mid + 1" for j using "1.prems"(2) [of j ?mid] mid p that by auto
      have "findBlock_loop m lookup lo hi = findBlock_loop m lookup (?mid + 1) hi"
        using True lt by (subst findBlock_loop.simps) (simp add: Let_def)
      then show ?thesis
        using "1.IH"(1) [OF True refl lt] "1.prems"(1,2) mid below by simp
    next
      case np: False
      have ge: "\<not> ikeyCompare (sep m ?mid) lookup < 0" using np Pm by simp
      have eq: "findBlock_loop m lookup lo hi = findBlock_loop m lookup lo ?mid"
        using True ge by (subst findBlock_loop.simps) (simp add: Let_def)
      have "findBlock_loop m lookup lo ?mid \<le> ?mid \<and> (\<forall>j < findBlock_loop m lookup lo ?mid. P j)
          \<and> (findBlock_loop m lookup lo ?mid < ?mid \<longrightarrow> \<not> P (findBlock_loop m lookup lo ?mid))"
        using "1.prems" mid by (intro "1.IH"(2) [OF True refl ge]) auto
      then show ?thesis using eq np mid by (metis le_less less_trans)
    qed
  next
    case False
    then show ?thesis using "1.prems" by (subst (1 2 3 4) findBlock_loop.simps) simp
  qed
qed

lemma find_append_skip:
  "(\<And>x. x \<in> set xs \<Longrightarrow> \<not> P x) \<Longrightarrow> find P (xs @ ys) = find P ys"
  by (induction xs) auto

lemma find_append_stop:
  "(\<forall>x\<in>set ys. \<not> P x) \<or> find P xs \<noteq> None \<Longrightarrow> find P (xs @ ys) = find P xs"
proof (induction xs)
  case Nil
  then show ?case by (auto simp: find_None_iff)
next
  case (Cons a xs)
  then show ?case by (cases "P a") auto
qed

text \<open>Only the block the index search names can hold the version a lookup needs.\<close>

lemma lookup_spec_block:
  assumes s: "s \<le> maxIKeySeq" and "sorted_entries (xs @ ys @ zs)" "list_all wf_kv (xs @ ys @ zs)"
    and below: "\<And>x. x \<in> set xs \<Longrightarrow> ikeyCompare (fst x) (ikeyLookupKey [] u s) < 0"
    and ne: "ys \<noteq> []" and last: "\<not> ikeyCompare (fst (last ys)) (ikeyLookupKey [] u s) < 0"
  shows "lookup_spec (xs @ ys @ zs) u s now = lookup_spec ys u s now"
proof -
  have wf: "\<And>x. x \<in> set (xs @ ys @ zs) \<Longrightarrow> wf_kv x" using assms(3) by (auto simp: list_all_iff)
  have "\<not> visible u s x" if "x \<in> set xs" for x
    using lookup_key_less [OF s wf, of x u] below [OF that] that by simp
  then have 1: "find (visible u s) (xs @ ys @ zs) = find (visible u s) (ys @ zs)" by (rule find_append_skip)
  have l: "last ys \<in> set ys" using ne by simp
  then have lv: "u < ikeyUserKey (fst (last ys)) \<or> visible u s (last ys)"
    using lookup_key_less [OF s wf, of "last ys" u] last by simp
  have "find (visible u s) (ys @ zs) = find (visible u s) ys"
  proof (rule find_append_stop, cases "visible u s (last ys)")
    case True
    then show "(\<forall>x\<in>set zs. \<not> visible u s x) \<or> find (visible u s) ys \<noteq> None"
      using l find_None_iff [of "visible u s" ys] by blast
  next
    case False
    have "\<not> visible u s z" if "z \<in> set zs" for z
    proof -
      have "ikeyCompare (fst (last ys)) (fst z) < 0"
        using assms(2) that l by (auto simp: sorted_entries_def sorted_wrt_append)
      then show ?thesis using lv False by (auto simp: visible_def ikeyCompare_lt)
    qed
    then show "(\<forall>x\<in>set zs. \<not> visible u s x) \<or> find (visible u s) ys \<noteq> None" by blast
  qed
  with 1 show ?thesis by (simp add: lookup_spec_def)
qed

text \<open>A cache shared by many tables holds only pairs of a relation \<open>R\<close>; the relation serves a
  table when it pairs each block of the table with its payload and nothing else.\<close>

definition cache_ok :: "(bytes \<Rightarrow> u64) \<Rightarrow> (blockCacheKey \<Rightarrow> bytes \<Rightarrow> bool) \<Rightarrow> blockCacheT option \<Rightarrow> bool" where
  "cache_ok hash R cache \<longleftrightarrow> (case cache of None \<Rightarrow> True | Some c \<Rightarrow> bc_inv c \<and> coherent (bc_holds hash) R c)"

definition block_key ::
  "codecLib \<Rightarrow> tableWriterConfig \<Rightarrow> (bytes \<times> bytes) list \<Rightarrow> rangeTombstone list \<Rightarrow> dblock list \<Rightarrow> u32 \<Rightarrow> nat \<Rightarrow> blockCacheKey" where
  "block_key lib cfg kvs rts blks num i =
     \<lparr>ck_Table = num, ck_Offset = bh_offset (blockHandleAt (meta_of lib cfg kvs rts blks) i)\<rparr>"

definition serves ::
  "(blockCacheKey \<Rightarrow> bytes \<Rightarrow> bool) \<Rightarrow> codecLib \<Rightarrow> tableWriterConfig \<Rightarrow> (bytes \<times> bytes) list \<Rightarrow> rangeTombstone list \<Rightarrow> dblock list
   \<Rightarrow> u32 \<Rightarrow> bool" where
  "serves R lib cfg kvs rts blks num \<longleftrightarrow>
     (\<forall>i < length blks. \<forall>v. R (block_key lib cfg kvs rts blks num i) v \<longleftrightarrow> v = fst (blks ! i))"

lemma readBlock_ok:
  assumes op: "opened lib cfg kvs rts blks f tr" and i: "i < length blks"
    and sv: "serves R lib cfg kvs rts blks (tr_tableNum tr)" and c: "cache_ok hash R cache"
  shows "\<exists>cache'. readBlock lib hash tr (blockHandleAt (meta_of lib cfg kvs rts blks) i) cache
      = Some (Inr (fst (blks ! i)), cache') \<and> cache_ok hash R cache'"
proof (cases cache)
  case None
  with readBlockRaw_block [OF op i] show ?thesis by (simp add: readBlock_def cache_ok_def)
next
  case (Some bc)
  let ?h = "blockHandleAt (meta_of lib cfg kvs rts blks) i"
  let ?k = "\<lparr>ck_Table = tr_tableNum tr, ck_Offset = bh_offset ?h\<rparr>"
  have R: "R ?k v \<longleftrightarrow> v = fst (blks ! i)" for v using sv i by (simp add: serves_def block_key_def)
  have inv: "bc_inv bc" "coherent (bc_holds hash) R bc" using c Some by (simp_all add: cache_ok_def)
  obtain r bc1 where g: "bc_get hash ?k bc = (r, bc1)" by fastforce
  from bc.get_coherent [OF inv g] have 1: "bc_inv bc1" "coherent (bc_holds hash) R bc1" "\<forall>v. r = Some v \<longrightarrow> R ?k v"
    by simp_all
  show ?thesis
  proof (cases r)
    case (Some v)
    then have "v = fst (blks ! i)" using 1(3) R by blast
    then show ?thesis using Some \<open>cache = Some bc\<close> g 1
      by (auto simp: readBlock_def cache_ok_def)
  next
    case None
    have "R ?k (fst (blks ! i))" using R by blast
    from bc.add_coherent [OF 1(1,2) this] obtain bc2 where
      "bc_Add hash ?k (fst (blks ! i)) bc1 = Some bc2" "bc_inv bc2" "coherent (bc_holds hash) R bc2" by blast
    then show ?thesis using None \<open>cache = Some bc\<close> g readBlockRaw_block [OF op i]
      by (auto simp: readBlock_def cache_ok_def)
  qed
qed

text \<open>The relation of a set of tables with different file numbers.\<close>

definition blocks_of ::
  "codecLib \<Rightarrow> tableWriterConfig \<Rightarrow> (bytes \<times> bytes) list \<Rightarrow> rangeTombstone list \<Rightarrow> dblock list \<Rightarrow> u32 \<Rightarrow> blockCacheKey \<Rightarrow> bytes \<Rightarrow> bool" where
  "blocks_of lib cfg kvs rts blks num k v \<longleftrightarrow>
     (\<forall>i < length blks. k = block_key lib cfg kvs rts blks num i \<longrightarrow> v = fst (blks ! i))"

lemma serves_own:
  assumes op: "opened lib cfg kvs rts blks f tr"
  shows "serves (blocks_of lib cfg kvs rts blks num) lib cfg kvs rts blks num"
  unfolding serves_def blocks_of_def block_key_def using block_offset_inj [OF op] by auto

lemma lookupPastBloom_ok:
  assumes op: "opened lib cfg kvs rts blks f tr" and s: "s \<le> maxIKeySeq"
    and sv: "serves R lib cfg kvs rts blks (tr_tableNum tr)" and c: "cache_ok hash R cache"
  shows "\<exists>cache'. lookupPastBloom lib hash tr (meta_of lib cfg kvs rts blks) u s now cache
      = Some (lookup_spec kvs u s now, cache') \<and> cache_ok hash R cache'"
proof -
  let ?m = "meta_of lib cfg kvs rts blks" and ?lk = "ikeyLookupKey [] u s"
  have tof: "table_of lib cfg kvs rts blks f" and fit: "table_fits cfg kvs rts"
    using op by (simp_all add: opened_def table_ok_def)
  have k: "concat (map snd blks) = kvs" and d: "list_all data_payload blks" and srt: "sorted_entries kvs"
    and wf: "list_all wf_kv kvs" using tof by (auto simp: table_of_def)
  have vl: "valid_ikey ?lk" by (simp add: ikeyLookupKey_def)
  have ne: "snd b \<noteq> []" if "b \<in> set blks" for b using d that by (auto simp: list_all_iff data_payload_def)
  have "length (idx_ents pos off xs) = length xs" for pos off xs
    by (induction xs arbitrary: pos off) auto
  then have n: "length (tm_indexEnt ?m) = length blks" by (simp add: meta_of_def Let_def idx_of_def)
  define P where "P j = (ikeyCompare (fst (last (snd (blks ! j)))) ?lk < 0)" for j
  have sp: "sep ?m j = fst (last (snd (blks ! j)))" if "j < length blks" for j
    using op that by (rule opened_block)
  have vk: "valid_ikey (fst (last (snd (blks ! j))))" if "j < length blks" for j
    using ne [OF nth_mem [OF that]] nth_mem [OF that] srt k by (force simp: sorted_entries_def intro: last_in_set)
  have mono: "P a" if ab: "a \<le> b" "b < length blks" "P b" for a b
  proof (cases "a = b")
    case False
    have "list_all (\<lambda>b. snd b \<noteq> []) blks" using ne by (simp add: list_all_iff)
    moreover have "sorted_wrt (\<lambda>a b. ikeyCompare (fst a) (fst b) < 0) (concat (map snd blks))"
      using srt k by (simp add: sorted_entries_def)
    ultimately have "sorted_wrt (\<lambda>a b. ikeyCompare (fst (last (snd a))) (fst (last (snd b))) < 0) blks"
      by (intro sorted_last)
    then have "ikeyCompare (fst (last (snd (blks ! a)))) (fst (last (snd (blks ! b)))) < 0"
      using ab False by (simp add: sorted_wrt_iff_nth_less)
    then show ?thesis using ab ik.cmp_trans [OF vk vk vl, of a b] by (simp add: P_def)
  qed (use ab in simp)
  define p where "p = findBlock ?m ?lk"
  have "p \<le> length blks \<and> (\<forall>j<p. P j) \<and> (p < length blks \<longrightarrow> \<not> P p)"
    unfolding p_def findBlock_def n
  proof (rule findBlock_loop_spec)
    fix j assume "j < length blks"
    then show "P j \<longleftrightarrow> ikeyCompare (sep ?m j) ?lk < 0" by (simp add: P_def sp)
  next
    fix i j assume "i \<le> j" "j < length blks" "P j"
    then show "P i" by (rule mono)
  qed simp_all
  then have p: "p \<le> length blks" "\<And>j. j < p \<Longrightarrow> P j" "p < length blks \<Longrightarrow> \<not> P p" by blast+
  have below: "ikeyCompare (fst x) ?lk < 0" if x: "x \<in> set (concat (map snd (take p blks)))" for x
  proof -
    obtain b where b: "b \<in> set (take p blks)" "x \<in> set (snd b)" using x by auto
    then obtain j where j: "j < p" "x \<in> set (snd (blks ! j))" "j < length blks"
      using p(1) in_set_conv_nth [of b "take p blks"] by auto
    have "blks ! j \<in> set blks" using j(3) by simp
    then have it: "sorted_entries (snd (blks ! j))" using payload_iter [OF tof fit] by blast
    have "x = last (snd (blks ! j)) \<or> ikeyCompare (fst x) (fst (last (snd (blks ! j)))) < 0"
      using it j(2) by (cases "snd (blks ! j)" rule: rev_cases) (auto simp: sorted_entries_def sorted_wrt_append)
    moreover have "valid_ikey (fst x)" using it j(2) by (auto simp: sorted_entries_def)
    ultimately show ?thesis using p(2) [OF j(1)] ik.cmp_trans [of "fst x" "fst (last (snd (blks ! j)))" ?lk] vk [OF j(3)] vl by (auto simp: P_def)
  qed
  show ?thesis
  proof (cases "p < length blks")
    case False
    then have "take p blks = blks" by simp
    then have "\<forall>x\<in>set kvs. \<not> visible u s x"
      using below k wf lookup_key_less [OF s, of _ u] by (fastforce simp: list_all_iff)
    then have "lookup_spec kvs u s now = Inr lookupMiss"
      using find_None_iff [of "visible u s" kvs] by (auto simp: lookup_spec_def)
    then show ?thesis using False n c by (simp add: lookupPastBloom_def p_def Let_def)
  next
    case True
    let ?blk = "blks ! p"
    have bs: "?blk \<in> set blks" using True by simp
    have split: "kvs = concat (map snd (take p blks)) @ snd ?blk @ concat (map snd (drop (Suc p) blks))"
      using k arg_cong [OF id_take_nth_drop [OF True], of "\<lambda>b. concat (map snd b)"] by simp
    have last: "\<not> ikeyCompare (fst (last (snd ?blk))) ?lk < 0" using p(3) [OF True] by (simp add: P_def)
    have spec: "lookup_spec kvs u s now = lookup_spec (snd ?blk) u s now"
      using lookup_spec_block [OF s, of "concat (map snd (take p blks))" "snd ?blk" "concat (map snd (drop (Suc p) blks))" u now,
          folded split, OF srt wf below ne [OF bs] last] .
    obtain cache' where rb: "readBlock lib hash tr (blockHandleAt ?m p) cache = Some (Inr (fst ?blk), cache')"
      and c': "cache_ok hash R cache'"
      using readBlock_ok [OF op True sv c] by blast
    obtain entries restarts nr where sd: "splitDataBlock (fst ?blk) = Inr (entries, restarts, nr)"
      and ov: "it_over (snd ?blk) \<lparr>it_entries = entries, it_restarts = restarts, it_nRestart = nr, it_pos = 0, it_key = [],
        it_value = [], it_err = None\<rparr>" and kf: "list_all kv_fits (snd ?blk)" and so: "sorted_entries (snd ?blk)"
      using payload_iter [OF tof fit bs] by blast
    define it where "it = \<lparr>it_entries = entries, it_restarts = restarts, it_nRestart = nr, it_pos = 0, it_key = [],
        it_value = [], it_err = None\<rparr>"
    have ov': "it_over (snd ?blk) it" using ov by (simp add: it_def)
    obtain q e where run: "it_run (it_seek ?lk it) = (drop q (snd ?blk), e)" "it_err e = None"
      and skip: "\<forall>kv\<in>set (take q (snd ?blk)). ikeyCompare (fst kv) ?lk < 0"
      using it_seek_over [OF ov' kf so vl] by (metis prod.collapse)
    have wfb: "list_all wf_kv (snd ?blk)" using wf split by simp
    have "lookup_scan (it_seek ?lk it) None u s now = lookup_spec (drop q (snd ?blk)) u s now"
      using run so wfb
      by (intro lookup_scan_run) (auto simp: sorted_entries_def sorted_wrt_drop list_all_iff above_prev_def dest: in_set_dropD)
    also have "\<dots> = lookup_spec (snd ?blk) u s now"
    proof -
      have "\<not> visible u s x" if "x \<in> set (take q (snd ?blk))" for x
        using skip that wfb lookup_key_less [OF s, of x u] by (auto simp: list_all_iff dest: in_set_takeD)
      then have "find (visible u s) (take q (snd ?blk) @ drop q (snd ?blk)) = find (visible u s) (drop q (snd ?blk))"
        by (rule find_append_skip)
      then show ?thesis by (simp add: lookup_spec_def)
    qed
    finally show ?thesis
      using True rb sd c' spec n by (simp add: lookupPastBloom_def p_def [symmetric] Let_def it_def)
  qed
qed

lemma bloom_rejects:
  assumes "\<not> bloomMayContain (filter_of cfg kvs) (bloomHash u)"
  shows "lookup_spec kvs u s now = Inr lookupMiss"
proof -
  have "\<not> visible u s kv" if "kv \<in> set kvs" for kv
  proof
    assume "visible u s kv"
    then have "bloomHash u \<in> set (map (bloomHash \<circ> ikeyUserKey \<circ> fst) kvs)" using that by (force simp: visible_def)
    with assms build_accepts show False unfolding filter_of_def by blast
  qed
  then have "find (visible u s) kvs = None" unfolding find_None_iff by blast
  then show ?thesis by (simp add: lookup_spec_def)
qed

lemma lookupAtTime_ok:
  assumes op: "opened lib cfg kvs rts blks f tr" and s: "s \<le> maxIKeySeq"
    and sv: "serves R lib cfg kvs rts blks (tr_tableNum tr)" and c: "cache_ok hash R cache"
  shows "\<exists>b tr' cache'. lookupAtTime lib hash tr u s now cache
      = Some (try_then (lookup_spec kvs u s now) (\<lambda>r. Inr (r\<lparr>lr_bloomPassed := b\<rparr>)), tr', cache')
    \<and> opened lib cfg kvs rts blks f tr' \<and> tr_tableNum tr' = tr_tableNum tr \<and> cache_ok hash R cache'"
proof -
  let ?m = "meta_of lib cfg kvs rts blks"
  obtain tr' where m: "ensureMeta lib tr = (Inr ?m, tr')" "opened lib cfg kvs rts blks f tr'" "tr_tableNum tr' = tr_tableNum tr"
    using ensureMeta_opened [OF op] by blast
  have fl: "tm_filter ?m = filter_of cfg kvs" by (simp add: meta_of_def Let_def)
  show ?thesis
  proof (cases "bloomMayContain (filter_of cfg kvs) (bloomHash u)")
    case False
    have "lookupMiss\<lparr>lr_bloomPassed := False\<rparr> = lookupMiss" by (simp add: lookupMiss_def)
    then show ?thesis
      using False m c bloom_rejects [OF False, of s now]
      by (intro exI [of _ False] exI [of _ tr'] exI [of _ cache]) (simp add: lookupAtTime_def fl)
  next
    case True
    obtain cache' where "lookupPastBloom lib hash tr' ?m u s now cache = Some (lookup_spec kvs u s now, cache')"
      "cache_ok hash R cache'"
      using lookupPastBloom_ok [OF m(2) s _ c] sv m(3) by auto
    then show ?thesis
      using True m by (intro exI [of _ True] exI [of _ tr'] exI [of _ cache']) (simp add: lookupAtTime_def fl)
  qed
qed

end
