(* ===== verification/Memtable.thy ===== *)
theory Memtable
  imports Skiplist Table_Correct
begin

text \<open>
  The memtable (\<^verbatim>\<open>memtable.go\<close>): point writes in the skip list, range tombstones in
  insertion order, the versioned lookup, and the two iterators.  Writes go to one
  memtable at a time under its lock, so an operation is one step on the value; the
  lock and the stack buffer of the lookup have no value of their own.  A snapshot
  iterator keeps the arena slice it pinned; later writes may change link bytes in
  that array, so its reads take the array as it is at that moment.

  The lemmas show that a memtable holds its point writes as a sorted run of
  versions, that \<open>getVersionAt\<close> resolves the newest visible one of them as a table
  lookup would (\<open>lookup_spec\<close>), and that a snapshot iterator is not disturbed by
  later writes.
\<close>

record memtableT =
  mt_list :: skiplist
  mt_size :: int
  mt_count :: nat
  mt_rts :: "rangeTombstone list"

definition newMemtable :: "(nat \<Rightarrow> nat) \<Rightarrow> memtableT" where
  "newMemtable rng = \<lparr>mt_list = newSkiplist rng, mt_size = 0, mt_count = 0, mt_rts = []\<rparr>"

definition mt_Size :: "memtableT \<Rightarrow> int" where "mt_Size m = mt_size m"
definition mt_Len :: "memtableT \<Rightarrow> nat" where "mt_Len m = mt_count m"

definition mt_empty :: "memtableT \<Rightarrow> bool" where
  "mt_empty m \<longleftrightarrow> sl_first (mt_list m) = nilNode \<and> length (mt_rts m) = 0"

definition overlapsUserRange :: "bytes \<Rightarrow> bytes \<Rightarrow> memtableT \<Rightarrow> bool option" where
  "overlapsUserRange minKey maxKey m =
     Option.bind (sl_seek (ikeyEncode [] minKey maxIKeySeq ikeyKindSetTTL) (mt_list m)) (\<lambda>off.
       if off = nilNode then Some False
       else Some (bytes_compare (ikeyUserKey (sl_key (mt_list m) off)) maxKey \<le> 0))"

definition mt_add :: "u64 \<Rightarrow> ikeyKind \<Rightarrow> bytes \<Rightarrow> bytes \<Rightarrow> memtableT \<Rightarrow> memtableT option" where
  "mt_add seq kind key val m =
     (let ik = ikeyEncode [] key seq kind
      in Option.bind (sl_insert ik val (mt_list m)) (\<lambda>l.
           Some (m\<lparr>mt_list := l, mt_size := mt_size m + int (length ik + length val), mt_count := mt_count m + 1\<rparr>)))"

definition mt_Put :: "u64 \<Rightarrow> bytes \<Rightarrow> bytes \<Rightarrow> memtableT \<Rightarrow> memtableT option" where
  "mt_Put seq key val m = mt_add seq ikeyKindSet key val m"

definition mt_putTTL :: "u64 \<Rightarrow> bytes \<Rightarrow> bytes \<Rightarrow> int \<Rightarrow> memtableT \<Rightarrow> memtableT option" where
  "mt_putTTL seq key val expiresAt m = mt_add seq ikeyKindSetTTL key (encodeExpiringValue val expiresAt) m"

definition mt_del :: "u64 \<Rightarrow> bytes \<Rightarrow> memtableT \<Rightarrow> memtableT option" where
  "mt_del seq key m = mt_add seq ikeyKindDelete key [] m"

definition mt_delRange :: "u64 \<Rightarrow> bytes \<Rightarrow> bytes \<Rightarrow> memtableT \<Rightarrow> memtableT" where
  "mt_delRange seq start end' m =
     (let rt = \<lparr>rt_start = start, rt_end = end', rt_seq = seq\<rparr>
      in m\<lparr>mt_rts := mt_rts m @ [rt], mt_size := mt_size m + int (length start + length end'), mt_count := mt_count m + 1\<rparr>)"

definition mt_rangeTombstones :: "memtableT \<Rightarrow> rangeTombstone list" where
  "mt_rangeTombstones m = mt_rts m"

text \<open>The five results of \<open>getVersionAt\<close>: value, version sequence, found, deleted, deadline.\<close>

type_synonym versionAt = "bytes \<times> u64 \<times> bool \<times> bool \<times> int"

definition getVersionAt :: "u64 \<Rightarrow> bytes \<Rightarrow> int \<Rightarrow> memtableT \<Rightarrow> versionAt option" where
  "getVersionAt seq key now m =
     (let lookup = ikeyLookupKey [] key seq
      in Option.bind (sl_seek lookup (mt_list m)) (\<lambda>n.
        if n = nilNode then Some ([], 0, False, False, 0)
        else let nkey = sl_key (mt_list m) n
        in if ikeyUserKey nkey \<noteq> key then Some ([], 0, False, False, 0)
        else let (nseq, kind) = ikeySeqKind nkey
        in if seq < nseq then Some ([], 0, False, False, 0)
        else if kind = ikeyKindDelete then Some ([], nseq, True, True, 0)
        else if kind = ikeyKindSetTTL then
          (case decodeExpiringValue (sl_value (mt_list m) n) of
             Inl err \<Rightarrow> Some ([], nseq, True, True, 0)
           | Inr (val, exp) \<Rightarrow>
             if exp \<le> now then Some ([], nseq, True, True, 0) else Some (val, nseq, True, False, exp))
        else Some (sl_value (mt_list m) n, nseq, True, False, 0)))"

definition mt_get :: "u64 \<Rightarrow> bytes \<Rightarrow> int \<Rightarrow> memtableT \<Rightarrow> (bytes \<times> bool \<times> bool) option" where
  "mt_get seq key now m =
     Option.bind (getVersionAt seq key now m) (\<lambda>(val, _, found, deleted, _). Some (val, found, deleted))"

record memtableIterator =
  mi_list :: skiplist
  mi_n :: u32
  mi_started :: bool

definition mt_newIterator :: "memtableT \<Rightarrow> memtableIterator" where
  "mt_newIterator m = \<lparr>mi_list = mt_list m, mi_n = nilNode, mi_started = False\<rparr>"

definition mi_Next :: "memtableIterator \<Rightarrow> bool \<times> memtableIterator" where
  "mi_Next it =
     (let it = (if \<not> mi_started it then it\<lparr>mi_started := True, mi_n := sl_first (mi_list it)\<rparr>
                else if mi_n it \<noteq> nilNode then it\<lparr>mi_n := sl_next (mi_list it) (mi_n it) 0\<rparr>
                else it)
      in (mi_n it \<noteq> nilNode, it))"

definition mi_internalKey :: "memtableIterator \<Rightarrow> bytes" where "mi_internalKey it = sl_key (mi_list it) (mi_n it)"
definition mi_Value :: "memtableIterator \<Rightarrow> bytes" where "mi_Value it = sl_value (mi_list it) (mi_n it)"

record memtableSnapshotIterator =
  ms_arena :: bytes
  ms_offs :: "u32 list"
  ms_index :: int

partial_function (option) snapshot_offs :: "skiplist \<Rightarrow> u32 \<Rightarrow> u32 \<Rightarrow> u32 list option" where
  "snapshot_offs s boundary n =
     (if n = nilNode \<or> boundary \<le> n then Some []
      else Option.bind (snapshot_offs s boundary (sl_next s n 0)) (\<lambda>offs. Some (n # offs)))"

declare snapshot_offs.simps [code]

definition newSnapshotIterator :: "memtableT \<Rightarrow> memtableSnapshotIterator option" where
  "newSnapshotIterator m =
     (let pinned = sl_arena (mt_list m)
      in Option.bind (snapshot_offs (mt_list m) (word_of_nat (length pinned)) (sl_first (mt_list m))) (\<lambda>offs.
           Some \<lparr>ms_arena = pinned, ms_offs = offs, ms_index = -1\<rparr>))"

definition ms_Next :: "memtableSnapshotIterator \<Rightarrow> bool \<times> memtableSnapshotIterator" where
  "ms_Next it = (let it = it\<lparr>ms_index := ms_index it + 1\<rparr> in (ms_index it < int (length (ms_offs it)), it))"

definition ms_internalKey :: "memtableSnapshotIterator \<Rightarrow> bytes" where
  "ms_internalKey it = skiplistKeyAt (ms_arena it) (ms_offs it ! nat (ms_index it))"

definition ms_Value :: "memtableSnapshotIterator \<Rightarrow> bytes" where
  "ms_Value it = skiplistValueAt (ms_arena it) (ms_offs it ! nat (ms_index it))"

section \<open>Versions in a sorted run\<close>

definition sorted_versions :: "(bytes \<times> bytes) list \<Rightarrow> bool" where
  "sorted_versions es \<longleftrightarrow> sorted_wrt (\<lambda>a c. ikeyCompare (fst a) (fst c) \<le> 0) es"

lemma sorted_entries_versions: "sorted_entries es \<Longrightarrow> sorted_versions es"
  unfolding sorted_entries_def sorted_versions_def
  by (auto elim: sorted_wrt_mono_rel [rotated] intro: less_imp_le)

lemma sorted_versions_user:
  "sorted_versions (e # es) \<Longrightarrow> e' \<in> set es \<Longrightarrow> ikeyUserKey (fst e) \<le> ikeyUserKey (fst e')"
  by (auto simp: sorted_versions_def order_simps)

text \<open>The first entry at or after the lookup key is the newest visible version, if it has the user key.\<close>

lemma find_visible_seek:
  assumes "sorted_versions es" "\<forall>e\<in>set es. wf_kv e" "s \<le> maxIKeySeq"
  shows "find (visible u s) es
    = (case find (\<lambda>e. 0 \<le> ikeyCompare (fst e) (ikeyLookupKey [] u s)) es of None \<Rightarrow> None
       | Some e \<Rightarrow> if ikeyUserKey (fst e) = u then Some e else None)"
  using assms(1,2)
proof (induction es)
  case (Cons e es)
  have e: "0 \<le> ikeyCompare (fst e) (ikeyLookupKey [] u s) \<longleftrightarrow> u < ikeyUserKey (fst e) \<or> visible u s e"
    using lookup_key_less [OF assms(3), of e u] Cons.prems(2) by (auto simp: not_less [symmetric])
  have IH: "\<not> visible u s e \<Longrightarrow> \<not> u < ikeyUserKey (fst e) \<Longrightarrow> ?case"
    using Cons e by (auto simp: sorted_versions_def)
  have "find (visible u s) es = None" if "u < ikeyUserKey (fst e)"
    using sorted_versions_user [OF Cons.prems(1)] that by (force simp: find_None_iff visible_def)
  moreover have "ikeyUserKey (fst e) = u" if "visible u s e" using that by (simp add: visible_def)
  ultimately show ?case using e IH by (cases "u < ikeyUserKey (fst e)"; cases "visible u s e") auto
qed simp

lemma find_visible_newest:
  assumes "sorted_versions es" "find (visible u s) es = Some e"
  shows "e \<in> set es" "visible u s e" "\<And>e'. e' \<in> set es \<Longrightarrow> visible u s e' \<Longrightarrow> ikeyTrailer (fst e') \<le> ikeyTrailer (fst e)"
proof -
  obtain i where i: "i < length es" "visible u s (es ! i)" "e = es ! i" "\<forall>j<i. \<not> visible u s (es ! j)"
    using assms(2) by (auto simp: find_Some_iff)
  then show "e \<in> set es" "visible u s e" by auto
  fix e' assume "e' \<in> set es" and v: "visible u s e'"
  then obtain j where j: "j < length es" "e' = es ! j" by (auto simp: in_set_conv_nth)
  with i v have "i \<le> j" by (meson not_le)
  then show "ikeyTrailer (fst e') \<le> ikeyTrailer (fst e)"
  proof (cases "i = j")
    case False
    then have "ikeyCompare (fst e) (fst e') \<le> 0"
      using assms(1) i(3) j \<open>i \<le> j\<close> by (simp add: sorted_versions_def sorted_wrt_iff_nth_less)
    then show ?thesis using i(2,3) v by (auto simp: order_simps visible_def)
  qed (simp add: i j)
qed

section \<open>The contents of a memtable\<close>

text \<open>What \<open>add\<close> is called with: a set, a tombstone, or a value with a deadline.\<close>

definition mem_entry :: "bytes \<times> bytes \<Rightarrow> bool" where
  "mem_entry e \<longleftrightarrow> valid_ikey (fst e)
     \<and> (ikeyKindOf (fst e) = ikeyKindSet \<or> ikeyKindOf (fst e) = ikeyKindDelete
        \<or> ikeyKindOf (fst e) = ikeyKindSetTTL \<and> (\<exists>v d. decodeExpiringValue (snd e) = Inr (v, d)))"

definition mt_holds :: "memtableT \<Rightarrow> (bytes \<times> bytes) list \<Rightarrow> bool" where
  "mt_holds m es \<longleftrightarrow> sl_holds (mt_list m) es \<and> (\<forall>e\<in>set es. mem_entry e)"

lemma mem_entry_wf: "mem_entry e \<Longrightarrow> wf_kv e"
  by (auto simp: mem_entry_def wf_kv_def validIKeyKind_def)

lemma mt_holds_sorted: "mt_holds m es \<Longrightarrow> sorted_versions es"
  unfolding sorted_versions_def mt_holds_def by (blast intro: sl.holds_sorted)

lemma getVersionAt_ok:
  assumes h: "mt_holds m es" and s: "s \<le> maxIKeySeq"
  shows "\<exists>r. lookup_spec es u s now = Inr r \<and> lr_blobPtr r = None
    \<and> getVersionAt s u now m = Some (lr_value r, lr_versionSeq r, lr_found r, lr_deleted r, lr_expiresAt r)"
proof -
  let ?lk = "ikeyLookupKey [] u s"
  have sl: "sl_holds (mt_list m) es" and me: "\<forall>e\<in>set es. mem_entry e" using h by (auto simp: mt_holds_def)
  obtain n where n: "sl_seek ?lk (mt_list m) = Some n" using sl.seek_ok [OF sl] by blast
  have f: "find (visible u s) es
    = (case find (\<lambda>e. 0 \<le> ikeyCompare (fst e) ?lk) es of None \<Rightarrow> None
       | Some e \<Rightarrow> if ikeyUserKey (fst e) = u then Some e else None)"
    using find_visible_seek [OF mt_holds_sorted [OF h] _ s] me mem_entry_wf by blast
  show ?thesis
  proof (cases "n = nilNode")
    case True
    then have "find (\<lambda>e. 0 \<le> ikeyCompare (fst e) ?lk) es = None"
      using sl.seek_entry(1) [OF sl n] by (auto simp: find_None_iff)
    then show ?thesis using True n f by (simp add: getVersionAt_def lookup_spec_def lookupMiss_def)
  next
    case False
    define k v where "k = sl_key (mt_list m) n" and "v = sl_value (mt_list m) n"
    have fk: "find (\<lambda>e. 0 \<le> ikeyCompare (fst e) ?lk) es = Some (k, v)"
      using sl.seek_entry(2) [OF sl n False] by (simp add: k_def v_def)
    show ?thesis
    proof (cases "ikeyUserKey k = u")
      case differ: False
      then show ?thesis using False n f fk by (simp add: getVersionAt_def lookup_spec_def lookupMiss_def k_def [symmetric])
    next
      case True
      have kv: "(k, v) \<in> set es" "0 \<le> ikeyCompare k ?lk" using fk unfolding find_Some_iff by (metis nth_mem, metis fst_conv)
      have "visible u s (k, v)"
        using lookup_key_less [OF s mem_entry_wf, of "(k, v)" u] me kv True by (auto simp: not_less [symmetric])
      then have le: "\<not> s < ikeySeq k" by (auto simp: visible_def)
      have "mem_entry (k, v)" using me kv by blast
      then show ?thesis
        using True False n f fk le
        by (auto simp: getVersionAt_def lookup_spec_def lookupMiss_def versionResult_def Let_def split_beta mem_entry_def
            k_def [symmetric] v_def [symmetric] ikeyKind_defs)
    qed
  qed
qed

section \<open>Writes\<close>

datatype mop =
    MPut u64 bytes bytes
  | MPutTTL u64 bytes bytes int
  | MDel u64 bytes
  | MDelRange u64 bytes bytes

fun mt_apply :: "mop \<Rightarrow> memtableT \<Rightarrow> memtableT option" where
  "mt_apply (MPut seq key val) m = mt_Put seq key val m"
| "mt_apply (MPutTTL seq key val expiresAt) m = mt_putTTL seq key val expiresAt m"
| "mt_apply (MDel seq key) m = mt_del seq key m"
| "mt_apply (MDelRange seq start end') m = Some (mt_delRange seq start end' m)"

fun mt_run :: "mop list \<Rightarrow> memtableT \<Rightarrow> memtableT option" where
  "mt_run [] m = Some m"
| "mt_run (x # xs) m = Option.bind (mt_apply x m) (mt_run xs)"

fun mop_seq :: "mop \<Rightarrow> u64" where
  "mop_seq (MPut seq _ _) = seq"
| "mop_seq (MPutTTL seq _ _ _) = seq"
| "mop_seq (MDel seq _) = seq"
| "mop_seq (MDelRange seq _ _) = seq"

text \<open>The version a point write stores, the tombstone a range delete stores, and the arena bytes a write takes at most.\<close>

fun mop_entry :: "mop \<Rightarrow> (bytes \<times> bytes) list" where
  "mop_entry (MPut seq key val) = [(ikeyEncode [] key seq ikeyKindSet, val)]"
| "mop_entry (MPutTTL seq key val expiresAt) = [(ikeyEncode [] key seq ikeyKindSetTTL, encodeExpiringValue val expiresAt)]"
| "mop_entry (MDel seq key) = [(ikeyEncode [] key seq ikeyKindDelete, [])]"
| "mop_entry (MDelRange _ _ _) = []"

fun mop_rts :: "mop \<Rightarrow> rangeTombstone list" where
  "mop_rts (MDelRange seq start end') = [\<lparr>rt_start = start, rt_end = end', rt_seq = seq\<rparr>]"
| "mop_rts _ = []"

definition entry_cost :: "bytes \<times> bytes \<Rightarrow> nat" where
  "entry_cost e = 12 + 4 * maxHeight + (length (fst e) + length (snd e))"

definition mop_cost :: "mop \<Rightarrow> nat" where
  "mop_cost x = sum_list (map entry_cost (mop_entry x))"

fun mop_ok :: "mop \<Rightarrow> bool" where
  "mop_ok (MPutTTL seq _ _ expiresAt) \<longleftrightarrow> seq \<le> maxIKeySeq \<and> 0 < expiresAt \<and> expiresAt < 2 ^ 63"
| "mop_ok x \<longleftrightarrow> mop_seq x \<le> maxIKeySeq"

lemma mop_ok_seq: "mop_ok x \<Longrightarrow> mop_seq x \<le> maxIKeySeq" by (cases x) auto

lemma mop_entry_mem: "mop_ok x \<Longrightarrow> e \<in> set (mop_entry x) \<Longrightarrow> mem_entry e"
  by (cases x) (auto simp: mem_entry_def decodeExpiringValue_encode int64_range_def)

lemma mt_add_ok:
  assumes "mt_holds m es" "mem_entry (ikeyEncode [] key seq kind, val)"
    "length (sl_arena (mt_list m)) + entry_cost (ikeyEncode [] key seq kind, val) < 2 ^ 32"
  shows "\<exists>m'. mt_add seq kind key val m = Some m' \<and> mt_holds m' (ins (ikeyEncode [] key seq kind) val es)
    \<and> length (sl_arena (mt_list m')) \<le> length (sl_arena (mt_list m)) + entry_cost (ikeyEncode [] key seq kind, val)
    \<and> sl_later (mt_list m) (mt_list m') \<and> mt_rts m' = mt_rts m \<and> mt_count m' = mt_count m + 1"
proof -
  let ?k = "ikeyEncode [] key seq kind"
  have sl: "sl_holds (mt_list m) es" using assms(1) by (simp add: mt_holds_def)
  have room: "sl_room (mt_list m) (length ?k + length val)" using assms(3) by (simp add: sl_room_def entry_cost_def)
  obtain l where l: "sl_insert ?k val (mt_list m) = Some l" "sl_holds l (ins ?k val es)"
    "length (sl_arena l) \<le> length (sl_arena (mt_list m)) + 12 + 4 * maxHeight + (length ?k + length val)"
    using sl_insert_holds [OF sl room] by blast
  have "sl_later (mt_list m) l" by (rule sl_insert_later [OF room l(1)])
  moreover have "\<forall>e\<in>set (ins ?k val es). mem_entry e" using assms(1,2) by (auto simp: mt_holds_def)
  ultimately show ?thesis using l by (simp add: mt_add_def Let_def mt_holds_def entry_cost_def)
qed

lemma mt_apply_ok:
  assumes "mt_holds m es" "mop_ok x" "length (sl_arena (mt_list m)) + mop_cost x < 2 ^ 32"
  shows "\<exists>m' es'. mt_apply x m = Some m' \<and> mt_holds m' es' \<and> mset es' = mset (mop_entry x) + mset es
    \<and> length (sl_arena (mt_list m')) \<le> length (sl_arena (mt_list m)) + mop_cost x
    \<and> sl_later (mt_list m) (mt_list m') \<and> mt_rts m' = mt_rts m @ mop_rts x \<and> mt_count m' = mt_count m + 1"
proof -
  have point: ?thesis if x: "mt_apply x m = mt_add seq kind key val m" "mop_entry x = [(ikeyEncode [] key seq kind, val)]"
    "mop_rts x = []" for seq kind key val
  proof -
    have "mem_entry (ikeyEncode [] key seq kind, val)" using mop_entry_mem [OF assms(2)] x(2) by simp
    from mt_add_ok [OF assms(1) this] assms(3) x obtain m' where
      "mt_add seq kind key val m = Some m'" "mt_holds m' (ins (ikeyEncode [] key seq kind) val es)"
      "length (sl_arena (mt_list m')) \<le> length (sl_arena (mt_list m)) + mop_cost x"
      "sl_later (mt_list m) (mt_list m')" "mt_rts m' = mt_rts m" "mt_count m' = mt_count m + 1"
      by (auto simp: mop_cost_def)
    with x show ?thesis
      by (intro exI [of _ m'] exI [of _ "ins (ikeyEncode [] key seq kind) val es"]) simp
  qed
  show ?thesis
  proof (cases x)
    case (MDelRange seq start end')
    then show ?thesis using assms(1) by (intro exI [of _ "mt_delRange seq start end' m"] exI [of _ es])
        (simp add: mt_delRange_def mt_holds_def)
  qed (rule point; simp add: mt_Put_def mt_putTTL_def mt_del_def)+
qed

lemma mt_run_ok:
  assumes "mt_holds m es" "\<forall>x\<in>set xs. mop_ok x" "length (sl_arena (mt_list m)) + sum_list (map mop_cost xs) < 2 ^ 32"
  shows "\<exists>m' es'. mt_run xs m = Some m' \<and> mt_holds m' es' \<and> mset es' = mset (concat (map mop_entry xs)) + mset es
    \<and> length (sl_arena (mt_list m')) \<le> length (sl_arena (mt_list m)) + sum_list (map mop_cost xs)
    \<and> sl_later (mt_list m) (mt_list m') \<and> mt_rts m' = mt_rts m @ concat (map mop_rts xs) \<and> mt_count m' = mt_count m + length xs"
  using assms
proof (induction xs arbitrary: m es)
  case (Cons x xs)
  obtain m1 es1 where 1: "mt_apply x m = Some m1" "mt_holds m1 es1" "mset es1 = mset (mop_entry x) + mset es"
    "length (sl_arena (mt_list m1)) \<le> length (sl_arena (mt_list m)) + mop_cost x"
    "sl_later (mt_list m) (mt_list m1)" "mt_rts m1 = mt_rts m @ mop_rts x" "mt_count m1 = mt_count m + 1"
  proof -
    have "mop_ok x" "length (sl_arena (mt_list m)) + mop_cost x < 2 ^ 32" using Cons.prems(2,3) by simp_all
    from mt_apply_ok [OF Cons.prems(1) this] show thesis by (elim exE conjE) (rule that)
  qed
  have "\<forall>x\<in>set xs. mop_ok x" "length (sl_arena (mt_list m1)) + sum_list (map mop_cost xs) < 2 ^ 32"
    using 1(4) Cons.prems(2,3) by simp_all
  from Cons.IH [OF 1(2) this] obtain m2 es2 where 2: "mt_run xs m1 = Some m2" "mt_holds m2 es2"
    "mset es2 = mset (concat (map mop_entry xs)) + mset es1"
    "length (sl_arena (mt_list m2)) \<le> length (sl_arena (mt_list m1)) + sum_list (map mop_cost xs)"
    "sl_later (mt_list m1) (mt_list m2)" "mt_rts m2 = mt_rts m1 @ concat (map mop_rts xs)" "mt_count m2 = mt_count m1 + length xs"
    by (elim exE conjE) (rule that)
  have "sl_later (mt_list m) (mt_list m2)" by (rule sl_later_trans [OF 1(5) 2(5)])
  then show ?case using 1 2 by (intro exI [of _ m2] exI [of _ es2]) auto
qed auto

lemma newMemtable_holds: "mt_holds (newMemtable rng) []" "length (sl_arena (mt_list (newMemtable rng))) = 13 + 4 * maxHeight"
  by (simp_all add: newMemtable_def mt_holds_def newSkiplist_holds)

section \<open>Snapshot iteration\<close>

lemma snapshot_offs_ok:
  assumes "rep s nodes" "linked nodes 0 x js" "set js \<subseteq> {..<length nodes}"
  shows "snapshot_offs s (word_of_nat (length (sl_arena s))) (case js of [] \<Rightarrow> nilNode | j # _ \<Rightarrow> addr nodes j)
    = Some (map (addr nodes) js)"
  using assms(2,3)
proof (induction js arbitrary: x)
  case Nil
  show ?case by (subst snapshot_offs.simps) simp
next
  case (Cons j js)
  have j: "j < length nodes" and lj: "linked nodes 0 j js" using Cons.prems by auto
  have len: "length (sl_arena s) < 2 ^ 32" using assms(1) unfolding rep_def by blast
  have "noff nodes j < length (sl_arena s)" using noff_le [OF assms(1) j] by (simp add: nsize_def)
  then have "\<not> word_of_nat (length (sl_arena s)) \<le> addr nodes j"
    using len by (simp add: addr_def word_le_nat_alt unat_of_nat)
  then show ?case
    using Cons.IH [OF lj] Cons.prems(2) addr_not_nil [OF assms(1) j] sl_next_linked [OF assms(1) lj]
    by (subst snapshot_offs.simps) simp
qed

text \<open>Reading a snapshot iterator to its end.\<close>

fun ms_scan :: "nat \<Rightarrow> memtableSnapshotIterator \<Rightarrow> (bytes \<times> bytes) list" where
  "ms_scan 0 it = []"
| "ms_scan (Suc n) it =
     (let (ok, it) = ms_Next it in if ok then (ms_internalKey it, ms_Value it) # ms_scan n it else [])"

definition ms_yields :: "memtableSnapshotIterator \<Rightarrow> (bytes \<times> bytes) list \<Rightarrow> bool" where
  "ms_yields it es \<longleftrightarrow> -1 \<le> ms_index it
     \<and> es = map (\<lambda>off. (skiplistKeyAt (ms_arena it) off, skiplistValueAt (ms_arena it) off)) (drop (nat (ms_index it + 1)) (ms_offs it))"

lemma ms_yields_Nil: "ms_yields it [] \<Longrightarrow> \<exists>it'. ms_Next it = (False, it')"
  by (auto simp: ms_yields_def ms_Next_def Let_def)

lemma ms_yields_Cons:
  assumes "ms_yields it (e # es)"
  shows "\<exists>it'. ms_Next it = (True, it') \<and> ms_internalKey it' = fst e \<and> ms_Value it' = snd e \<and> ms_yields it' es"
proof -
  let ?i = "nat (ms_index it + 1)"
  have i: "-1 \<le> ms_index it" and d: "e # es = map (\<lambda>off. (skiplistKeyAt (ms_arena it) off, skiplistValueAt (ms_arena it) off)) (drop ?i (ms_offs it))"
    using assms by (auto simp: ms_yields_def)
  have lt: "?i < length (ms_offs it)" by (rule ccontr) (use d in simp)
  then have "drop ?i (ms_offs it) = ms_offs it ! ?i # drop (Suc ?i) (ms_offs it)" by (simp add: Cons_nth_drop_Suc)
  moreover have "nat (2 + ms_index it) = Suc ?i" using i by simp
  ultimately show ?thesis using d lt i
    by (auto simp: ms_Next_def Let_def ms_yields_def ms_internalKey_def ms_Value_def)
qed

lemma ms_scan_yields: "ms_yields it es \<Longrightarrow> length es < n \<Longrightarrow> ms_scan n it = es"
proof (induction es arbitrary: it n)
  case Nil
  then show ?case using ms_yields_Nil [OF Nil.prems(1)] by (cases n) auto
next
  case (Cons e es)
  then show ?case using ms_yields_Cons [OF Cons.prems(1)] by (cases n) (auto simp: split_beta)
qed

text \<open>The pinned array read at a later moment yields the entries of the moment of the snapshot.\<close>

lemma newSnapshotIterator_ok:
  assumes h: "mt_holds m es"
  shows "\<exists>it. newSnapshotIterator m = Some it \<and> ms_yields it es \<and> ms_arena it = sl_arena (mt_list m) \<and> length (ms_offs it) = length es
    \<and> (\<forall>l'. sl_later (mt_list m) l' \<longrightarrow>
         ms_yields (it\<lparr>ms_arena := take (length (ms_arena it)) (sl_arena l')\<rparr>) es)"
proof -
  let ?l = "mt_list m"
  obtain nodes os where inv: "sl_inv ?l nodes os" and es: "es = map (\<lambda>j. node_entry (nodes ! j)) os"
    using h by (auto simp: mt_holds_def sl_holds_def)
  have r: "rep ?l nodes" and sub: "set os \<subseteq> {..<length nodes}" using inv by (auto simp: sl_inv_def)
  have "sl_first ?l = (case os of [] \<Rightarrow> nilNode | j # _ \<Rightarrow> addr nodes j)"
    using sl_next_linked [OF r linked_0 [OF inv]] inv by (simp add: sl_first_def sl_inv_def)
  then have new: "newSnapshotIterator m = Some \<lparr>ms_arena = sl_arena ?l, ms_offs = map (addr nodes) os, ms_index = -1\<rparr>"
    using snapshot_offs_ok [OF r linked_0 [OF inv] sub] by (simp add: newSnapshotIterator_def Let_def)
  have read: "ms_yields \<lparr>ms_arena = sl_arena l, ms_offs = map (addr nodes) os, ms_index = -1\<rparr> es"
    if "rep l nodes'" "same_shape nodes nodes'" for l nodes'
  proof -
    have "(skiplistKeyAt (sl_arena l) (addr nodes j), skiplistValueAt (sl_arena l) (addr nodes j)) = node_entry (nodes ! j)"
      if "j \<in> set os" for j
    proof -
      have j: "j < length nodes" "j < length nodes'" using that sub \<open>same_shape nodes nodes'\<close> by (auto simp: same_shape_def)
      then show ?thesis
        using skiplistKeyAt_rep [OF \<open>rep l nodes'\<close> j(2)] skiplistValueAt_rep [OF \<open>rep l nodes'\<close> j(2)]
          same_shape_addr [OF \<open>same_shape nodes nodes'\<close>] same_shape_entry [OF \<open>same_shape nodes nodes'\<close> j(1)]
        by (simp add: node_entry_def)
    qed
    then show ?thesis by (simp add: ms_yields_def es)
  qed
  have later: "ms_yields (\<lparr>ms_arena = sl_arena ?l, ms_offs = map (addr nodes) os, ms_index = -1\<rparr>
      \<lparr>ms_arena := take (length (sl_arena ?l)) (sl_arena l')\<rparr>) es" if "sl_later ?l l'" for l'
    using pinned_rep [OF inv that] read by fastforce
  show ?thesis using new read [OF r same_shape_refl] later by (simp add: es)
qed

section \<open>Properties\<close>

fun mop_key :: "mop \<Rightarrow> bytes option" where
  "mop_key (MPut _ key _) = Some key"
| "mop_key (MPutTTL _ key _ _) = Some key"
| "mop_key (MDel _ key) = Some key"
| "mop_key (MDelRange _ _ _) = None"

definition newer_op :: "u64 \<Rightarrow> bytes \<Rightarrow> mop option \<Rightarrow> mop \<Rightarrow> mop option" where
  "newer_op s u best x =
     (if mop_key x = Some u \<and> mop_seq x \<le> s \<and> (case best of None \<Rightarrow> True | Some b \<Rightarrow> mop_seq b < mop_seq x) then Some x else best)"

text \<open>Of the writes to a key at or below a sequence, the one with the highest sequence.\<close>

definition newest_op :: "mop list \<Rightarrow> u64 \<Rightarrow> bytes \<Rightarrow> mop option" where
  "newest_op xs s u = foldl (newer_op s u) None xs"

fun mop_outcome :: "mop option \<Rightarrow> int \<Rightarrow> versionAt" where
  "mop_outcome (Some (MPut q _ v)) now = (v, q, True, False, 0)"
| "mop_outcome (Some (MPutTTL q _ v d)) now = (if d \<le> now then ([], q, True, True, 0) else (v, q, True, False, d))"
| "mop_outcome (Some (MDel q _)) now = ([], q, True, True, 0)"
| "mop_outcome _ now = ([], 0, False, False, 0)"

lemma foldl_newer:
  assumes "foldl (newer_op s u) best xs = r"
  shows "r = None \<longleftrightarrow> best = None \<and> (\<forall>x\<in>set xs. \<not> (mop_key x = Some u \<and> mop_seq x \<le> s))"
    and "r = Some b \<Longrightarrow> (best = Some b \<or> b \<in> set xs \<and> mop_key b = Some u \<and> mop_seq b \<le> s)
      \<and> (\<forall>x\<in>set xs. mop_key x = Some u \<and> mop_seq x \<le> s \<longrightarrow> mop_seq x \<le> mop_seq b)
      \<and> (\<forall>c. best = Some c \<longrightarrow> mop_seq c \<le> mop_seq b)"
  using assms
proof (induction xs arbitrary: best)
  case Nil
  { case 1 then show ?case by auto }
  { case 2 then show ?case by auto }
next
  case (Cons x xs)
  { case 1 then show ?case using Cons.IH(1) [of "newer_op s u best x"] by (auto simp: newer_op_def split: if_splits option.splits) }
  { case 2 then show ?case using Cons.IH(2) [of "newer_op s u best x"]
      by (auto simp: newer_op_def split: if_splits option.splits) }
qed

lemma mop_entry_visible:
  assumes "mop_ok x" "e \<in> set (mop_entry x)"
  shows "visible u s e \<longleftrightarrow> mop_key x = Some u \<and> mop_seq x \<le> s" "ikeySeq (fst e) = mop_seq x"
  using assms mop_ok_seq [OF assms(1)] by (cases x; auto simp: visible_def)+

lemma trailer_le_seq: "ikeyTrailer a \<le> ikeyTrailer b \<Longrightarrow> ikeySeq a \<le> ikeySeq b"
  by (simp add: ikeySeqKind_def Let_def drop_bit_eq_div word_le_nat_alt unat_div div_le_mono)

lemma mop_outcome_entry:
  assumes "mop_ok x" "e \<in> set (mop_entry x)" "versionResult (ikeySeq (fst e)) (ikeyKindOf (fst e)) (snd e) now = Inr r"
  shows "(lr_value r, lr_versionSeq r, lr_found r, lr_deleted r, lr_expiresAt r) = mop_outcome (Some x) now"
  using assms mop_ok_seq [OF assms(1)]
  by (cases x) (auto simp: versionResult_def Let_def lookupMiss_def ikeyKind_defs decodeExpiringValue_encode int64_range_def
      split: if_splits)

lemma newest_entry:
  assumes "mt_holds m es" "mset es = mset (concat (map mop_entry xs))" "\<forall>x\<in>set xs. mop_ok x" "distinct (map mop_seq xs)"
    and spec: "lookup_spec es u s now = Inr r"
  shows "(lr_value r, lr_versionSeq r, lr_found r, lr_deleted r, lr_expiresAt r) = mop_outcome (newest_op xs s u) now"
proof -
  have set: "set es = (\<Union>x\<in>set xs. set (mop_entry x))" using arg_cong [where f = set_mset, OF assms(2)] by simp
  have ent: "\<exists>e. e \<in> set (mop_entry x)" if "mop_key x \<noteq> None" for x using that by (cases x) auto
  note nw = foldl_newer [OF newest_op_def [symmetric], of xs s u]
  show ?thesis
  proof (cases "find (visible u s) es")
    case None
    then have "\<not> (mop_key x = Some u \<and> mop_seq x \<le> s)" if "x \<in> set xs" for x
      using ent [of x] mop_entry_visible(1) [of x] that assms(3) set by (fastforce simp: find_None_iff)
    then have "newest_op xs s u = None" using nw(1) by simp
    then show ?thesis using spec None by (auto simp: lookup_spec_def lookupMiss_def)
  next
    case (Some e)
    note f = find_visible_newest [OF mt_holds_sorted [OF assms(1)] Some]
    obtain x where x: "x \<in> set xs" "e \<in> set (mop_entry x)" using f(1) set by auto
    have ok: "mop_ok x" using assms(3) x by blast
    have vx: "mop_key x = Some u" "mop_seq x \<le> s" using f(2) mop_entry_visible(1) [OF ok x(2)] by auto
    then obtain b where b: "newest_op xs s u = Some b" using nw(1) x by fastforce
    have bb: "b \<in> set xs" "mop_key b = Some u" "mop_seq b \<le> s" "mop_seq x \<le> mop_seq b"
      using nw(2) [OF b] x vx by auto
    obtain eb where eb: "eb \<in> set (mop_entry b)" using ent [of b] bb by auto
    have okb: "mop_ok b" using assms(3) bb by blast
    have "ikeyTrailer (fst eb) \<le> ikeyTrailer (fst e)"
      using f(3) [of eb] mop_entry_visible(1) [OF okb eb] bb eb set by auto
    then have "mop_seq b \<le> mop_seq x"
      using trailer_le_seq mop_entry_visible(2) [OF okb eb] mop_entry_visible(2) [OF ok x(2)] by metis
    then have "b = x" using bb x assms(4) by (metis antisym distinct_map inj_onD)
    then show ?thesis
      using mop_outcome_entry [OF ok x(2), of now r] spec Some b by (simp add: lookup_spec_def split_beta)
  qed
qed

text \<open>
  C7.  A memtable answers every versioned lookup from its writes: after any
  sequence of puts, puts with a deadline, deletes and range deletes with distinct
  sequences, and for every draw of node heights, the lookup at a sequence returns
  the outcome of the write to that key with the highest sequence not above it (a
  value, a tombstone, or a tombstone for a value whose deadline has passed), and
  nothing when there is none.  The range deletes are kept in order.  All the writes
  return as long as their total size leaves the arena addressable by 32 bits.
\<close>

theorem memtable_get_newest:
  assumes "\<forall>x\<in>set xs. mop_ok x" "distinct (map mop_seq xs)" "61 + sum_list (map mop_cost xs) < 2 ^ 32" "s \<le> maxIKeySeq"
  shows "\<exists>m. mt_run xs (newMemtable rng) = Some m
    \<and> getVersionAt s u now m = Some (mop_outcome (newest_op xs s u) now)
    \<and> mt_rangeTombstones m = concat (map mop_rts xs) \<and> mt_count m = length xs"
proof -
  have fit: "length (sl_arena (mt_list (newMemtable rng))) + sum_list (map mop_cost xs) < 2 ^ 32"
    using assms(3) by (simp add: newMemtable_holds maxHeight_def)
  obtain m es where m: "mt_run xs (newMemtable rng) = Some m" "mt_holds m es" "mset es = mset (concat (map mop_entry xs))"
    "mt_rts m = concat (map mop_rts xs)" "mt_count m = length xs"
    using mt_run_ok [OF newMemtable_holds(1) assms(1) fit] by (auto simp: newMemtable_def)
  obtain r where "lookup_spec es u s now = Inr r"
    "getVersionAt s u now m = Some (lr_value r, lr_versionSeq r, lr_found r, lr_deleted r, lr_expiresAt r)"
    using getVersionAt_ok [OF m(2) assms(4)] by blast
  with newest_entry [OF m(2,3) assms(1,2)] m show ?thesis by (simp add: mt_rangeTombstones_def)
qed

theorem memtable_get_newest_witness:
  "\<exists>m. mt_run [MPut 1 [7] [1], MPutTTL 2 [7] [2] 50, MDel 3 [8], MDelRange 4 [1] [9], MPut 5 [7] [3]] (newMemtable (\<lambda>i. i)) = Some m
    \<and> getVersionAt 4 [7] 49 m = Some ([2], 2, True, False, 50)
    \<and> mt_rangeTombstones m = [\<lparr>rt_start = [1], rt_end = [9], rt_seq = 4\<rparr>]"
proof -
  let ?xs = "[MPut 1 [7] [1], MPutTTL 2 [7] [2] 50, MDel 3 [8], MDelRange 4 [1] [9], MPut 5 [7] [3]]"
  have "newest_op ?xs 4 [7] = Some (MPutTTL 2 [7] [2] 50)" by code_simp
  moreover have "\<forall>x\<in>set ?xs. mop_ok x" by (simp add: maxIKeySeq_def push_bit_eq_mult)
  moreover have "61 + sum_list (map mop_cost ?xs) < 2 ^ 32"
    by (simp add: mop_cost_def entry_cost_def maxHeight_def encodeExpiringValue_def)
  ultimately show ?thesis
    using memtable_get_newest [of ?xs 4 "\<lambda>i. i" "[7]" 49] by (simp add: maxIKeySeq_def push_bit_eq_mult) blast
qed

text \<open>
  C33.  A snapshot iterator is a stable view.  It yields exactly the point versions
  written before it was taken, in internal-key order; and reading it after any
  further writes, from the array it pinned as those writes left it (their link
  updates included), yields the same entries.
\<close>

theorem memtable_snapshot_stable:
  assumes "\<forall>x\<in>set (xs @ ys). mop_ok x" "61 + sum_list (map mop_cost (xs @ ys)) < 2 ^ 32"
  shows "\<exists>m it m' es. mt_run xs (newMemtable rng) = Some m \<and> newSnapshotIterator m = Some it \<and> mt_run ys m = Some m'
    \<and> ms_scan (Suc (length (ms_offs it))) it = es
    \<and> ms_scan (Suc (length (ms_offs it))) (it\<lparr>ms_arena := take (length (ms_arena it)) (sl_arena (mt_list m'))\<rparr>) = es
    \<and> sorted_versions es \<and> mset es = mset (concat (map mop_entry xs))"
proof -
  have fit: "length (sl_arena (mt_list (newMemtable rng))) + sum_list (map mop_cost xs) < 2 ^ 32"
    and ok: "\<forall>x\<in>set xs. mop_ok x" "\<forall>x\<in>set ys. mop_ok x"
    using assms by (simp_all add: newMemtable_holds maxHeight_def)
  obtain m es where m: "mt_run xs (newMemtable rng) = Some m" "mt_holds m es" "mset es = mset (concat (map mop_entry xs))"
    "length (sl_arena (mt_list m)) \<le> length (sl_arena (mt_list (newMemtable rng))) + sum_list (map mop_cost xs)"
    using mt_run_ok [OF newMemtable_holds(1) ok(1) fit] by auto
  have "length (sl_arena (mt_list m)) + sum_list (map mop_cost ys) < 2 ^ 32"
    using m(4) assms(2) by (simp add: newMemtable_holds maxHeight_def)
  then obtain m' where m': "mt_run ys m = Some m'" "sl_later (mt_list m) (mt_list m')"
    using mt_run_ok [OF m(2) ok(2)] by blast
  obtain it where it: "newSnapshotIterator m = Some it" "ms_yields it es" "length (ms_offs it) = length es"
    "ms_yields (it\<lparr>ms_arena := take (length (ms_arena it)) (sl_arena (mt_list m'))\<rparr>) es"
    using newSnapshotIterator_ok [OF m(2)] m'(2) by blast
  show ?thesis
    using m m' it ms_scan_yields [OF it(2), of "Suc (length (ms_offs it))"] ms_scan_yields [OF it(4), of "Suc (length (ms_offs it))"]
      mt_holds_sorted [OF m(2)]
    by (intro exI [of _ m] exI [of _ it] exI [of _ m'] exI [of _ es]) simp
qed

theorem memtable_snapshot_stable_witness:
  "\<exists>m it m' es. mt_run [MPut 2 [7] [1], MPut 1 [5] []] (newMemtable (\<lambda>i. 0)) = Some m \<and> newSnapshotIterator m = Some it
    \<and> mt_run [MDel 3 [6]] m = Some m'
    \<and> ms_scan (Suc (length (ms_offs it))) (it\<lparr>ms_arena := take (length (ms_arena it)) (sl_arena (mt_list m'))\<rparr>) = es
    \<and> mset es = {#(ikeyEncode [] [7] 2 1, [1]), (ikeyEncode [] [5] 1 1, [])#}"
proof -
  let ?xs = "[MPut 2 [7] [1], MPut 1 [5] []]" and ?ys = "[MDel 3 [6]]"
  have "\<forall>x\<in>set (?xs @ ?ys). mop_ok x" by (simp add: maxIKeySeq_def push_bit_eq_mult)
  moreover have "61 + sum_list (map mop_cost (?xs @ ?ys)) < 2 ^ 32"
    by (simp add: mop_cost_def entry_cost_def maxHeight_def)
  ultimately have "\<exists>m it m' es. mt_run ?xs (newMemtable (\<lambda>i. 0)) = Some m \<and> newSnapshotIterator m = Some it \<and> mt_run ?ys m = Some m'
    \<and> ms_scan (Suc (length (ms_offs it))) it = es
    \<and> ms_scan (Suc (length (ms_offs it))) (it\<lparr>ms_arena := take (length (ms_arena it)) (sl_arena (mt_list m'))\<rparr>) = es
    \<and> sorted_versions es \<and> mset es = mset (concat (map mop_entry ?xs))"
    by (rule memtable_snapshot_stable)
  moreover have "mset (concat (map mop_entry ?xs)) = {#(ikeyEncode [] [7] 2 1, [1]), (ikeyEncode [] [5] 1 1, [])#}"
    by (simp add: ikeyKindSet_def)
  ultimately show ?thesis by metis
qed

end
