(* ===== verification/Merge.thy ===== *)
theory Merge
  imports Memtable
begin

text \<open>
  The k-way merge over sorted sources (\<^verbatim>\<open>engine_merge.go\<close>) and the operations of Go's
  \<^verbatim>\<open>container/heap\<close> it calls.  A source is a value of any type with the four methods of
  the \<^verbatim>\<open>entrySource\<close> interface; \<open>es_runs\<close> says which entries a source produces and how
  it ends.  The heap holds the primed sources, smallest key first.

  The lemmas show that \<open>down\<close> restores the heap order, that each step emits a
  smallest remaining entry, and hence that a merge produces exactly the entries of
  its sources in internal-key order, or reports the error of a source that failed.
\<close>

section \<open>container/heap\<close>

definition heap_swap :: "'a list \<Rightarrow> nat \<Rightarrow> nat \<Rightarrow> 'a list" where
  "heap_swap h i j = h[i := h ! j, j := h ! i]"

function heap_down :: "('a \<Rightarrow> 'a \<Rightarrow> bool) \<Rightarrow> 'a list \<Rightarrow> nat \<Rightarrow> nat \<Rightarrow> 'a list \<times> nat" where
  "heap_down lt h i n =
     (let j1 = 2 * i + 1
      in if n \<le> j1 then (h, i)
      else let j2 = j1 + 1; j = (if j2 < n \<and> lt (h ! j2) (h ! j1) then j2 else j1)
      in if \<not> lt (h ! j) (h ! i) then (h, i)
      else heap_down lt (heap_swap h i j) j n)"
  by pat_completeness auto
termination by (relation "measure (\<lambda>(lt, h, i, n). n - i)") (auto simp: Let_def split: if_splits)

declare heap_down.simps [simp del]

function heap_up :: "('a \<Rightarrow> 'a \<Rightarrow> bool) \<Rightarrow> 'a list \<Rightarrow> nat \<Rightarrow> 'a list" where
  "heap_up lt h j =
     (let i = (j - 1) div 2
      in if i = j \<or> \<not> lt (h ! j) (h ! i) then h else heap_up lt (heap_swap h i j) i)"
  by pat_completeness auto
termination by (relation "measure (\<lambda>(lt, h, j). j)") auto

declare heap_up.simps [simp del]

fun heap_init_loop :: "('a \<Rightarrow> 'a \<Rightarrow> bool) \<Rightarrow> 'a list \<Rightarrow> nat \<Rightarrow> 'a list" where
  "heap_init_loop lt h 0 = h"
| "heap_init_loop lt h (Suc i) = heap_init_loop lt (fst (heap_down lt h i (length h))) i"

definition heap_Init :: "('a \<Rightarrow> 'a \<Rightarrow> bool) \<Rightarrow> 'a list \<Rightarrow> 'a list" where
  "heap_Init lt h = heap_init_loop lt h (length h div 2)"

definition heap_Fix :: "('a \<Rightarrow> 'a \<Rightarrow> bool) \<Rightarrow> 'a list \<Rightarrow> nat \<Rightarrow> 'a list" where
  "heap_Fix lt h i = (let (h', i') = heap_down lt h i (length h) in if i < i' then h' else heap_up lt h' i)"

text \<open>\<^verbatim>\<open>heap.Pop\<close>, with the \<^verbatim>\<open>Pop\<close> of \<^verbatim>\<open>mergeHeap\<close>, which cuts off the last element.\<close>

definition heap_Pop :: "('a \<Rightarrow> 'a \<Rightarrow> bool) \<Rightarrow> 'a list \<Rightarrow> 'a list" where
  "heap_Pop lt h =
     (let n = length h - 1; h = heap_swap h 0 n; (h, _) = heap_down lt h 0 n in take (length h - 1) h)"

section \<open>The merge\<close>

record 's entrySource =
  es_Next :: "'s \<Rightarrow> bool \<times> 's"
  es_internalKey :: "'s \<Rightarrow> bytes"
  es_Value :: "'s \<Rightarrow> bytes"
  es_Error :: "'s \<Rightarrow> error option"

record 's mergeSource =
  ms_src :: 's
  ms_key :: bytes
  ms_val :: bytes

record 's mergeIter =
  mg_h :: "'s mergeSource list"
  mg_curKey :: bytes
  mg_curVal :: bytes
  mg_err :: "error option"

definition merge_less :: "'s mergeSource \<Rightarrow> 's mergeSource \<Rightarrow> bool" where
  "merge_less a b \<longleftrightarrow> ikeyCompare (ms_key a) (ms_key b) < 0"

fun merge_prime :: "'s entrySource \<Rightarrow> 's list \<Rightarrow> 's mergeIter \<Rightarrow> 's mergeIter" where
  "merge_prime I [] m = m"
| "merge_prime I (s # ss) m =
     (let (ok, s) = es_Next I s
      in merge_prime I ss
           (if ok then m\<lparr>mg_h := mg_h m @ [\<lparr>ms_src = s, ms_key = es_internalKey I s, ms_val = es_Value I s\<rparr>]\<rparr>
            else if es_Error I s \<noteq> None \<and> mg_err m = None then m\<lparr>mg_err := es_Error I s\<rparr>
            else m))"

definition newMergeIter :: "'s entrySource \<Rightarrow> 's list \<Rightarrow> 's mergeIter" where
  "newMergeIter I sources =
     (let m = merge_prime I sources \<lparr>mg_h = [], mg_curKey = [], mg_curVal = [], mg_err = None\<rparr>
      in m\<lparr>mg_h := heap_Init merge_less (mg_h m)\<rparr>)"

definition mg_Next :: "'s entrySource \<Rightarrow> 's mergeIter \<Rightarrow> bool \<times> 's mergeIter" where
  "mg_Next I m =
     (if mg_err m \<noteq> None \<or> length (mg_h m) = 0 then (False, m)
      else let top = mg_h m ! 0; m = m\<lparr>mg_curKey := ms_key top, mg_curVal := ms_val top\<rparr>;
               (ok, s) = es_Next I (ms_src top)
      in if ok then
           let top = \<lparr>ms_src = s, ms_key = es_internalKey I s, ms_val = es_Value I s\<rparr>
           in (True, m\<lparr>mg_h := heap_Fix merge_less ((mg_h m)[0 := top]) 0\<rparr>)
         else
           let m = (if es_Error I s \<noteq> None \<and> mg_err m = None then m\<lparr>mg_err := es_Error I s\<rparr> else m)
           in (True, m\<lparr>mg_h := heap_Pop merge_less ((mg_h m)[0 := top\<lparr>ms_src := s\<rparr>])\<rparr>))"

text \<open>A source that produces the entries \<open>es\<close> and then ends, with or without an error.\<close>

fun es_runs :: "'s entrySource \<Rightarrow> 's \<Rightarrow> (bytes \<times> bytes) list \<Rightarrow> error option \<Rightarrow> bool" where
  "es_runs I s [] e \<longleftrightarrow> (\<exists>s'. es_Next I s = (False, s') \<and> es_Error I s' = e)"
| "es_runs I s (x # xs) e \<longleftrightarrow>
     (\<exists>s'. es_Next I s = (True, s') \<and> es_internalKey I s' = fst x \<and> es_Value I s' = snd x \<and> es_runs I s' xs e)"

text \<open>Reading a merge to its end.\<close>

fun mg_scan :: "'s entrySource \<Rightarrow> nat \<Rightarrow> 's mergeIter \<Rightarrow> (bytes \<times> bytes) list \<times> 's mergeIter" where
  "mg_scan I 0 m = ([], m)"
| "mg_scan I (Suc n) m =
     (let (ok, m) = mg_Next I m
      in if ok then let (es, m') = mg_scan I n m in ((mg_curKey m, mg_curVal m) # es, m') else ([], m))"

section \<open>The heap order\<close>

text \<open>The smaller child that \<open>down\<close> compares with.\<close>

definition heap_child :: "('a \<Rightarrow> 'a \<Rightarrow> bool) \<Rightarrow> 'a list \<Rightarrow> nat \<Rightarrow> nat \<Rightarrow> nat" where
  "heap_child lt h i n = (if 2 * i + 2 < n \<and> lt (h ! (2 * i + 2)) (h ! (2 * i + 1)) then 2 * i + 2 else 2 * i + 1)"

lemma heap_down_step:
  "heap_down lt h i n =
     (if n \<le> 2 * i + 1 \<or> \<not> lt (h ! heap_child lt h i n) (h ! i) then (h, i)
      else heap_down lt (heap_swap h i (heap_child lt h i n)) (heap_child lt h i n) n)"
  by (subst heap_down.simps) (simp add: Let_def heap_child_def)

lemma heap_child_bound:
  "heap_child lt h i n = 2 * i + 1 \<or> heap_child lt h i n = 2 * i + 2" "i < heap_child lt h i n"
  "\<not> n \<le> 2 * i + 1 \<Longrightarrow> heap_child lt h i n < n"
  by (auto simp: heap_child_def)

lemma heap_down_pos: "heap_down lt h i n = (h', i') \<Longrightarrow> i \<le> i'"
proof (induction "n - i" arbitrary: h i rule: less_induct)
  case less
  let ?j = "heap_child lt h i n"
  show ?case
  proof (cases "n \<le> 2 * i + 1 \<or> \<not> lt (h ! ?j) (h ! i)")
    case True
    then show ?thesis using less.prems heap_down_step [of lt h i n] by simp
  next
    case False
    then have d: "heap_down lt (heap_swap h i ?j) ?j n = (h', i')" using less.prems heap_down_step [of lt h i n] by simp
    have "n - ?j < n - i" using False heap_child_bound [where lt = lt and h = h and i = i and n = n] by linarith
    then show ?thesis using less.hyps [OF _ d] heap_child_bound(2) [where lt = lt and h = h and i = i and n = n] by linarith
  qed
qed

locale weak_order =
  fixes lt :: "'a \<Rightarrow> 'a \<Rightarrow> bool"
  assumes irrefl: "\<not> lt a a"
    and trans: "lt a b \<Longrightarrow> lt b c \<Longrightarrow> lt a c"
    and weak: "lt a c \<Longrightarrow> lt a b \<or> lt b c"
begin

text \<open>\<open>heaped h n k\<close>: below position \<open>n\<close>, every child of a node from \<open>k\<close> on is not lt than it.\<close>

definition heaped :: "'a list \<Rightarrow> nat \<Rightarrow> nat \<Rightarrow> bool" where
  "heaped h n k \<longleftrightarrow> (\<forall>c. 0 < c \<and> c < n \<and> k \<le> (c - 1) div 2 \<longrightarrow> \<not> lt (h ! c) (h ! ((c - 1) div 2)))"

text \<open>The same with the node \<open>i\<close> out of place.\<close>

definition heaped_but :: "'a list \<Rightarrow> nat \<Rightarrow> nat \<Rightarrow> nat \<Rightarrow> bool" where
  "heaped_but h n k i \<longleftrightarrow>
     (\<forall>c. 0 < c \<and> c < n \<and> k \<le> (c - 1) div 2 \<and> (c - 1) div 2 \<noteq> i \<longrightarrow> \<not> lt (h ! c) (h ! ((c - 1) div 2)))
     \<and> (\<forall>c. 0 < c \<and> c < n \<and> (c - 1) div 2 = i \<and> 0 < i \<and> k \<le> (i - 1) div 2 \<longrightarrow> \<not> lt (h ! c) (h ! ((i - 1) div 2)))"

lemma not_trans: "\<not> lt b a \<Longrightarrow> \<not> lt c b \<Longrightarrow> \<not> lt c a"
  using weak by blast

lemma asym: "lt a b \<Longrightarrow> \<not> lt b a"
  using trans irrefl by blast

lemma parent: "0 < (c :: nat) \<Longrightarrow> (c - 1) div 2 = i \<longleftrightarrow> c = 2 * i + 1 \<or> c = 2 * i + 2" by presburger

lemma heaped_but_swap:
  assumes hb: "heaped_but h n k i" and n: "n \<le> length h" and k: "k \<le> i"
    and j: "j = 2 * i + 1 \<or> j = 2 * i + 2" "j < n" and lt: "lt (h ! j) (h ! i)"
    and least: "\<And>c. 0 < c \<Longrightarrow> c < n \<Longrightarrow> (c - 1) div 2 = i \<Longrightarrow> \<not> lt (h ! c) (h ! j)"
  shows "heaped_but (heap_swap h i j) n k j"
proof -
  let ?h = "heap_swap h i j"
  have pj: "(j - 1) div 2 = i" "i < j" "0 < j" using j(1) by auto
  have at: "?h ! i = h ! j" "?h ! j = h ! i" "\<And>m. m \<noteq> i \<Longrightarrow> m \<noteq> j \<Longrightarrow> ?h ! m = h ! m"
    using j(2) n pj(2) by (auto simp: heap_swap_def nth_list_update)
  have "\<not> lt (?h ! c) (?h ! ((c - 1) div 2))" if c: "0 < c" "c < n" "k \<le> (c - 1) div 2" "(c - 1) div 2 \<noteq> j" for c
  proof -
    consider "c = j" | "c \<noteq> j" "(c - 1) div 2 = i" | "c = i" | "c \<noteq> j" "c \<noteq> i" "(c - 1) div 2 \<noteq> i" by blast
    then show ?thesis
    proof cases
      case 1
      then show ?thesis using pj at asym [OF lt] by simp
    next
      case 2
      moreover have "c \<noteq> i" using 2(2) c(1) by presburger
      ultimately show ?thesis using at least c by simp
    next
      case 3
      have "(i - 1) div 2 \<noteq> i" "(i - 1) div 2 \<noteq> j" using 3 c(1) pj(2) by presburger+
      then show ?thesis using 3 at hb c pj j(2) by (auto simp: heaped_but_def)
    next
      case 4
      then show ?thesis using at hb c by (simp add: heaped_but_def)
    qed
  qed
  moreover have "\<not> lt (?h ! c) (?h ! ((j - 1) div 2))" if c: "0 < c" "c < n" "(c - 1) div 2 = j" for c
  proof -
    have "c \<noteq> i" "c \<noteq> j" using c(1,3) pj(2) by presburger+
    moreover have "\<not> lt (h ! c) (h ! j)"
      using hb [unfolded heaped_but_def, THEN conjunct1, rule_format, of c] c pj(2) k by simp
    ultimately show ?thesis using at(1) at(3) [of c] pj(1) by simp
  qed
  ultimately show ?thesis by (simp add: heaped_but_def)
qed

lemma length_heap_swap [simp]: "length (heap_swap h i j) = length h"
  by (simp add: heap_swap_def)

lemma mset_heap_swap: "i < length h \<Longrightarrow> j < length h \<Longrightarrow> mset (heap_swap h i j) = mset h"
  by (simp add: heap_swap_def mset_swap)

lemma heap_down_ok:
  assumes "heaped_but h n k i" "n \<le> length h" "k \<le> i" "heap_down lt h i n = (h', i')"
  shows "heaped h' n k \<and> mset h' = mset h \<and> length h' = length h \<and> (\<forall>m. n \<le> m \<longrightarrow> h' ! m = h ! m) \<and> (i' = i \<longrightarrow> h' = h)"
  using assms
proof (induction "n - i" arbitrary: h i rule: less_induct)
  case less
  define j where "j = heap_child lt h i n"
  note step = heap_down_step [of lt h i n, folded j_def]
  have least: "\<not> lt (h ! c) (h ! j)" if "0 < c" "c < n" "(c - 1) div 2 = i" for c
  proof -
    have "c = 2 * i + 1 \<or> c = 2 * i + 2" using parent [OF that(1), of i] that(3) by blast
    then show ?thesis
    proof
      assume "c = 2 * i + 1"
      then show ?thesis using irrefl asym by (simp add: j_def heap_child_def)
    next
      assume "c = 2 * i + 2"
      then show ?thesis using that(2) irrefl by (simp add: j_def heap_child_def)
    qed
  qed
  show ?case
  proof (cases "n \<le> 2 * i + 1 \<or> \<not> lt (h ! j) (h ! i)")
    case True
    have "heaped h n k"
      unfolding heaped_def
    proof (intro allI impI)
      fix c assume c: "0 < c \<and> c < n \<and> k \<le> (c - 1) div 2"
      show "\<not> lt (h ! c) (h ! ((c - 1) div 2))"
      proof (cases "(c - 1) div 2 = i")
        case pi: True
        then have "\<not> lt (h ! j) (h ! i)" using True c parent [of c i] by auto
        then show ?thesis using least [of c] pi c not_trans by blast
      next
        case False
        then show ?thesis using less.prems(1) c by (simp add: heaped_but_def)
      qed
    qed
    then show ?thesis using True less.prems(4) step by (auto split: if_splits)
  next
    case False
    have j: "j = 2 * i + 1 \<or> j = 2 * i + 2" "j < n" using False heap_child_bound [where lt = lt and h = h and i = i and n = n] by (auto simp: j_def)
    have hb: "heaped_but (heap_swap h i j) n k j"
      using heaped_but_swap [OF less.prems(1-3) j _ least] False by blast
    have d: "heap_down lt (heap_swap h i j) j n = (h', i')" using False less.prems(4) step by simp
    have "n - j < n - i" "k \<le> j" using j less.prems(3) by auto
    then have "heaped h' n k \<and> mset h' = mset (heap_swap h i j) \<and> length h' = length (heap_swap h i j)
        \<and> (\<forall>m. n \<le> m \<longrightarrow> h' ! m = heap_swap h i j ! m) \<and> (i' = j \<longrightarrow> h' = heap_swap h i j)"
      using less.hyps [OF _ hb _ _ d] less.prems(2) by simp
    moreover have "i < j" using j by auto
    moreover have "j \<le> i'" by (rule heap_down_pos [OF d])
    moreover have "mset (heap_swap h i j) = mset h" using j less.prems(2) by (intro mset_heap_swap) auto
    moreover have "\<forall>m. n \<le> m \<longrightarrow> heap_swap h i j ! m = h ! m" using j by (auto simp: heap_swap_def)
    ultimately show ?thesis by simp
  qed
qed

lemma heaped_head: "heaped h n 0 \<Longrightarrow> m < n \<Longrightarrow> \<not> lt (h ! m) (h ! 0)"
proof (induction m rule: less_induct)
  case (less m)
  show ?case
  proof (cases "m = 0")
    case False
    then have p: "(m - 1) div 2 < m" by auto
    have "\<not> lt (h ! m) (h ! ((m - 1) div 2))" using less.prems False by (simp add: heaped_def)
    moreover have "\<not> lt (h ! ((m - 1) div 2)) (h ! 0)" using less.IH [OF p] less.prems p by simp
    ultimately show ?thesis using not_trans by blast
  qed (simp add: irrefl)
qed

lemma heaped_head_set: "heaped h (length h) 0 \<Longrightarrow> x \<in> set h \<Longrightarrow> \<not> lt x (h ! 0)"
  using heaped_head by (metis in_set_conv_nth)

lemma heap_init_loop_ok:
  "heaped h (length h) i \<Longrightarrow> heaped (heap_init_loop lt h i) (length h) 0 \<and> mset (heap_init_loop lt h i) = mset h
     \<and> length (heap_init_loop lt h i) = length h"
proof (induction i arbitrary: h)
  case (Suc i)
  have "heaped_but h (length h) i i"
    unfolding heaped_but_def
  proof (intro conjI allI impI)
    fix c assume "0 < c \<and> c < length h \<and> i \<le> (c - 1) div 2 \<and> (c - 1) div 2 \<noteq> i"
    then show "\<not> lt (h ! c) (h ! ((c - 1) div 2))" using Suc.prems by (simp add: heaped_def)
  next
    fix c assume "0 < c \<and> c < length h \<and> (c - 1) div 2 = i \<and> 0 < i \<and> i \<le> (i - 1) div 2"
    then have False by linarith
    then show "\<not> lt (h ! c) (h ! ((i - 1) div 2))" ..
  qed
  then have "heaped (fst (heap_down lt h i (length h))) (length h) i \<and> mset (fst (heap_down lt h i (length h))) = mset h
      \<and> length (fst (heap_down lt h i (length h))) = length h"
    using heap_down_ok [of h "length h" i i] by (metis order_refl prod.collapse)
  with Suc.IH [of "fst (heap_down lt h i (length h))"] show ?case by simp
qed simp

lemma heap_Init_ok: "heaped (heap_Init lt h) (length (heap_Init lt h)) 0 \<and> mset (heap_Init lt h) = mset h"
proof -
  have "heaped h (length h) (length h div 2)"
    unfolding heaped_def
  proof (intro allI impI)
    fix c assume "0 < c \<and> c < length h \<and> length h div 2 \<le> (c - 1) div 2"
    then have False by linarith
    then show "\<not> lt (h ! c) (h ! ((c - 1) div 2))" ..
  qed
  from heap_init_loop_ok [OF this] show ?thesis by (simp add: heap_Init_def)
qed

lemma hole_at_root:
  assumes "heaped h (length h) 0" "n \<le> length h" "\<And>c. 0 < c \<Longrightarrow> c < n \<Longrightarrow> h' ! c = h ! c"
  shows "heaped_but h' n 0 0"
  unfolding heaped_but_def
proof (intro conjI allI impI)
  fix c assume c: "0 < c \<and> c < n \<and> 0 \<le> (c - 1) div 2 \<and> (c - 1) div 2 \<noteq> 0"
  then have "(c - 1) div 2 < c" by auto
  with c have "h' ! c = h ! c" "h' ! ((c - 1) div 2) = h ! ((c - 1) div 2)" using assms(3) by auto
  then show "\<not> lt (h' ! c) (h' ! ((c - 1) div 2))" using assms(1,2) c by (simp add: heaped_def)
qed simp

lemma heap_Fix_ok:
  assumes "heaped h (length h) 0" "h \<noteq> []"
  shows "heaped (heap_Fix lt (h[0 := x]) 0) (length (heap_Fix lt (h[0 := x]) 0)) 0
    \<and> mset (heap_Fix lt (h[0 := x]) 0) = mset (h[0 := x])"
proof -
  have hb: "heaped_but (h[0 := x]) (length (h[0 := x])) 0 0" using hole_at_root [OF assms(1), of "length h"] by simp
  obtain h' i' where d: "heap_down lt (h[0 := x]) 0 (length (h[0 := x])) = (h', i')" by fastforce
  have "heap_Fix lt (h[0 := x]) 0 = h'"
    using d by (simp add: heap_Fix_def heap_up.simps [of lt _ 0])
  with heap_down_ok [OF hb _ _ d] show ?thesis by simp
qed

lemma heap_Pop_ok:
  assumes "heaped h (length h) 0" "h \<noteq> []"
  shows "heaped (heap_Pop lt (h[0 := x])) (length (heap_Pop lt (h[0 := x]))) 0
    \<and> mset (h[0 := x]) = add_mset x (mset (heap_Pop lt (h[0 := x])))"
proof -
  let ?n = "length h - 1" and ?h = "h[0 := x]"
  let ?s = "heap_swap ?h 0 ?n"
  have n: "?n < length h" "0 < length h" using assms(2) by (cases h; simp)+
  have hb: "heaped_but ?s ?n 0 0"
    by (rule hole_at_root [OF assms(1)]) (auto simp: heap_swap_def nth_list_update)
  obtain h' i' where d: "heap_down lt ?s 0 ?n = (h', i')" by fastforce
  have ok: "heaped h' ?n 0" "mset h' = mset ?s" "length h' = length h" "h' ! ?n = ?s ! ?n"
    using heap_down_ok [OF hb _ _ d] n by auto
  have ms: "mset ?s = mset ?h" using n by (intro mset_heap_swap) simp_all
  have last: "?s ! ?n = x" using n by (auto simp: heap_swap_def nth_list_update)
  have pop: "heap_Pop lt ?h = take ?n h'" using d ok(3) by (simp add: heap_Pop_def)
  have "h' = take ?n h' @ [h' ! ?n]" using n ok(3) by (metis One_nat_def Suc_pred take_Suc_conv_app_nth take_all_iff order_refl)
  then have "mset h' = add_mset x (mset (take ?n h'))" using ok(4) last by (metis add_mset_add_single mset_append mset_single_iff_right mset.simps)
  then show ?thesis using ok ms pop n by (auto simp: heaped_def)
qed

end

interpretation mg: weak_order merge_less
  by unfold_locales (auto simp: merge_less_def order_simps)

section \<open>Steps of the merge\<close>

lemma es_runs_unique: "es_runs I s es e \<Longrightarrow> es_runs I s es' e' \<Longrightarrow> es' = es \<and> e' = e"
proof (induction es arbitrary: s es')
  case Nil
  then show ?case by (cases es') auto
next
  case (Cons x xs)
  then show ?case by (cases es') (auto simp: prod_eq_iff)
qed

text \<open>The entries a source still has, and the error it ends with.\<close>

definition src_todo :: "'s entrySource \<Rightarrow> 's \<Rightarrow> (bytes \<times> bytes) list \<times> error option" where
  "src_todo I s = (THE p. es_runs I s (fst p) (snd p))"

lemma src_todo_eq: "es_runs I s es e \<Longrightarrow> src_todo I s = (es, e)"
  unfolding src_todo_def by (rule the_equality) (auto simp: prod_eq_iff dest: es_runs_unique)

definition ms_todo :: "'s entrySource \<Rightarrow> 's mergeSource \<Rightarrow> (bytes \<times> bytes) multiset" where
  "ms_todo I ms = add_mset (ms_key ms, ms_val ms) (mset (fst (src_todo I (ms_src ms))))"

definition ms_ok :: "'s entrySource \<Rightarrow> 's mergeSource \<Rightarrow> bool" where
  "ms_ok I ms \<longleftrightarrow> (\<exists>es e. es_runs I (ms_src ms) es e \<and> sorted_versions ((ms_key ms, ms_val ms) # es))"

definition mg_inv :: "'s entrySource \<Rightarrow> 's mergeIter \<Rightarrow> bool" where
  "mg_inv I m \<longleftrightarrow> mg.heaped (mg_h m) (length (mg_h m)) 0 \<and> (\<forall>ms\<in>set (mg_h m). ms_ok I ms)"

definition mg_left :: "'s entrySource \<Rightarrow> 's mergeIter \<Rightarrow> (bytes \<times> bytes) multiset" where
  "mg_left I m = sum_mset (image_mset (ms_todo I) (mset (mg_h m)))"

text \<open>The error already recorded and those the remaining sources will end with.\<close>

definition mg_errs :: "'s entrySource \<Rightarrow> 's mergeIter \<Rightarrow> error set" where
  "mg_errs I m = {x. mg_err m = Some x} \<union> {x. \<exists>ms\<in>set (mg_h m). snd (src_todo I (ms_src ms)) = Some x}"

lemma mset_update_0: "h \<noteq> [] \<Longrightarrow> mset h = add_mset (h ! 0) (mset (tl h))" "h \<noteq> [] \<Longrightarrow> mset (h[0 := x]) = add_mset x (mset (tl h))"
  by (cases h; simp)+

lemma mg_smallest:
  assumes inv: "mg_inv I m" and ne: "mg_h m \<noteq> []" and e: "e \<in># mg_left I m"
  shows "ikeyCompare (ms_key (mg_h m ! 0)) (fst e) \<le> 0"
proof -
  obtain ms where ms: "ms \<in> set (mg_h m)" "e \<in># ms_todo I ms" using e by (auto simp: mg_left_def)
  obtain es err where r: "es_runs I (ms_src ms) es err" and srt: "sorted_versions ((ms_key ms, ms_val ms) # es)"
    using inv ms(1) by (auto simp: mg_inv_def ms_ok_def)
  have "e \<in> set ((ms_key ms, ms_val ms) # es)" using ms(2) src_todo_eq [OF r] by (simp add: ms_todo_def)
  then have "ikeyCompare (ms_key ms) (fst e) \<le> 0" using srt by (auto simp: sorted_versions_def order_simps)
  moreover have "\<not> merge_less ms (mg_h m ! 0)"
    using inv ms(1) mg.heaped_head_set by (auto simp: mg_inv_def)
  ultimately show ?thesis by (auto simp: merge_less_def order_simps)
qed

lemma mg_Next_ok:
  assumes inv: "mg_inv I m" and ne: "mg_h m \<noteq> []" and er: "mg_err m = None"
  shows "\<exists>m'. mg_Next I m = (True, m') \<and> mg_inv I m' \<and> mg_left I m = add_mset (mg_curKey m', mg_curVal m') (mg_left I m')
    \<and> mg_curKey m' = ms_key (mg_h m ! 0) \<and> mg_errs I m' = mg_errs I m"
proof -
  define top where "top = mg_h m ! 0"
  have "top \<in> set (mg_h m)" using ne by (simp add: top_def)
  then obtain es err where r: "es_runs I (ms_src top) es err" and srt: "sorted_versions ((ms_key top, ms_val top) # es)"
    using inv by (auto simp: mg_inv_def ms_ok_def)
  have h: "mg.heaped (mg_h m) (length (mg_h m)) 0" using inv by (simp add: mg_inv_def)
  have oks: "\<forall>ms\<in>set (tl (mg_h m)). ms_ok I ms" using inv by (auto simp: mg_inv_def dest: list.set_sel(2) [OF ne])
  note ms0 = mset_update_0 [OF ne]
  have left: "mg_left I m = add_mset (ms_key top, ms_val top) (mset es + sum_mset (image_mset (ms_todo I) (mset (tl (mg_h m)))))"
    unfolding mg_left_def ms0(1) using src_todo_eq [OF r] by (simp add: ms_todo_def top_def)
  have errs: "mg_errs I m = {x. err = Some x} \<union> {x. \<exists>ms\<in>set (tl (mg_h m)). snd (src_todo I (ms_src ms)) = Some x}"
    using er src_todo_eq [OF r] ne by (cases "mg_h m") (auto simp: mg_errs_def top_def)
  show ?thesis
  proof (cases es)
    case Nil
    obtain s where s: "es_Next I (ms_src top) = (False, s)" "es_Error I s = err" using r Nil by auto
    let ?h = "(mg_h m)[0 := top\<lparr>ms_src := s\<rparr>]"
    let ?m = "m\<lparr>mg_curKey := ms_key top, mg_curVal := ms_val top, mg_h := heap_Pop merge_less ?h, mg_err := err\<rparr>"
    have nx: "mg_Next I m = (True, ?m)"
      using ne er s by (cases err) (simp_all add: mg_Next_def Let_def top_def)
    note pop = mg.heap_Pop_ok [OF h ne, of "top\<lparr>ms_src := s\<rparr>"]
    have ms: "mset (heap_Pop merge_less ?h) = mset (tl (mg_h m))" using pop ms0(2) by simp
    then have set: "set (heap_Pop merge_less ?h) = set (tl (mg_h m))" by (metis set_mset_mset)
    have "mg_inv I ?m" using pop set oks by (simp add: mg_inv_def)
    moreover have "mg_left I m = add_mset (ms_key top, ms_val top) (mg_left I ?m)"
      unfolding left Nil by (simp add: mg_left_def ms)
    moreover have "mg_errs I ?m = mg_errs I m" unfolding errs by (simp add: mg_errs_def set)
    ultimately show ?thesis using nx by (simp add: top_def)
  next
    case (Cons x xs)
    obtain s where s: "es_Next I (ms_src top) = (True, s)" "es_internalKey I s = fst x" "es_Value I s = snd x" "es_runs I s xs err"
      using r Cons by auto
    define t where "t = \<lparr>ms_src = s, ms_key = fst x, ms_val = snd x\<rparr>"
    let ?h = "(mg_h m)[0 := t]"
    let ?m = "m\<lparr>mg_curKey := ms_key top, mg_curVal := ms_val top, mg_h := heap_Fix merge_less ?h 0\<rparr>"
    have nx: "mg_Next I m = (True, ?m)" using ne er s by (simp add: mg_Next_def Let_def top_def t_def)
    note fix0 = mg.heap_Fix_ok [OF h ne, of t]
    have ms: "mset (heap_Fix merge_less ?h 0) = add_mset t (mset (tl (mg_h m)))" using fix0 ms0(2) by simp
    then have set: "set (heap_Fix merge_less ?h 0) = insert t (set (tl (mg_h m)))"
      by (metis set_mset_add_mset_insert set_mset_mset)
    have "ms_ok I t" unfolding ms_ok_def t_def using s(4) srt Cons
      by (auto simp: sorted_versions_def intro!: exI [of _ xs] exI [of _ err])
    then have "mg_inv I ?m" using fix0 set oks by (simp add: mg_inv_def)
    moreover have "mg_left I m = add_mset (ms_key top, ms_val top) (mg_left I ?m)"
    proof -
      have "mg_left I ?m = ms_todo I t + sum_mset (image_mset (ms_todo I) (mset (tl (mg_h m))))" by (simp add: mg_left_def ms)
      moreover have "ms_todo I t = mset es" using src_todo_eq [OF s(4)] Cons by (simp add: ms_todo_def t_def)
      ultimately show ?thesis using left by simp
    qed
    moreover have "mg_errs I ?m = mg_errs I m"
    proof -
      have "snd (src_todo I (ms_src t)) = err" using src_todo_eq [OF s(4)] by (simp add: t_def)
      then show ?thesis unfolding errs using er by (auto simp: mg_errs_def set)
    qed
    ultimately show ?thesis using nx by (simp add: top_def)
  qed
qed

lemma mg_scan_ok:
  assumes "mg_inv I m" "size (mg_left I m) < n" "mg_scan I n m = (es, m')"
  shows "sorted_versions es \<and> mset es \<subseteq># mg_left I m \<and> (\<forall>x. mg_err m' = Some x \<longrightarrow> x \<in> mg_errs I m)
    \<and> (mg_err m' = None \<longrightarrow> mg_errs I m = {} \<and> mset es = mg_left I m) \<and> mg_Next I m' = (False, m')"
  using assms
proof (induction n arbitrary: m es)
  case (Suc n)
  show ?case
  proof (cases "mg_err m \<noteq> None \<or> mg_h m = []")
    case True
    then have nx: "mg_Next I m = (False, m)" by (auto simp: mg_Next_def)
    then have "es = [] \<and> m' = m" using Suc.prems(3) by simp
    then show ?thesis using True nx by (auto simp: sorted_versions_def mg_errs_def mg_left_def)
  next
    case False
    obtain m1 where nx: "mg_Next I m = (True, m1)" "mg_inv I m1" "mg_left I m = add_mset (mg_curKey m1, mg_curVal m1) (mg_left I m1)"
      "mg_curKey m1 = ms_key (mg_h m ! 0)" "mg_errs I m1 = mg_errs I m"
      using mg_Next_ok [OF Suc.prems(1)] False by blast
    obtain es1 m2 where sc: "mg_scan I n m1 = (es1, m2)" by fastforce
    have es: "es = (mg_curKey m1, mg_curVal m1) # es1" and "m2 = m'" using Suc.prems(3) nx(1) sc by simp_all
    then have sc: "mg_scan I n m1 = (es1, m')" using sc by simp
    have "size (mg_left I m1) < n" using Suc.prems(2) nx(3) by simp
    note IH = Suc.IH [OF nx(2) this sc]
    have "ikeyCompare (mg_curKey m1) (fst e) \<le> 0" if "e \<in> set es1" for e
    proof -
      have "e \<in># mg_left I m" using IH that nx(3) mset_subset_eqD [of "mset es1" "mg_left I m1" e] by simp
      then show ?thesis using mg_smallest [OF Suc.prems(1)] False nx(4) by simp
    qed
    then have "sorted_versions es" using IH es by (auto simp: sorted_versions_def)
    then show ?thesis using IH es nx(3,5) by auto
  qed
qed simp

definition runs_total :: "((bytes \<times> bytes) list \<times> error option) list \<Rightarrow> (bytes \<times> bytes) multiset" where
  "runs_total rs = sum_list (map (\<lambda>r. mset (fst r)) rs)"

definition runs_errs :: "((bytes \<times> bytes) list \<times> error option) list \<Rightarrow> error set" where
  "runs_errs rs = {x. \<exists>r\<in>set rs. snd r = Some x}"

definition source_ok :: "'s entrySource \<Rightarrow> 's \<Rightarrow> (bytes \<times> bytes) list \<times> error option \<Rightarrow> bool" where
  "source_ok I s r \<longleftrightarrow> es_runs I s (fst r) (snd r) \<and> sorted_versions (fst r)"

lemma merge_prime_ok:
  assumes "list_all2 (source_ok I) srcs rs" "\<forall>ms\<in>set (mg_h m). ms_ok I ms"
  shows "(\<forall>ms\<in>set (mg_h (merge_prime I srcs m)). ms_ok I ms)
    \<and> mg_left I (merge_prime I srcs m) = mg_left I m + runs_total rs
    \<and> mg_errs I (merge_prime I srcs m) \<subseteq> mg_errs I m \<union> runs_errs rs
    \<and> (mg_errs I (merge_prime I srcs m) = {} \<longrightarrow> mg_errs I m \<union> runs_errs rs = {})"
  using assms
proof (induction srcs rs arbitrary: m rule: list_all2_induct)
  case Nil
  then show ?case by (simp add: runs_total_def runs_errs_def)
next
  case (Cons s ss r rs)
  have r: "es_runs I s (fst r) (snd r)" "sorted_versions (fst r)" using Cons.hyps(1) by (simp_all add: source_ok_def)
  have tot: "runs_total (r # rs) = mset (fst r) + runs_total rs" "runs_errs (r # rs) = {x. snd r = Some x} \<union> runs_errs rs"
    by (auto simp: runs_total_def runs_errs_def)
  show ?case
  proof (cases "fst r")
    case Nil
    obtain s1 where s1: "es_Next I s = (False, s1)" "es_Error I s1 = snd r" using r(1) Nil by auto
    define m1 where "m1 = (if snd r \<noteq> None \<and> mg_err m = None then m\<lparr>mg_err := snd r\<rparr> else m)"
    have p: "merge_prime I (s # ss) m = merge_prime I ss m1" using s1 by (simp add: m1_def)
    have "mg_left I m1 = mg_left I m" "\<forall>ms\<in>set (mg_h m1). ms_ok I ms"
      using Cons.prems by (simp_all add: m1_def mg_left_def)
    moreover have "mg_errs I m1 \<subseteq> mg_errs I m \<union> {x. snd r = Some x}" "mg_errs I m1 = {} \<Longrightarrow> mg_errs I m = {} \<and> snd r = None"
      by (auto simp: m1_def mg_errs_def split: if_splits)
    ultimately show ?thesis unfolding p tot Nil using Cons.IH [of m1] by auto
  next
    case (Cons x xs)
    obtain s1 where s1: "es_Next I s = (True, s1)" "es_internalKey I s1 = fst x" "es_Value I s1 = snd x" "es_runs I s1 xs (snd r)"
      using r(1) Cons by auto
    define t where "t = \<lparr>ms_src = s1, ms_key = fst x, ms_val = snd x\<rparr>"
    define m1 where "m1 = m\<lparr>mg_h := mg_h m @ [t]\<rparr>"
    have p: "merge_prime I (s # ss) m = merge_prime I ss m1" using s1 by (simp add: m1_def t_def)
    have td: "src_todo I (ms_src t) = (xs, snd r)" using src_todo_eq [OF s1(4)] by (simp add: t_def)
    have "ms_ok I t" unfolding ms_ok_def t_def using s1(4) r(2) Cons by (intro exI [of _ xs] exI [of _ "snd r"]) simp
    then have "\<forall>ms\<in>set (mg_h m1). ms_ok I ms" using Cons.prems by (simp add: m1_def)
    moreover have "mg_left I m1 = mg_left I m + mset (fst r)"
      using td Cons by (simp add: m1_def mg_left_def ms_todo_def) (simp add: t_def)
    moreover have "mg_errs I m1 = mg_errs I m \<union> {x. snd r = Some x}" using td by (auto simp: m1_def mg_errs_def)
    ultimately show ?thesis unfolding p tot using Cons.IH [of m1] by auto
  qed
qed

lemma newMergeIter_ok:
  assumes "list_all2 (source_ok I) srcs rs"
  shows "mg_inv I (newMergeIter I srcs) \<and> mg_left I (newMergeIter I srcs) = runs_total rs
    \<and> mg_errs I (newMergeIter I srcs) \<subseteq> runs_errs rs \<and> (mg_errs I (newMergeIter I srcs) = {} \<longrightarrow> runs_errs rs = {})"
proof -
  define m where "m = merge_prime I srcs \<lparr>mg_h = [], mg_curKey = [], mg_curVal = [], mg_err = None\<rparr>"
  have new: "newMergeIter I srcs = m\<lparr>mg_h := heap_Init merge_less (mg_h m)\<rparr>" by (simp add: newMergeIter_def m_def Let_def)
  have set: "set (heap_Init merge_less (mg_h m)) = set (mg_h m)" using mg.heap_Init_ok [of "mg_h m"] by (metis set_mset_mset)
  have "mg_left I (newMergeIter I srcs) = mg_left I m" "mg_errs I (newMergeIter I srcs) = mg_errs I m"
    using mg.heap_Init_ok [of "mg_h m"] set by (simp_all add: new mg_left_def mg_errs_def)
  moreover have "(\<forall>ms\<in>set (mg_h m). ms_ok I ms) \<Longrightarrow> mg_inv I (newMergeIter I srcs)"
    using mg.heap_Init_ok [of "mg_h m"] set by (simp add: new mg_inv_def)
  ultimately show ?thesis
    using merge_prime_ok [OF assms, of "\<lparr>mg_h = [], mg_curKey = [], mg_curVal = [], mg_err = None\<rparr>"]
    unfolding m_def by (simp add: mg_left_def mg_errs_def)
qed

lemma merge_scan_ok:
  assumes "list_all2 (source_ok I) srcs rs" "size (runs_total rs) < n" "mg_scan I n (newMergeIter I srcs) = (es, m)"
  shows "sorted_versions es \<and> mset es \<subseteq># runs_total rs \<and> (\<forall>x. mg_err m = Some x \<longrightarrow> x \<in> runs_errs rs)
    \<and> (mg_err m = None \<longrightarrow> runs_errs rs = {} \<and> mset es = runs_total rs) \<and> mg_Next I m = (False, m)"
  using newMergeIter_ok [OF assms(1)] mg_scan_ok [of I "newMergeIter I srcs" n es m] assms(2,3) by auto

text \<open>C6. The merge iterator over sources that each yield entries in key order, read to its
  end, yields entries in key order, never one that no source has, and never one more often than the
  sources have it. When no source failed it yields all entries of all sources and reports no error.
  When some source failed the iterator reports one of the sources' errors, so a truncated scan is
  never taken for a complete one.\<close>

theorem merge_correct:
  assumes "list_all2 (source_ok I) srcs rs" "size (runs_total rs) < n" "mg_scan I n (newMergeIter I srcs) = (es, m)"
  shows "sorted_versions es \<and> mset es \<subseteq># runs_total rs \<and> mg_Next I m = (False, m)
    \<and> (case mg_err m of None \<Rightarrow> runs_errs rs = {} \<and> mset es = runs_total rs | Some x \<Rightarrow> x \<in> runs_errs rs)"
  using merge_scan_ok [OF assms] by (simp split: option.split)

text \<open>A source over a list, as a concrete instance.\<close>

definition listSource :: "((bytes \<times> bytes) \<times> (bytes \<times> bytes) list) entrySource" where
  "listSource = \<lparr>es_Next = (\<lambda>(c, es). case es of [] \<Rightarrow> (False, (c, [])) | x # xs \<Rightarrow> (True, (x, xs))),
     es_internalKey = (\<lambda>(c, es). fst c), es_Value = (\<lambda>(c, es). snd c), es_Error = (\<lambda>s. None)\<rparr>"

theorem merge_correct_witness:
  "\<exists>es m. mg_scan listSource 4 (newMergeIter listSource
        [(([], []), [(ikeyEncode [] [1] 9 1, [7]), (ikeyEncode [] [2] 3 1, [8])]), (([], []), [(ikeyEncode [] [1] 5 1, [6])])]) = (es, m)
     \<and> map snd es = [[7], [6], [8]] \<and> sorted_versions es \<and> mg_err m = None"
proof -
  let ?a = "(ikeyEncode [] [1] 9 1, [7]) :: bytes \<times> bytes" and ?b = "(ikeyEncode [] [2] 3 1, [8]) :: bytes \<times> bytes"
    and ?c = "(ikeyEncode [] [1] 5 1, [6]) :: bytes \<times> bytes"
  let ?srcs = "[(([], []), [?a, ?b]), (([], []), [?c])] :: ((bytes \<times> bytes) \<times> (bytes \<times> bytes) list) list"
  let ?r = "mg_scan listSource 4 (newMergeIter listSource ?srcs)"
  have ok: "list_all2 (source_ok listSource) ?srcs [([?a, ?b], None), ([?c], None)]"
    by (simp add: source_ok_def listSource_def sorted_versions_def) code_simp
  have "sorted_versions (fst ?r)"
    using merge_correct [OF ok, of 4 "fst ?r" "snd ?r"] by (simp add: runs_total_def)
  moreover have "map snd (fst ?r) = [[7], [6], [8]] \<and> mg_err (snd ?r) = None" by code_simp
  ultimately show ?thesis by (metis prod.collapse)
qed

end
