(* ===== verification/Table_Meta.thy ===== *)
theory Table_Meta
  imports Table_Reader
begin

text \<open>
  A live table of the engine (\<^verbatim>\<open>tableMeta\<close> of \<^verbatim>\<open>engine.go\<close>): its recorded key bounds and
  the reference count that keeps its file while a reader holds it.  The life-cycle mutex
  makes \<open>acquire\<close> and \<open>release\<close> single steps; the pooled descriptor is represented by the
  flag that its permanent close sets, the directory by the set of names in it, and the
  outcomes of closing and removing the file by arguments.  The last section interleaves
  the steps of any number of readers with those of the owner.
\<close>

record tableMeta =
  tb_num :: u32
  tb_depth :: nat
  tb_path :: string
  tb_closed :: bool
  tb_reader :: tableReader
  tb_size :: int
  tb_minKey :: "bytes option"
  tb_maxKey :: "bytes option"
  tb_entries :: nat
  tb_tombstones :: nat
  tb_refs :: nat
  tb_deleteOnZero :: bool

definition mayContain :: "tableMeta \<Rightarrow> bytes \<Rightarrow> bool" where
  "mayContain t key =
     (if (case tb_minKey t of None \<Rightarrow> False | Some k \<Rightarrow> bytes_compare key k < 0) then False
      else if (case tb_maxKey t of None \<Rightarrow> False | Some k \<Rightarrow> 0 < bytes_compare key k) then False
      else True)"

definition overlapsRange :: "tableMeta \<Rightarrow> bytes option \<Rightarrow> bytes option \<Rightarrow> bool" where
  "overlapsRange t start end' =
     (if (case (end', tb_minKey t) of (Some e, Some k) \<Rightarrow> 0 < bytes_compare k e | _ \<Rightarrow> False) then False
      else if (case (start, tb_maxKey t) of (Some s, Some k) \<Rightarrow> bytes_compare k s < 0 | _ \<Rightarrow> False) then False
      else True)"

definition tb_acquire :: "tableMeta \<Rightarrow> bool \<times> tableMeta" where
  "tb_acquire t = (if tb_refs t = 0 then (False, t) else (True, t\<lparr>tb_refs := tb_refs t + 1\<rparr>))"

text \<open>Removing a file: a name already absent is no error; the directory is synced in any case.\<close>

definition removeFileDurable :: "error option \<Rightarrow> error option \<Rightarrow> string \<Rightarrow> string set \<Rightarrow> error option \<times> string set" where
  "removeFileDurable rmErr syncErr path files =
     (case (if path \<in> files then rmErr else None) of
        Some err \<Rightarrow> (Some err, files)
      | None \<Rightarrow> (syncErr, files - {path}))"

record releaseIO =
  io_close :: "error option"
  io_remove :: "error option"
  io_sync :: "error option"

definition tb_release :: "releaseIO \<Rightarrow> bool \<Rightarrow> tableMeta \<Rightarrow> string set \<Rightarrow> error option \<times> tableMeta \<times> string set" where
  "tb_release io remove t files =
     (let t = (if remove then t\<lparr>tb_deleteOnZero := True\<rparr> else t);
          t = (if 0 < tb_refs t then t\<lparr>tb_refs := tb_refs t - 1\<rparr> else t);
          final = (tb_refs t = 0); deleteFile = tb_deleteOnZero t
      in if \<not> final then (None, t, files)
      else let err = io_close io; t = t\<lparr>tb_closed := True\<rparr>
      in if deleteFile then
           let (rerr, files) = removeFileDurable (io_remove io) (io_sync io) (tb_path t) files
           in (if err = None then rerr else err, t, files)
         else (err, t, files))"

definition releaseRef :: "releaseIO \<Rightarrow> tableMeta \<Rightarrow> string set \<Rightarrow> error option \<times> tableMeta \<times> string set" where
  "releaseRef io t files = tb_release io False t files"

definition releaseOwner :: "releaseIO \<Rightarrow> bool \<Rightarrow> tableMeta \<Rightarrow> string set \<Rightarrow> error option \<times> tableMeta \<times> string set" where
  "releaseOwner io remove t files = tb_release io remove t files"

lemma mayContain_iff:
  "mayContain t key \<longleftrightarrow> (\<forall>k. tb_minKey t = Some k \<longrightarrow> k \<le> key) \<and> (\<forall>k. tb_maxKey t = Some k \<longrightarrow> key \<le> k)"
  by (auto simp: mayContain_def order_simps split: option.splits)

lemma overlapsRange_mayContain:
  assumes "mayContain t key" "\<forall>s. start = Some s \<longrightarrow> s \<le> key" "\<forall>e. end' = Some e \<longrightarrow> key < e"
  shows "overlapsRange t start end'"
  using assms unfolding mayContain_iff
  by (auto simp: overlapsRange_def order_simps split: option.splits)

section \<open>Readers and owner interleaved\<close>

text \<open>The table, the directory, the number of readers that hold a reference, and whether the
  engine still owns it.\<close>

record lifeState =
  lf_table :: tableMeta
  lf_files :: "string set"
  lf_readers :: nat
  lf_owned :: bool

inductive life_step :: "lifeState \<Rightarrow> lifeState \<Rightarrow> bool" where
  acquired: "tb_acquire (lf_table s) = (True, t) \<Longrightarrow> life_step s (s\<lparr>lf_table := t, lf_readers := lf_readers s + 1\<rparr>)"
| refused: "tb_acquire (lf_table s) = (False, t) \<Longrightarrow> life_step s (s\<lparr>lf_table := t\<rparr>)"
| reader_done: "0 < lf_readers s \<Longrightarrow> releaseRef io (lf_table s) (lf_files s) = (err, t, files) \<Longrightarrow>
    life_step s (s\<lparr>lf_table := t, lf_files := files, lf_readers := lf_readers s - 1\<rparr>)"
| owner_done: "lf_owned s \<Longrightarrow> releaseOwner io remove (lf_table s) (lf_files s) = (err, t, files) \<Longrightarrow>
    life_step s (s\<lparr>lf_table := t, lf_files := files, lf_owned := False\<rparr>)"

inductive_cases life_stepE: "life_step s s'"

definition life_inv :: "lifeState \<Rightarrow> bool" where
  "life_inv s \<longleftrightarrow> tb_refs (lf_table s) = lf_readers s + (if lf_owned s then 1 else 0)
     \<and> (tb_closed (lf_table s) \<longleftrightarrow> tb_refs (lf_table s) = 0)
     \<and> (tb_refs (lf_table s) \<noteq> 0 \<longrightarrow> tb_path (lf_table s) \<in> lf_files s)
     \<and> (lf_owned s \<longrightarrow> \<not> tb_deleteOnZero (lf_table s))"

lemma life_step_inv: "life_step s s' \<Longrightarrow> life_inv s \<Longrightarrow> life_inv s'"
  by (erule life_step.cases)
    (auto simp: life_inv_def tb_acquire_def releaseRef_def releaseOwner_def tb_release_def removeFileDurable_def Let_def
      split: if_splits prod.splits option.splits)

lemma life_reach_inv: "life_step\<^sup>*\<^sup>* s s' \<Longrightarrow> life_inv s \<Longrightarrow> life_inv s'"
  by (induction rule: rtranclp_induct) (auto intro: life_step_inv)

lemma life_step_path: "life_step s s' \<Longrightarrow> tb_path (lf_table s') = tb_path (lf_table s)"
  by (erule life_step.cases)
    (auto simp: tb_acquire_def releaseRef_def releaseOwner_def tb_release_def Let_def split: if_splits prod.splits)

definition life_start :: "tableMeta \<Rightarrow> string set \<Rightarrow> lifeState" where
  "life_start t files = \<lparr>lf_table = t\<lparr>tb_refs := 1, tb_closed := False, tb_deleteOnZero := False\<rparr>,
     lf_files = insert (tb_path t) files, lf_readers = 0, lf_owned = True\<rparr>"

text \<open>C8. However readers acquire and release a table while the engine drops it, its
  descriptor stays open and its file stays on disk as long as the engine or one reader holds it,
  and once nobody does the descriptor is closed for good and no reader can acquire it again.\<close>

theorem table_lifecycle_safe:
  assumes "life_step\<^sup>*\<^sup>* (life_start t files) s"
  shows "if lf_owned s \<or> 0 < lf_readers s
    then \<not> tb_closed (lf_table s) \<and> tb_path (lf_table s) \<in> lf_files s \<and> fst (tb_acquire (lf_table s))
    else tb_closed (lf_table s) \<and> \<not> fst (tb_acquire (lf_table s))"
proof -
  have "life_inv (life_start t files)" by (simp add: life_inv_def life_start_def)
  with life_reach_inv [OF assms] have "life_inv s" by blast
  then show ?thesis by (auto simp: life_inv_def tb_acquire_def)
qed

theorem table_lifecycle_safe_witness:
  "\<exists>t s. life_step\<^sup>*\<^sup>* (life_start t {}) s \<and> lf_files s = {} \<and> tb_closed (lf_table s) \<and> \<not> fst (tb_acquire (lf_table s))"
proof -
  let ?r = "\<lparr>tr_r = ReadAt [], tr_size = 0, tr_indexBH = \<lparr>bh_offset = 0, bh_length = 0\<rparr>, tr_filterBH = \<lparr>bh_offset = 0, bh_length = 0\<rparr>,
    tr_rangeDelBH = \<lparr>bh_offset = 0, bh_length = 0\<rparr>, tr_meta = None, tr_tableNum = 1\<rparr>"
  let ?t = "\<lparr>tb_num = 1, tb_depth = 0, tb_path = ''a'', tb_closed = False, tb_reader = ?r, tb_size = 0, tb_minKey = None,
    tb_maxKey = None, tb_entries = 0, tb_tombstones = 0, tb_refs = 1, tb_deleteOnZero = False\<rparr>"
  let ?io = "\<lparr>io_close = None, io_remove = None, io_sync = None\<rparr>"
  let ?s = "life_start ?t {}"
  let ?s1 = "?s\<lparr>lf_table := ?t\<lparr>tb_refs := 2\<rparr>, lf_readers := 1\<rparr>"
  let ?s2 = "?s1\<lparr>lf_table := ?t\<lparr>tb_refs := 1, tb_deleteOnZero := True\<rparr>, lf_owned := False\<rparr>"
  let ?s3 = "?s2\<lparr>lf_table := ?t\<lparr>tb_refs := 0, tb_deleteOnZero := True, tb_closed := True\<rparr>, lf_files := {}, lf_readers := 0\<rparr>"
  have 1: "life_step ?s ?s1"
    using life_step.acquired [of ?s "?t\<lparr>tb_refs := 2\<rparr>"] by (simp add: life_start_def tb_acquire_def)
  have 2: "life_step ?s1 ?s2"
    using life_step.owner_done [of ?s1 ?io True None "?t\<lparr>tb_refs := 1, tb_deleteOnZero := True\<rparr>" "{''a''}"]
    by (simp add: life_start_def releaseOwner_def tb_release_def)
  have 3: "life_step ?s2 ?s3"
    using life_step.reader_done [of ?s2 ?io None "?t\<lparr>tb_refs := 0, tb_deleteOnZero := True, tb_closed := True\<rparr>" "{}"]
    by (simp add: life_start_def releaseRef_def tb_release_def removeFileDurable_def)
  have r: "life_step\<^sup>*\<^sup>* ?s ?s3" using 1 2 3 by (meson r_into_rtranclp rtranclp_trans)
  have "tb_closed (lf_table ?s3) \<and> \<not> fst (tb_acquire (lf_table ?s3))"
    using table_lifecycle_safe [OF r] by (simp add: life_start_def)
  with r show ?thesis by (intro exI [of _ ?t] exI [of _ ?s3]) simp
qed

end
