(* ===== verification/Level_Index.thy ===== *)
theory Level_Index
  imports Table_Meta "HOL-Library.Multiset"
begin

text \<open>
  The per-level index over the live tables (\<^verbatim>\<open>engine_levelindex.go\<close>).  \<open>sort.Slice\<close> is a sort
  by the comparison it is given (the order it leaves equal elements in is not used by the code);
  \<open>sort.Search\<close> is the library's binary search.  The callback \<open>visit\<close> updates a state of the
  caller and may fail; as it may read through the block cache it returns an option.  The main
  lemma is that \<open>candidates\<close> visits exactly the tables whose recorded range may contain the key,
  however the levels overlap.
\<close>

section \<open>Sorting and searching\<close>

fun insert_by :: "('a \<Rightarrow> 'a \<Rightarrow> bool) \<Rightarrow> 'a \<Rightarrow> 'a list \<Rightarrow> 'a list" where
  "insert_by lt x [] = [x]"
| "insert_by lt x (y # ys) = (if lt y x then y # insert_by lt x ys else x # y # ys)"

definition sort_Slice :: "('a \<Rightarrow> 'a \<Rightarrow> bool) \<Rightarrow> 'a list \<Rightarrow> 'a list" where
  "sort_Slice lt xs = foldr (insert_by lt) xs []"

function sort_Search_loop :: "(nat \<Rightarrow> bool) \<Rightarrow> nat \<Rightarrow> nat \<Rightarrow> nat" where
  "sort_Search_loop f i j =
     (if i < j then let h = (i + j) div 2 in if \<not> f h then sort_Search_loop f (h + 1) j else sort_Search_loop f i h
      else i)"
  by pat_completeness auto
termination by (relation "measure (\<lambda>(f, i, j). j - i)") auto

declare sort_Search_loop.simps [simp del]

definition sort_Search :: "nat \<Rightarrow> (nat \<Rightarrow> bool) \<Rightarrow> nat" where
  "sort_Search n f = sort_Search_loop f 0 n"

lemma mset_insert_by: "mset (insert_by lt x xs) = add_mset x (mset xs)"
  by (induction xs) auto

lemma mset_sort_Slice [simp]: "mset (sort_Slice lt xs) = mset xs"
  unfolding sort_Slice_def by (induction xs) (simp_all add: mset_insert_by)

lemma set_sort_Slice [simp]: "set (sort_Slice lt xs) = set xs"
  using mset_sort_Slice [of lt xs] by (metis set_mset_mset)

lemma set_insert_by: "set (insert_by lt x xs) = insert x (set xs)"
  using mset_insert_by [of lt x xs] by (metis set_mset_add_mset_insert set_mset_mset)

lemma sorted_insert_by:
  assumes tr: "\<And>a b c. \<not> lt b a \<Longrightarrow> \<not> lt c b \<Longrightarrow> \<not> lt c a" and as: "\<And>a b. lt a b \<Longrightarrow> \<not> lt b a"
    and "sorted_wrt (\<lambda>a b. \<not> lt b a) xs"
  shows "sorted_wrt (\<lambda>a b. \<not> lt b a) (insert_by lt x xs)"
  using assms(3)
proof (induction xs)
  case (Cons y ys)
  show ?case
  proof (cases "lt y x")
    case True
    then show ?thesis using Cons as by (auto simp: set_insert_by)
  next
    case False
    then have "\<forall>z\<in>set ys. \<not> lt z x" using Cons.prems tr [of y x] by auto
    then show ?thesis using False Cons.prems by simp
  qed
qed simp

lemma sorted_sort_Slice:
  assumes "\<And>a b c. \<not> lt b a \<Longrightarrow> \<not> lt c b \<Longrightarrow> \<not> lt c a" "\<And>a b. lt a b \<Longrightarrow> \<not> lt b a"
  shows "sorted_wrt (\<lambda>a b. \<not> lt b a) (sort_Slice lt xs)"
  unfolding sort_Slice_def
proof (induction xs)
  case (Cons x xs)
  have "sorted_wrt (\<lambda>a b. \<not> lt b a) (insert_by lt x (foldr (insert_by lt) xs []))"
    using Cons assms by (intro sorted_insert_by) blast+
  then show ?case by simp
qed simp

lemma sort_Search_loop_ok:
  assumes mono: "\<And>a b. a \<le> b \<Longrightarrow> f a \<Longrightarrow> b < n \<Longrightarrow> f b"
  shows "i \<le> j \<Longrightarrow> j \<le> n \<Longrightarrow> \<forall>k<i. \<not> f k \<Longrightarrow> j < n \<longrightarrow> f j \<Longrightarrow>
    sort_Search_loop f i j \<le> n \<and> (\<forall>k < sort_Search_loop f i j. \<not> f k) \<and> (sort_Search_loop f i j < n \<longrightarrow> f (sort_Search_loop f i j))"
proof (induction "j - i" arbitrary: i j rule: less_induct)
  case less
  define h where "h = (i + j) div 2"
  show ?case
  proof (cases "i < j")
    case False
    then have "sort_Search_loop f i j = i" by (subst sort_Search_loop.simps) simp
    then show ?thesis using False less.prems by auto
  next
    case True
    then have h: "i \<le> h" "h < j" by (simp_all add: h_def)
    show ?thesis
    proof (cases "f h")
      case False
      have e: "sort_Search_loop f i j = sort_Search_loop f (h + 1) j"
        using True False by (subst sort_Search_loop.simps) (simp add: h_def Let_def)
      have "\<not> f k" if "k < h + 1" for k
        using mono [of k h] False that h less.prems(2) by fastforce
      then show ?thesis unfolding e using less.prems h by (intro less.hyps) auto
    next
      case f: True
      have e: "sort_Search_loop f i j = sort_Search_loop f i h"
        using True f by (subst sort_Search_loop.simps) (simp add: h_def Let_def)
      show ?thesis unfolding e using less.prems h f by (intro less.hyps) auto
    qed
  qed
qed

lemma sort_Search_ok:
  assumes "\<forall>a b. a \<le> b \<longrightarrow> f a \<longrightarrow> b < n \<longrightarrow> f b"
  shows "sort_Search n f \<le> n" "\<And>k. k < sort_Search n f \<Longrightarrow> \<not> f k" "sort_Search n f < n \<Longrightarrow> f (sort_Search n f)"
  using sort_Search_loop_ok [where f = f and n = n and i = 0 and j = n] assms unfolding sort_Search_def by simp_all

section \<open>The index\<close>

record levelIndex =
  li_l0 :: "tableMeta list"
  li_sorted :: "tableMeta list list"
  li_disjoint :: "bool list"

fun compareOptionalMin :: "bytes option \<Rightarrow> bytes option \<Rightarrow> int" where
  "compareOptionalMin None None = 0"
| "compareOptionalMin None (Some _) = -1"
| "compareOptionalMin (Some _) None = 1"
| "compareOptionalMin (Some a) (Some b) = bytes_compare a b"

definition min_less :: "tableMeta \<Rightarrow> tableMeta \<Rightarrow> bool" where
  "min_less a b \<longleftrightarrow> compareOptionalMin (tb_minKey a) (tb_minKey b) < 0"

text \<open>The loop of \<open>levelIsDisjoint\<close>; \<open>None\<close> for \<open>prevMax\<close> is the first turn.\<close>

fun disjoint_from :: "bytes option \<Rightarrow> tableMeta list \<Rightarrow> bool" where
  "disjoint_from prevMax [] = True"
| "disjoint_from prevMax (t # ts) =
     (case (tb_minKey t, tb_maxKey t) of
        (Some mn, Some mx) \<Rightarrow>
          if (case prevMax of None \<Rightarrow> False | Some p \<Rightarrow> bytes_compare mn p \<le> 0) then False
          else disjoint_from (Some mx) ts
      | _ \<Rightarrow> False)"

definition levelIsDisjoint :: "tableMeta list \<Rightarrow> bool" where
  "levelIsDisjoint lvl = disjoint_from None lvl"

definition max_depth :: "tableMeta list \<Rightarrow> nat" where
  "max_depth ts = foldl (\<lambda>m t. if m < tb_depth t then tb_depth t else m) 0 ts"

definition index_table :: "levelIndex \<Rightarrow> tableMeta \<Rightarrow> levelIndex" where
  "index_table idx t =
     (if tb_depth t = 0 then idx\<lparr>li_l0 := li_l0 idx @ [t]\<rparr>
      else idx\<lparr>li_sorted := (li_sorted idx)[tb_depth t := li_sorted idx ! tb_depth t @ [t]]\<rparr>)"

definition finish_level :: "levelIndex \<Rightarrow> nat \<Rightarrow> levelIndex" where
  "finish_level idx d =
     (let lvl = sort_Slice min_less (li_sorted idx ! d)
      in idx\<lparr>li_sorted := (li_sorted idx)[d := lvl], li_disjoint := (li_disjoint idx)[d := levelIsDisjoint lvl]\<rparr>)"

definition buildLevelIndex :: "tableMeta list \<Rightarrow> levelIndex" where
  "buildLevelIndex tables =
     (let maxDepth = max_depth tables;
          idx = \<lparr>li_l0 = [], li_sorted = replicate (maxDepth + 1) [], li_disjoint = replicate (maxDepth + 1) False\<rparr>;
          idx = foldl index_table idx tables
      in foldl finish_level idx [1..<maxDepth + 1])"

type_synonym 's visitor = "tableMeta \<Rightarrow> 's \<Rightarrow> (error option \<times> 's) option"

fun visit_all :: "'s visitor \<Rightarrow> tableMeta list \<Rightarrow> 's \<Rightarrow> (error option \<times> 's) option" where
  "visit_all visit [] st = Some (None, st)"
| "visit_all visit (t # ts) st =
     Option.bind (visit t st) (\<lambda>(err, st). if err \<noteq> None then Some (err, st) else visit_all visit ts st)"

definition level_candidates :: "levelIndex \<Rightarrow> bytes \<Rightarrow> nat \<Rightarrow> tableMeta list" where
  "level_candidates idx key d =
     (let lvl = li_sorted idx ! d
      in if length lvl = 0 then []
      else if \<not> li_disjoint idx ! d then filter (\<lambda>t. mayContain t key) lvl
      else let cutoff = sort_Search (length lvl) (\<lambda>i. case tb_minKey (lvl ! i) of None \<Rightarrow> 0 < bytes_compare [] key
                                                      | Some k \<Rightarrow> 0 < bytes_compare k key)
      in if cutoff = 0 then []
      else let t = lvl ! (cutoff - 1) in if mayContain t key then [t] else [])"

text \<open>The loops of \<open>candidates\<close> call \<open>visit\<close> on one table after the other and stop at its first error.\<close>

definition candidates :: "levelIndex \<Rightarrow> bytes \<Rightarrow> 's visitor \<Rightarrow> 's \<Rightarrow> (error option \<times> 's) option" where
  "candidates idx key visit st =
     Option.bind (visit_all visit (filter (\<lambda>t. mayContain t key) (li_l0 idx)) st) (\<lambda>(err, st).
       if err \<noteq> None then Some (err, st)
       else visit_all visit (concat (map (level_candidates idx key) [1..<length (li_sorted idx)])) st)"

section \<open>Candidates are the tables that may contain the key\<close>

lemma min_less_not_trans: "\<not> min_less b a \<Longrightarrow> \<not> min_less c b \<Longrightarrow> \<not> min_less c a"
  unfolding min_less_def
  by (cases "tb_minKey a"; cases "tb_minKey b"; cases "tb_minKey c") (auto simp: order_simps)

lemma min_less_asym: "min_less a b \<Longrightarrow> \<not> min_less b a"
  unfolding min_less_def by (cases "tb_minKey a"; cases "tb_minKey b") (auto simp: order_simps)

lemma visit_all_append:
  "visit_all visit (xs @ ys) st = Option.bind (visit_all visit xs st) (\<lambda>(err, st).
     if err \<noteq> None then Some (err, st) else visit_all visit ys st)"
  by (induction xs arbitrary: st) (auto simp: Option.bind_eq_None_conv split: Option.bind_splits prod.splits)

lemma disjoint_from_bounds:
  "disjoint_from p ts \<Longrightarrow> (\<forall>t\<in>set ts. \<exists>mn mx. tb_minKey t = Some mn \<and> tb_maxKey t = Some mx)
     \<and> (\<forall>i. Suc i < length ts \<longrightarrow> the (tb_maxKey (ts ! i)) < the (tb_minKey (ts ! Suc i)))"
proof (induction ts arbitrary: p)
  case (Cons t ts)
  obtain mn mx where b: "tb_minKey t = Some mn" "tb_maxKey t = Some mx"
    using Cons.prems by (auto split: option.splits)
  have d: "disjoint_from (Some mx) ts" using Cons.prems b by (auto split: if_splits option.splits)
  have "the (tb_maxKey ((t # ts) ! i)) < the (tb_minKey ((t # ts) ! Suc i))" if "Suc i < length (t # ts)" for i
  proof (cases i)
    case 0
    then show ?thesis using d b that by (cases ts) (auto simp: order_simps split: if_splits option.splits)
  next
    case (Suc j)
    then show ?thesis using Cons.IH [OF d] that by simp
  qed
  then show ?case using Cons.IH [OF d] b by auto
qed simp

lemma disjoint_level_unique:
  assumes d: "levelIsDisjoint lvl" and srt: "sorted_wrt (\<lambda>a b. \<not> min_less b a) lvl"
  shows "let c = sort_Search (length lvl) (\<lambda>i. case tb_minKey (lvl ! i) of None \<Rightarrow> 0 < bytes_compare [] key
      | Some k \<Rightarrow> 0 < bytes_compare k key)
    in c \<le> length lvl \<and> (\<forall>i < length lvl. mayContain (lvl ! i) key \<longrightarrow> Suc i = c)"
proof -
  define f where "f = (\<lambda>i. case tb_minKey (lvl ! i) of None \<Rightarrow> 0 < bytes_compare [] key | Some k \<Rightarrow> 0 < bytes_compare k key)"
  note b = disjoint_from_bounds [OF d [unfolded levelIsDisjoint_def]]
  have bd: "\<exists>mn mx. tb_minKey (lvl ! i) = Some mn \<and> tb_maxKey (lvl ! i) = Some mx" if "i < length lvl" for i
    using b that by simp
  have f: "f i \<longleftrightarrow> key < the (tb_minKey (lvl ! i))" if "i < length lvl" for i
    using bd [OF that] by (auto simp: f_def order_simps)
  have le: "the (tb_minKey (lvl ! i)) \<le> the (tb_minKey (lvl ! j))" if "i \<le> j" "j < length lvl" for i j
  proof (cases "i = j")
    case False
    then have "\<not> min_less (lvl ! j) (lvl ! i)" using srt that by (simp add: sorted_wrt_iff_nth_less)
    then show ?thesis using bd [of i] bd [of j] that by (auto simp: min_less_def order_simps)
  qed simp
  define c where "c = sort_Search (length lvl) f"
  have mono: "\<forall>i j. i \<le> j \<longrightarrow> f i \<longrightarrow> j < length lvl \<longrightarrow> f j"
    using le f by (meson le_less_trans less_le_trans)
  note c = sort_Search_ok [OF mono, folded c_def]
  have "Suc i = c" if i: "i < length lvl" "mayContain (lvl ! i) key" for i
  proof -
    have in_range: "the (tb_minKey (lvl ! i)) \<le> key" "key \<le> the (tb_maxKey (lvl ! i))"
      using i bd [OF i(1)] by (auto simp: mayContain_iff)
    then have "\<not> f i" using f i by auto
    then have "i < c" using c(3) mono i by (meson not_le_imp_less order_le_less_trans)
    moreover have "\<not> Suc i < c"
    proof
      assume "Suc i < c"
      then have "\<not> f (Suc i)" "Suc i < length lvl" using c by auto
      then have "the (tb_minKey (lvl ! Suc i)) \<le> key" using f by auto
      moreover have "the (tb_maxKey (lvl ! i)) < the (tb_minKey (lvl ! Suc i))" using b \<open>Suc i < length lvl\<close> by blast
      ultimately show False using in_range by (meson less_le_trans not_le order_trans)
    qed
    ultimately show ?thesis by simp
  qed
  then show ?thesis using c(1) unfolding c_def f_def Let_def by blast
qed

lemma filter_one:
  assumes "\<forall>i < length xs. P (xs ! i) \<longrightarrow> i = k" "k < length xs"
  shows "filter P xs = (if P (xs ! k) then [xs ! k] else [])"
proof -
  have xs: "xs = take k xs @ xs ! k # drop (Suc k) xs" by (rule id_take_nth_drop [OF assms(2)])
  have "\<not> P (xs ! i)" if "i < k" for i using assms that by (metis less_trans nat_neq_iff)
  then have "filter P (take k xs) = []" using assms(2) by (auto simp: filter_empty_conv in_set_conv_nth)
  moreover have "\<not> P (xs ! (Suc k + i))" if "Suc k + i < length xs" for i using assms that by fastforce
  then have "filter P (drop (Suc k) xs) = []" using assms(2) by (auto simp: filter_empty_conv in_set_conv_nth)
  ultimately show ?thesis by (subst xs, subst filter_append) simp
qed

lemma level_candidates_ok:
  assumes "li_sorted idx ! d = sort_Slice min_less ts" "li_disjoint idx ! d = levelIsDisjoint (li_sorted idx ! d)"
  shows "level_candidates idx key d = filter (\<lambda>t. mayContain t key) (li_sorted idx ! d)"
proof (cases "li_sorted idx ! d = [] \<or> \<not> li_disjoint idx ! d")
  case True
  then show ?thesis by (auto simp: level_candidates_def Let_def)
next
  case False
  let ?lvl = "li_sorted idx ! d"
  define c where "c = sort_Search (length ?lvl) (\<lambda>i. case tb_minKey (?lvl ! i) of None \<Rightarrow> 0 < bytes_compare [] key
      | Some k \<Rightarrow> 0 < bytes_compare k key)"
  have "sorted_wrt (\<lambda>a b. \<not> min_less b a) ?lvl"
    unfolding assms(1) by (rule sorted_sort_Slice) (use min_less_not_trans min_less_asym in blast)+
  then have c: "c \<le> length ?lvl" "\<forall>i < length ?lvl. mayContain (?lvl ! i) key \<longrightarrow> Suc i = c"
    using disjoint_level_unique [of ?lvl key] False assms(2) by (simp_all add: c_def Let_def)
  have lc: "level_candidates idx key d
      = (if c = 0 then [] else if mayContain (?lvl ! (c - 1)) key then [?lvl ! (c - 1)] else [])"
    using False by (auto simp: level_candidates_def Let_def c_def)
  show ?thesis
  proof (cases c)
    case 0
    then have "filter (\<lambda>t. mayContain t key) ?lvl = []" using c(2) by (auto simp: filter_empty_conv in_set_conv_nth)
    then show ?thesis using lc 0 by simp
  next
    case (Suc k)
    then have "filter (\<lambda>t. mayContain t key) ?lvl = (if mayContain (?lvl ! k) key then [?lvl ! k] else [])"
      using c by (intro filter_one) auto
    then show ?thesis using lc Suc by simp
  qed
qed

lemma index_tables:
  "\<forall>t\<in>set ts. tb_depth t < length (li_sorted idx) \<Longrightarrow>
   li_l0 (foldl index_table idx ts) = li_l0 idx @ filter (\<lambda>t. tb_depth t = 0) ts
   \<and> length (li_sorted (foldl index_table idx ts)) = length (li_sorted idx)
   \<and> li_disjoint (foldl index_table idx ts) = li_disjoint idx
   \<and> (\<forall>d. 0 < d \<and> d < length (li_sorted idx) \<longrightarrow>
        li_sorted (foldl index_table idx ts) ! d = li_sorted idx ! d @ filter (\<lambda>t. tb_depth t = d) ts)"
proof (induction ts arbitrary: idx)
  case (Cons t ts)
  have l: "length (li_sorted (index_table idx t)) = length (li_sorted idx)" by (simp add: index_table_def)
  then show ?case
    using Cons.IH [of "index_table idx t"] Cons.prems
    by (auto simp: index_table_def nth_list_update)
qed simp

lemma finish_levels:
  "n \<le> length (li_sorted idx) \<Longrightarrow> length (li_disjoint idx) = length (li_sorted idx) \<Longrightarrow>
   li_l0 (foldl finish_level idx [1..<n]) = li_l0 idx
   \<and> length (li_sorted (foldl finish_level idx [1..<n])) = length (li_sorted idx)
   \<and> length (li_disjoint (foldl finish_level idx [1..<n])) = length (li_sorted idx)
   \<and> (\<forall>d. n \<le> d \<longrightarrow> li_sorted (foldl finish_level idx [1..<n]) ! d = li_sorted idx ! d)
   \<and> (\<forall>d. 0 < d \<and> d < n \<longrightarrow> li_sorted (foldl finish_level idx [1..<n]) ! d = sort_Slice min_less (li_sorted idx ! d)
        \<and> li_disjoint (foldl finish_level idx [1..<n]) ! d = levelIsDisjoint (li_sorted (foldl finish_level idx [1..<n]) ! d))"
proof (induction n)
  case (Suc n)
  show ?case
  proof (cases "n = 0")
    case False
    then have "[1..<Suc n] = [1..<n] @ [n]" by simp
    then show ?thesis using Suc by (auto simp: finish_level_def Let_def nth_list_update less_Suc_eq)
  qed (use Suc in auto)
qed simp

lemma max_depth_le: "t \<in> set ts \<Longrightarrow> tb_depth t \<le> max_depth ts"
proof -
  have "m \<le> foldl (\<lambda>m t. if m < tb_depth t then tb_depth t else m) m ts
    \<and> (\<forall>t\<in>set ts. tb_depth t \<le> foldl (\<lambda>m t. if m < tb_depth t then tb_depth t else m) m ts)" for m
  proof (induction ts arbitrary: m)
    case (Cons t ts)
    let ?m = "if m < tb_depth t then tb_depth t else m"
    have "m \<le> ?m" "tb_depth t \<le> ?m" by auto
    then show ?case using Cons.IH [of ?m] by (simp only: foldl_Cons list.set ball_simps) (meson le_trans)
  qed simp
  then show "t \<in> set ts \<Longrightarrow> tb_depth t \<le> max_depth ts" unfolding max_depth_def by blast
qed

lemma buildLevelIndex_ok:
  fixes tables :: "tableMeta list"
  defines "idx \<equiv> buildLevelIndex tables"
  shows "li_l0 idx = filter (\<lambda>t. tb_depth t = 0) tables" "length (li_sorted idx) = max_depth tables + 1"
    "0 < d \<Longrightarrow> d < max_depth tables + 1 \<Longrightarrow> li_sorted idx ! d = sort_Slice min_less (filter (\<lambda>t. tb_depth t = d) tables)
      \<and> li_disjoint idx ! d = levelIsDisjoint (li_sorted idx ! d)"
proof -
  define n where "n = max_depth tables + 1"
  define i0 where "i0 = \<lparr>li_l0 = [], li_sorted = replicate n [], li_disjoint = replicate n False\<rparr>"
  define i1 where "i1 = foldl index_table i0 tables"
  have "\<forall>t\<in>set tables. tb_depth t < length (li_sorted i0)" using max_depth_le by (fastforce simp: i0_def n_def)
  note 1 = index_tables [OF this, folded i1_def]
  have idx: "idx = foldl finish_level i1 [1..<n]" by (simp add: idx_def buildLevelIndex_def Let_def i1_def i0_def n_def)
  have l: "n \<le> length (li_sorted i1)" "length (li_disjoint i1) = length (li_sorted i1)" using 1 by (simp_all add: i0_def)
  note 2 = finish_levels [OF l, folded idx]
  show "li_l0 idx = filter (\<lambda>t. tb_depth t = 0) tables" "length (li_sorted idx) = max_depth tables + 1"
    using 1 2 by (simp_all add: i0_def n_def)
  assume d: "0 < d" "d < max_depth tables + 1"
  then have "li_sorted i1 ! d = filter (\<lambda>t. tb_depth t = d) tables" using 1 by (simp add: i0_def n_def)
  then show "li_sorted idx ! d = sort_Slice min_less (filter (\<lambda>t. tb_depth t = d) tables)
      \<and> li_disjoint idx ! d = levelIsDisjoint (li_sorted idx ! d)" using 2 d by (simp add: n_def)
qed

lemma mset_by_depth:
  "mset (filter (\<lambda>t. tb_depth t = 0) ts) + sum_list (map (\<lambda>d. mset (filter (\<lambda>t. tb_depth t = d) ts)) [1..<Suc n])
   = mset (filter (\<lambda>t. tb_depth t \<le> n) ts)"
proof (induction n)
  case (Suc n)
  have "mset (filter (\<lambda>t. tb_depth t \<le> Suc n) ts)
      = mset (filter (\<lambda>t. tb_depth t \<le> n) ts) + mset (filter (\<lambda>t. tb_depth t = Suc n) ts)"
    by (induction ts) auto
  then show ?case using Suc by (simp add: add.assoc [symmetric])
qed simp

text \<open>The tables visited, in the order they are.\<close>

definition candidate_list :: "tableMeta list \<Rightarrow> bytes \<Rightarrow> tableMeta list" where
  "candidate_list tables key = filter (\<lambda>t. mayContain t key) (filter (\<lambda>t. tb_depth t = 0) tables
     @ concat (map (\<lambda>d. sort_Slice min_less (filter (\<lambda>t. tb_depth t = d) tables)) [1..<max_depth tables + 1]))"

lemma mset_candidate_list: "mset (candidate_list tables key) = mset (filter (\<lambda>t. mayContain t key) tables)"
proof -
  have "mset (filter (\<lambda>t. tb_depth t = 0) tables
      @ concat (map (\<lambda>d. sort_Slice min_less (filter (\<lambda>t. tb_depth t = d) tables)) [1..<Suc (max_depth tables)]))
    = mset (filter (\<lambda>t. tb_depth t \<le> max_depth tables) tables)"
    using mset_by_depth [of tables "max_depth tables"] by (simp add: mset_concat comp_def)
  also have "filter (\<lambda>t. tb_depth t \<le> max_depth tables) tables = tables"
    using max_depth_le by (simp add: filter_id_conv)
  finally show ?thesis unfolding candidate_list_def by (metis Suc_eq_plus1 mset_filter)
qed

lemma candidates_visit:
  "candidates (buildLevelIndex tables) key visit st = visit_all visit (candidate_list tables key) st"
proof -
  let ?idx = "buildLevelIndex tables"
  note b = buildLevelIndex_ok [where tables = tables]
  have "level_candidates ?idx key d = filter (\<lambda>t. mayContain t key) (sort_Slice min_less (filter (\<lambda>t. tb_depth t = d) tables))"
    if "d \<in> set [1..<max_depth tables + 1]" for d
    using b(3) [of d] that level_candidates_ok [of ?idx d "filter (\<lambda>t. tb_depth t = d) tables" key] by auto
  then have "map (level_candidates ?idx key) [1..<max_depth tables + 1]
      = map (\<lambda>d. filter (\<lambda>t. mayContain t key) (sort_Slice min_less (filter (\<lambda>t. tb_depth t = d) tables))) [1..<max_depth tables + 1]"
    by (rule map_cong [OF refl])
  then have e: "concat (map (level_candidates ?idx key) [1..<length (li_sorted ?idx)])
      = filter (\<lambda>t. mayContain t key) (concat (map (\<lambda>d. sort_Slice min_less (filter (\<lambda>t. tb_depth t = d) tables)) [1..<max_depth tables + 1]))"
    unfolding b(2) filter_concat map_map comp_def by (rule arg_cong)
  show ?thesis unfolding candidates_def candidate_list_def filter_append visit_all_append b(1) e ..
qed

text \<open>C12. The level index never drops a table: whatever the depths and recorded ranges of the
  tables, a lookup through it visits the tables whose range may contain the key, each once, and
  no other; only the order differs from a scan of all tables.\<close>

theorem level_index_complete:
  "\<exists>ts. mset ts = mset (filter (\<lambda>t. mayContain t key) tables)
     \<and> (\<forall>visit (st :: 's). candidates (buildLevelIndex tables) key visit st = visit_all visit ts st)"
  by (rule exI [of _ "candidate_list tables key"]) (simp add: mset_candidate_list candidates_visit)

end
