(* ===== verification/Table_Scan.thy ===== *)
theory Table_Scan
  imports Table_Correct
begin

text \<open>
  Scanning a written table: the iterator, its read-ahead window included,
  returns exactly the entries written, in order, and then ends without an error.
\<close>

section \<open>The read-ahead window\<close>

definition win_ok :: "bytes \<Rightarrow> tableIterator \<Rightarrow> bool" where
  "win_ok f it \<longleftrightarrow> (case ti_win it of None \<Rightarrow> True
     | Some w \<Rightarrow> \<exists>o'. ti_winOff it = word_of_nat o' \<and> o' + length w \<le> length f \<and> w = take (length w) (drop o' f))"

lemma win_ok_cong: "ti_win it' = ti_win it \<Longrightarrow> ti_winOff it' = ti_winOff it \<Longrightarrow> win_ok f it' = win_ok f it"
  by (simp add: win_ok_def split: option.split)

lemma tableReadAheadSize_nat: "tableReadAheadSize = word_of_nat 262144"
  by (simp add: tableReadAheadSize_def push_bit_eq_mult)

lemma ReadAt_take:
  "off + n \<le> length f \<Longrightarrow> ReadAt f (int off) n = Inr (take n (drop off f))"
  by (simp add: ReadAt_def Let_def)

lemma u64_add_less:
  "a + b < 2 ^ 63 \<Longrightarrow> c < 2 ^ 63 \<Longrightarrow> (word_of_nat a + word_of_nat b :: u64) < word_of_nat c \<longleftrightarrow> a + b < c"
  by (simp add: word_less_nat_alt unat_of_nat flip: of_nat_add)

lemma blockRaw_ok:
  assumes fr: "file_reader f tr" and w: "win_ok f it" and f: "f = pre @ blk @ post"
    and h: "h = \<lparr>bh_offset = ulen pre, bh_length = ulen blk\<rparr>"
  shows "\<exists>win off. blockRaw tr h it = (Inr blk, it\<lparr>ti_win := win, ti_winOff := off\<rparr>)
    \<and> win_ok f (it\<lparr>ti_win := win, ti_winOff := off\<rparr>)"
proof -
  have r: "tr_r tr = ReadAt f" "tr_size tr = int (length f)" and f32: "length f < 2 ^ 32"
    using fr by (simp_all add: file_reader_def)
  have len: "length f = length pre + length blk + length post" by (simp add: f)
  have l32: "length pre < 2 ^ 32" "length blk < 2 ^ 32" using f32 len by simp_all
  have bt: "take (length blk) (drop (length pre) f) = blk" by (simp add: f)
  have rb: "tr_r tr (sint (bh_offset h)) (unat (bh_length h)) = Inr blk"
    using ReadAt_take [of "length pre" "length blk" f] len l32 bt by (simp add: r h u64_simps)
  have self: "it\<lparr>ti_win := ti_win it, ti_winOff := ti_winOff it\<rparr> = it" by simp
  show ?thesis
  proof (cases "tableReadAheadSize < bh_length h")
    case True
    then show ?thesis using rb w self by (intro exI [of _ "ti_win it"] exI [of _ "ti_winOff it"]) (simp add: blockRaw_def)
  next
    case small: False
    then have sm: "length blk \<le> 262144"
      using l32 u64_less [of 262144 "length blk"] by (simp add: tableReadAheadSize_nat h)
    define hit where "hit = (case ti_win it of None \<Rightarrow> False
                      | Some win \<Rightarrow> \<not> (bh_offset h < ti_winOff it
                                       \<or> ti_winOff it + ulen win < bh_offset h + bh_length h))"
    show ?thesis
    proof (cases hit)
      case True
      then obtain win where win: "ti_win it = Some win" by (auto simp: hit_def split: option.splits)
      then obtain o' where o: "ti_winOff it = word_of_nat o'" "o' + length win \<le> length f"
        "win = take (length win) (drop o' f)" using w by (auto simp: win_ok_def)
      have b: "o' \<le> length pre" "length pre + length blk \<le> o' + length win"
        using True o(2) f32 len
        by (simp_all add: hit_def win o(1) h not_less word_le_nat_alt u64_small flip: of_nat_add)
      have "drop (length pre - o') win = take (length win - (length pre - o')) (drop (length pre) f)"
        using o(3) b by (metis drop_drop drop_take le_add_diff_inverse2)
      moreover have "length blk \<le> length win - (length pre - o')" using b by arith
      ultimately have "take (length blk) (drop (length pre - o') win) = blk"
        using bt by (simp only: take_take min.absorb1)
      moreover have d: "ulen pre - ti_winOff it = word_of_nat (length pre - o')"
        using b unfolding o(1) by (intro u64_diff)
      have "length pre - o' < 2 ^ 32" using l32 by simp
      then have "unat (ulen pre - ti_winOff it) = length pre - o'" unfolding d by (rule u64_small)
      ultimately have "blockRaw tr h it = (Inr blk, it)"
        using small True win l32 unfolding blockRaw_def hit_def [symmetric] by (simp add: h u64_small)
      then show ?thesis using w self by (intro exI [of _ "ti_win it"] exI [of _ "ti_winOff it"]) simp
    next
      case False
      define n where "n = min (length f) (length pre + 262144) - length pre"
      have e0: "ulen pre + tableReadAheadSize = word_of_nat (length pre + 262144)"
        by (simp add: tableReadAheadSize_nat)
      have e1: "(if word_of_int (tr_size tr) < ulen pre + tableReadAheadSize then word_of_int (tr_size tr)
          else ulen pre + tableReadAheadSize) = (word_of_nat (min (length f) (length pre + 262144)) :: u64)"
        using f32 l32 u64_add_less [of 0 "length f" "length pre + 262144"]
        unfolding e0 by (simp add: r min_def del: of_nat_add)
      have d: "(word_of_nat (min (length f) (length pre + 262144)) :: u64) - ulen pre = word_of_nat n"
        unfolding n_def using len by (intro u64_diff) simp
      have "n < 2 ^ 32" using len f32 by (simp add: n_def)
      then have un: "unat ((word_of_nat (min (length f) (length pre + 262144)) :: u64) - ulen pre) = n"
        unfolding d by (rule u64_small)
      have nb: "length pre + n \<le> length f" "length blk \<le> n" using len sm by (simp_all add: n_def)
      have rd: "tr_r tr (sint (ulen pre)) n = Inr (take n (drop (length pre) f))"
        using ReadAt_take [OF nb(1)] l32 by (simp add: r u64_sint)
      have nh: "\<not> (case ti_win it of None \<Rightarrow> False | Some win \<Rightarrow> \<not> (ulen pre < ti_winOff it
          \<or> ti_winOff it + ulen win < ulen pre + ulen blk))"
        using False unfolding hit_def h blockHandle.simps .
      let ?w = "take n (drop (length pre) f)"
      have "take (length blk) ?w = blk" using nb bt by (simp add: min_def)
      then have "blockRaw tr h it = (Inr blk, it\<lparr>ti_win := Some ?w, ti_winOff := ulen pre\<rparr>)"
        using small rd l32 unfolding blockRaw_def h blockHandle.simps
        by (simp only: nh if_False Let_def e1 un try_then_simps sum.case) (simp add: u64_small)
      moreover have "win_ok f (it\<lparr>ti_win := Some ?w, ti_winOff := ulen pre\<rparr>)"
        using nb(1) by (auto simp: win_ok_def intro!: exI [of _ "length pre"])
      ultimately show ?thesis by blast
    qed
  qed
qed

section \<open>The scan\<close>

text \<open>
  \<open>at_entries\<close>: the iterator stands in block \<open>ti_blk\<close> (before the first one when
  nothing is loaded) and \<open>todo\<close> is what it has still to return.
\<close>

definition at_entries ::
  "codecLib \<Rightarrow> tableWriterConfig \<Rightarrow> (bytes \<times> bytes) list \<Rightarrow> rangeTombstone list \<Rightarrow> dblock list \<Rightarrow> bytes
   \<Rightarrow> (bytes \<times> bytes) list \<Rightarrow> tableIterator \<Rightarrow> bool" where
  "at_entries lib cfg kvs rts blks f todo it \<longleftrightarrow>
     ti_err it = None \<and> win_ok f it \<and> -1 \<le> ti_blk it \<and> ti_blk it < int (length blks) + 1
     \<and> ti_loaded it = (0 \<le> ti_blk it)
     \<and> (\<exists>rem e. (if ti_loaded it then it_run (ti_inner it) = (rem, e) \<and> it_err e = None else rem = [])
          \<and> todo = rem @ concat (map snd (drop (nat (ti_blk it + 1)) blks)))
     \<and> (\<forall>kv\<in>set todo. above_prev (ti_lastKey it) (fst kv))
     \<and> sorted_entries todo \<and> list_all wf_kv todo"

lemma resetEntries_run:
  assumes "it_over kvs it" "list_all kv_fits kvs" "it_entries it = entries"
  shows "\<exists>e. it_run (resetEntries entries it0) = (kvs, e) \<and> it_err e = None"
proof -
  have "encoded [] entries kvs" "fits entries" using assms by (simp_all add: it_over_def)
  then have "fst (it_run (resetEntries entries it0)) = kvs \<and> it_err (snd (it_run (resetEntries entries it0))) = None"
    using assms(2) by (intro it_run_encoded [of _ entries _ "[]"]) (simp_all add: resetEntries_def fits_def)
  then show ?thesis by (metis prod.collapse)
qed

lemma ti_load_ok:
  assumes op: "opened lib cfg kvs rts blks f tr" and w: "win_ok f it" and j: "ti_blk it + 1 = int j" "j < length blks"
  shows "\<exists>win off inner e. ti_load lib tr (meta_of lib cfg kvs rts blks) it
      = Inr (it\<lparr>ti_win := win, ti_winOff := off, ti_blk := int j, ti_inner := inner, ti_loaded := True\<rparr>)
    \<and> win_ok f (it\<lparr>ti_win := win, ti_winOff := off\<rparr>) \<and> it_run inner = (snd (blks ! j), e) \<and> it_err e = None"
proof -
  let ?m = "meta_of lib cfg kvs rts blks" and ?it = "it\<lparr>ti_blk := int j\<rparr>"
  have tof: "table_of lib cfg kvs rts blks f" and fit: "table_fits cfg kvs rts" and ll: "lossless lib"
    and fr: "file_reader f tr"
    using op by (simp_all add: opened_def table_ok_def)
  have "length (idx_ents pos off xs) = length xs" for pos off xs
    by (induction xs arbitrary: pos off) auto
  then have n: "length (tm_indexEnt ?m) = length blks" by (simp add: meta_of_def Let_def idx_of_def)
  have w': "win_ok f ?it" using w win_ok_cong [of ?it it] by simp
  obtain win off where br: "blockRaw tr (blockHandleAt ?m j) ?it
      = (Inr (finishBlock lib (fst (blks ! j)) (cfg_codec cfg)), ?it\<lparr>ti_win := win, ti_winOff := off\<rparr>)"
    and w2: "win_ok f (?it\<lparr>ti_win := win, ti_winOff := off\<rparr>)"
    using op j(2)
  proof (rule opened_block)
    fix pre post
    assume "f = pre @ finishBlock lib (fst (blks ! j)) (cfg_codec cfg) @ post"
      "blockHandleAt ?m j = \<lparr>bh_offset = ulen pre, bh_length = ulen (finishBlock lib (fst (blks ! j)) (cfg_codec cfg))\<rparr>"
    from blockRaw_ok [OF fr w' this] show thesis using that by blast
  qed
  obtain used where db: "decodeBlockInto lib (finishBlock lib (fst (blks ! j)) (cfg_codec cfg)) = Inr (fst (blks ! j), used)"
    using decodeBlock_finishBlock [OF ll, of "fst (blks ! j)" "cfg_codec cfg"]
    by (auto simp: decodeBlock_def try_then_Inr)
  have bs: "blks ! j \<in> set blks" using j(2) by simp
  obtain entries restarts nr where sd: "splitDataBlock (fst (blks ! j)) = Inr (entries, restarts, nr)"
    and ov: "it_over (snd (blks ! j)) \<lparr>it_entries = entries, it_restarts = restarts, it_nRestart = nr, it_pos = 0,
        it_key = [], it_value = [], it_err = None\<rparr>" and kf: "list_all kv_fits (snd (blks ! j))"
    using payload_iter [OF tof fit bs] by blast
  obtain e where "it_run (resetEntries entries (ti_inner it)) = (snd (blks ! j), e)" "it_err e = None"
    using resetEntries_run [OF ov kf] by auto
  moreover have "ti_load lib tr ?m it = Inr (?it\<lparr>ti_win := win, ti_winOff := off,
      ti_inner := resetEntries entries (ti_inner it), ti_loaded := True\<rparr>)"
    using j br db sd n by (simp add: ti_load_def Let_def)
  moreover have "win_ok f (it\<lparr>ti_win := win, ti_winOff := off\<rparr>)" using w2
    win_ok_cong [of "?it\<lparr>ti_win := win, ti_winOff := off\<rparr>" "it\<lparr>ti_win := win, ti_winOff := off\<rparr>"] by simp
  ultimately show ?thesis
    by (intro exI [of _ win] exI [of _ off] exI [of _ "resetEntries entries (ti_inner it)"] exI [of _ e]) simp
qed

text \<open>A pass that finds an entry in the loaded block returns it.\<close>

lemma ti_loop_entry:
  assumes "ti_loaded it" "it_run (ti_inner it) = ((k, v) # rem, e)" "wf_kv (k, v)" "above_prev (ti_lastKey it) k"
  shows "\<exists>inner. ti_loop lib tr m it = (True, it\<lparr>ti_inner := inner, ti_lastKey := Some k\<rparr>)
    \<and> it_run inner = (rem, e) \<and> it_key inner = k \<and> it_value inner = v"
proof -
  obtain inner where nx: "it_next (ti_inner it) = (True, inner)" "it_key inner = k" "it_value inner = v" "it_run inner = (rem, e)"
    using assms(2) by (rule it_run_Cons)
  have "\<not> length k < trailerLen" "validIKeyKind (ikeyKindOf k)" using assms(3) by (simp_all add: wf_kv_def valid_ikey_def)
  moreover have "\<not> (case ti_lastKey it of None \<Rightarrow> False | Some p \<Rightarrow> 0 \<le> ikeyCompare p (it_key inner))"
    using assms(4) nx(2) by (auto simp: above_prev_def split: option.splits)
  ultimately show ?thesis
    using nx assms(1) by (intro exI [of _ inner], subst ti_loop.simps) (simp add: split_beta)
qed

text \<open>A pass that finds none goes on to the next block.\<close>

lemma ti_loop_load:
  assumes "if ti_loaded it then it_run (ti_inner it) = ([], e) \<and> it_err e = None else e = ti_inner it"
  shows "ti_loop lib tr m it = (case ti_load lib tr m (it\<lparr>ti_inner := e\<rparr>) of Inl it \<Rightarrow> (False, it) | Inr it \<Rightarrow> ti_loop lib tr m it)"
proof (cases "ti_loaded it")
  case True
  then have "it_next (ti_inner it) = (False, e)" "it_err e = None" using assms it_run_Nil by auto
  then show ?thesis using True by (subst ti_loop.simps) simp
next
  case False
  then show ?thesis using assms by (subst ti_loop.simps) simp
qed

lemma above_prev_Some: "above_prev (Some p) k \<longleftrightarrow> ikeyCompare p k < 0"
  by (simp add: above_prev_def)

lemma at_entries_todo:
  assumes "at_entries lib cfg kvs rts blks f ((k, v) # todo) it"
  shows "wf_kv (k, v)" "above_prev (ti_lastKey it) k" "sorted_entries todo" "list_all wf_kv todo"
    "\<forall>kv\<in>set todo. above_prev (Some k) (fst kv)"
  using assms by (auto simp: at_entries_def sorted_entries_def above_prev_Some)

lemma at_entries_meta:
  "at_entries lib cfg kvs rts blks f todo (it\<lparr>ti_meta := x\<rparr>) = at_entries lib cfg kvs rts blks f todo it"
proof -
  have fields: "ti_err (it\<lparr>ti_meta := x\<rparr>) = ti_err it" "ti_blk (it\<lparr>ti_meta := x\<rparr>) = ti_blk it"
    "ti_loaded (it\<lparr>ti_meta := x\<rparr>) = ti_loaded it" "ti_inner (it\<lparr>ti_meta := x\<rparr>) = ti_inner it"
    "ti_lastKey (it\<lparr>ti_meta := x\<rparr>) = ti_lastKey it" by simp_all
  have "win_ok f (it\<lparr>ti_meta := x\<rparr>) = win_ok f it" by (rule win_ok_cong) simp_all
  then show ?thesis by (simp only: at_entries_def fields)
qed

lemma ti_loop_here:
  assumes at: "at_entries lib cfg kvs rts blks f ((k, v) # todo) it"
    and r: "ti_loaded it" "it_run (ti_inner it) = ((k, v) # rem, e)" "it_err e = None"
      "todo = rem @ concat (map snd (drop (nat (ti_blk it + 1)) blks))"
  shows "\<exists>it'. ti_loop lib tr m it = (True, it')
    \<and> at_entries lib cfg kvs rts blks f todo it' \<and> it_key (ti_inner it') = k \<and> it_value (ti_inner it') = v
    \<and> ti_meta it' = ti_meta it"
proof -
  note t = at_entries_todo [OF at]
  obtain inner where i: "ti_loop lib tr m it = (True, it\<lparr>ti_inner := inner, ti_lastKey := Some k\<rparr>)"
    "it_run inner = (rem, e)" "it_key inner = k" "it_value inner = v"
    using ti_loop_entry [OF r(1,2) t(1,2)] by blast
  let ?it = "it\<lparr>ti_inner := inner, ti_lastKey := Some k\<rparr>"
  have "win_ok f ?it" using at win_ok_cong [of ?it it f] by (simp add: at_entries_def)
  then have "at_entries lib cfg kvs rts blks f todo ?it"
    using at t i r unfolding at_entries_def by auto
  with i show ?thesis by (intro exI [of _ ?it]) simp
qed

lemma ti_loop_step:
  assumes op: "opened lib cfg kvs rts blks f tr" and at: "at_entries lib cfg kvs rts blks f ((k, v) # todo) it"
  shows "\<exists>it'. ti_loop lib tr (meta_of lib cfg kvs rts blks) it = (True, it')
    \<and> at_entries lib cfg kvs rts blks f todo it' \<and> it_key (ti_inner it') = k \<and> it_value (ti_inner it') = v
    \<and> ti_meta it' = ti_meta it"
proof -
  let ?m = "meta_of lib cfg kvs rts blks"
  obtain rem e where re: "if ti_loaded it then it_run (ti_inner it) = (rem, e) \<and> it_err e = None else rem = []"
    "(k, v) # todo = rem @ concat (map snd (drop (nat (ti_blk it + 1)) blks))"
    using at by (auto simp: at_entries_def)
  show ?thesis
  proof (cases rem)
    case (Cons kv rem')
    then have "ti_loaded it" "kv = (k, v)" using re by (auto split: if_splits)
    then show ?thesis using ti_loop_here [OF at, of rem' e] re Cons by simp
  next
    case Nil
    define e' where "e' = (if ti_loaded it then e else ti_inner it)"
    have ld: "ti_loop lib tr ?m it
        = (case ti_load lib tr ?m (it\<lparr>ti_inner := e'\<rparr>) of Inl it \<Rightarrow> (False, it) | Inr it \<Rightarrow> ti_loop lib tr ?m it)"
      using re(1) Nil by (intro ti_loop_load) (simp add: e'_def)
    define j where "j = nat (ti_blk it + 1)"
    have j: "ti_blk it + 1 = int j" using at by (simp add: j_def at_entries_def)
    have jl: "j < length blks" using re(2) Nil by (cases "j < length blks") (simp_all add: j_def)
    have "win_ok f (it\<lparr>ti_inner := e'\<rparr>)" using at win_ok_cong [of "it\<lparr>ti_inner := e'\<rparr>" it f] by (simp add: at_entries_def)
    from ti_load_ok [OF op this, of j] j jl obtain win off inner e2 where
      l: "ti_load lib tr ?m (it\<lparr>ti_inner := e'\<rparr>) = Inr (it\<lparr>ti_inner := e', ti_win := win, ti_winOff := off,
          ti_blk := int j, ti_inner := inner, ti_loaded := True\<rparr>)"
      "win_ok f (it\<lparr>ti_inner := e', ti_win := win, ti_winOff := off\<rparr>)" "it_run inner = (snd (blks ! j), e2)" "it_err e2 = None"
      by auto
    define it2 where "it2 = it\<lparr>ti_inner := e', ti_win := win, ti_winOff := off,
          ti_blk := int j, ti_inner := inner, ti_loaded := True\<rparr>"
    have td: "(k, v) # todo = snd (blks ! j) @ concat (map snd (drop (Suc j) blks))"
      using re(2) Nil jl by (simp add: j_def [symmetric] Cons_nth_drop_Suc [symmetric])
    have "table_of lib cfg kvs rts blks f" using op by (simp add: opened_def table_ok_def)
    then have "snd (blks ! j) \<noteq> []" using jl by (auto simp: table_of_def list_all_length data_payload_def)
    then obtain rem2 where r2: "snd (blks ! j) = (k, v) # rem2" "todo = rem2 @ concat (map snd (drop (Suc j) blks))"
      using td by (cases "snd (blks ! j)") auto
    have w2: "win_ok f it2" using l(2) win_ok_cong [of it2 "it\<lparr>ti_inner := e', ti_win := win, ti_winOff := off\<rparr>" f]
      by (simp add: it2_def)
    have "\<exists>rem e. (it_run (ti_inner it2) = (rem, e) \<and> it_err e = None)
          \<and> (k, v) # todo = rem @ concat (map snd (drop (nat (ti_blk it2 + 1)) blks))"
      using l(3,4) td by (intro exI [of _ "snd (blks ! j)"] exI [of _ e2]) (simp add: it2_def nat_add_distrib)
    then have at2: "at_entries lib cfg kvs rts blks f ((k, v) # todo) it2"
      using at w2 jl unfolding at_entries_def by (simp add: it2_def)
    have "\<exists>it'. ti_loop lib tr ?m it2 = (True, it') \<and> at_entries lib cfg kvs rts blks f todo it'
        \<and> it_key (ti_inner it') = k \<and> it_value (ti_inner it') = v \<and> ti_meta it' = ti_meta it2"
      using l(3,4) r2 by (intro ti_loop_here [OF at2, of rem2 e2]) (simp_all add: it2_def nat_add_distrib)
    then show ?thesis using ld l(1) by (simp add: it2_def)
  qed
qed

lemma ti_loop_end:
  assumes op: "opened lib cfg kvs rts blks f tr" and at: "at_entries lib cfg kvs rts blks f [] it"
  shows "\<exists>it'. ti_loop lib tr (meta_of lib cfg kvs rts blks) it = (False, it') \<and> ti_err it' = None"
proof -
  let ?m = "meta_of lib cfg kvs rts blks"
  obtain e where re: "if ti_loaded it then it_run (ti_inner it) = ([], e) \<and> it_err e = None else True"
    and dr: "concat (map snd (drop (nat (ti_blk it + 1)) blks)) = []"
    using at by (auto simp: at_entries_def split: if_splits)
  define e' where "e' = (if ti_loaded it then e else ti_inner it)"
  have ld: "ti_loop lib tr ?m it
      = (case ti_load lib tr ?m (it\<lparr>ti_inner := e'\<rparr>) of Inl it \<Rightarrow> (False, it) | Inr it \<Rightarrow> ti_loop lib tr ?m it)"
    using re by (intro ti_loop_load) (auto simp: e'_def split: if_splits)
  have tof: "list_all data_payload blks" using op by (simp add: opened_def table_ok_def table_of_def)
  have "length blks \<le> nat (ti_blk it + 1)"
  proof (rule ccontr)
    assume "\<not> length blks \<le> nat (ti_blk it + 1)"
    then have "blks ! nat (ti_blk it + 1) \<in> set (drop (nat (ti_blk it + 1)) blks)"
      by (simp add: Cons_nth_drop_Suc [symmetric])
    then have "snd (blks ! nat (ti_blk it + 1)) = []" using dr by auto
    then show False using tof \<open>\<not> length blks \<le> _\<close> by (simp add: list_all_length data_payload_def)
  qed
  moreover have "length (idx_ents pos off xs) = length xs" for pos off xs
    by (induction xs arbitrary: pos off) auto
  then have n: "length (tm_indexEnt ?m) = length blks" by (simp add: meta_of_def Let_def idx_of_def)
  ultimately have "int (length (tm_indexEnt ?m)) \<le> ti_blk it + 1" using at by (simp add: at_entries_def) arith
  then have "ti_load lib tr ?m (it\<lparr>ti_inner := e'\<rparr>) = Inl (it\<lparr>ti_inner := e', ti_blk := ti_blk it + 1\<rparr>)"
    by (simp add: ti_load_def Let_def)
  then show ?thesis using ld at by (simp add: at_entries_def)
qed

text \<open>The caller's loop, at most \<open>n\<close> calls of \<open>Next\<close>: the pairs seen and whether the end was reached.\<close>

fun ti_scan :: "codecLib \<Rightarrow> nat \<Rightarrow> tableReader \<Rightarrow> tableIterator \<Rightarrow> (bytes \<times> bytes) list \<times> bool \<times> tableIterator" where
  "ti_scan lib 0 tr it = ([], False, it)"
| "ti_scan lib (Suc n) tr it =
     (let (ok, it, tr) = ti_Next lib tr it
      in if ok then let (kvs, fin, it') = ti_scan lib n tr it
                    in ((it_key (ti_inner it), it_value (ti_inner it)) # kvs, fin, it')
         else ([], True, it))"

lemma ti_scan_ok:
  assumes "opened lib cfg kvs rts blks f tr" "at_entries lib cfg kvs rts blks f todo it"
    and "ti_meta it = None \<or> ti_meta it = Some (meta_of lib cfg kvs rts blks)" "length todo < n"
  shows "\<exists>it'. ti_scan lib n tr it = (todo, True, it') \<and> ti_err it' = None"
  using assms
proof (induction todo arbitrary: n tr it)
  case Nil
  let ?m = "meta_of lib cfg kvs rts blks"
  obtain n' where n: "n = Suc n'" using Nil.prems(4) by (cases n) auto
  obtain tr' where m: "(case ti_meta it of Some m \<Rightarrow> (Inr m, tr) | None \<Rightarrow> ensureMeta lib tr) = (Inr ?m, tr')"
    "opened lib cfg kvs rts blks f tr'"
    using Nil.prems(1,3) ensureMeta_opened [OF Nil.prems(1)] by (auto split: option.splits)
  have e: "ti_err it = None" using Nil.prems(2) by (simp add: at_entries_def)
  let ?it = "it\<lparr>ti_meta := Some ?m\<rparr>"
  have "at_entries lib cfg kvs rts blks f [] ?it"
    using Nil.prems(2) by (simp add: at_entries_meta)
  from ti_loop_end [OF m(2) this] obtain it' where "ti_loop lib tr' ?m ?it = (False, it')" "ti_err it' = None" by blast
  then show ?case using m(1) e n by (simp add: ti_Next_def)
next
  case (Cons kv todo)
  let ?m = "meta_of lib cfg kvs rts blks"
  obtain k v where kv: "kv = (k, v)" by fastforce
  obtain n' where n: "n = Suc n'" using Cons.prems(4) by (cases n) auto
  obtain tr' where m: "(case ti_meta it of Some m \<Rightarrow> (Inr m, tr) | None \<Rightarrow> ensureMeta lib tr) = (Inr ?m, tr')"
    "opened lib cfg kvs rts blks f tr'"
    using Cons.prems(1,3) ensureMeta_opened [OF Cons.prems(1)] by (auto split: option.splits)
  have e: "ti_err it = None" using Cons.prems(2) by (simp add: at_entries_def)
  let ?it = "it\<lparr>ti_meta := Some ?m\<rparr>"
  have "at_entries lib cfg kvs rts blks f ((k, v) # todo) ?it"
    using Cons.prems(2) kv by (simp add: at_entries_meta)
  from ti_loop_step [OF m(2) this] obtain it' where s: "ti_loop lib tr' ?m ?it = (True, it')"
    "at_entries lib cfg kvs rts blks f todo it'" "it_key (ti_inner it') = k" "it_value (ti_inner it') = v"
    "ti_meta it' = ti_meta ?it" by blast
  have "ti_Next lib tr it = (True, it', tr')" using m(1) e s(1) by (simp add: ti_Next_def)
  moreover obtain it2 where "ti_scan lib n' tr' it' = (todo, True, it2)" "ti_err it2 = None"
    using Cons.IH [OF m(2) s(2), of n'] s(5) Cons.prems(4) n by auto
  ultimately show ?case using s n kv by simp
qed

section \<open>A sequence of lookups\<close>

fun lookups ::
  "codecLib \<Rightarrow> (bytes \<Rightarrow> u64) \<Rightarrow> tableReader \<Rightarrow> blockCacheT option \<Rightarrow> (bytes \<times> u64 \<times> int) list
   \<Rightarrow> lookupResult result list option" where
  "lookups lib hash tr cache [] = Some []"
| "lookups lib hash tr cache ((u, s, now) # qs) =
     Option.bind (lookupAtTime lib hash tr u s now cache) (\<lambda>(r, tr, cache).
       map_option (Cons r) (lookups lib hash tr cache qs))"

definition answers :: "(bytes \<times> bytes) list \<Rightarrow> bytes \<times> u64 \<times> int \<Rightarrow> lookupResult result \<Rightarrow> bool" where
  "answers kvs q r \<longleftrightarrow> (\<exists>b. r = try_then (lookup_spec kvs (fst q) (fst (snd q)) (snd (snd q)))
     (\<lambda>r. Inr (r\<lparr>lr_bloomPassed := b\<rparr>)))"

lemma lookups_ok:
  "opened lib cfg kvs rts blks f tr \<Longrightarrow> serves R lib cfg kvs rts blks (tr_tableNum tr) \<Longrightarrow> cache_ok hash R cache \<Longrightarrow>
   \<forall>q\<in>set qs. fst (snd q) \<le> maxIKeySeq \<Longrightarrow>
   \<exists>rs. lookups lib hash tr cache qs = Some rs \<and> list_all2 (answers kvs) qs rs"
proof (induction qs arbitrary: tr cache)
  case (Cons q qs)
  obtain u s now where q: "q = (u, s, now)" by (cases q) auto
  have s: "s \<le> maxIKeySeq" using Cons.prems(4) q by simp
  obtain b tr' cache' where l: "lookupAtTime lib hash tr u s now cache
      = Some (try_then (lookup_spec kvs u s now) (\<lambda>r. Inr (r\<lparr>lr_bloomPassed := b\<rparr>)), tr', cache')"
    and o: "opened lib cfg kvs rts blks f tr'" "serves R lib cfg kvs rts blks (tr_tableNum tr')" "cache_ok hash R cache'"
    using lookupAtTime_ok [OF Cons.prems(1) s Cons.prems(2,3)] Cons.prems(2) by metis
  obtain rs where "lookups lib hash tr' cache' qs = Some rs" "list_all2 (answers kvs) qs rs"
    using Cons.IH [OF o] Cons.prems(4) by auto
  moreover have "answers kvs q (try_then (lookup_spec kvs u s now) (\<lambda>r. Inr (r\<lparr>lr_bloomPassed := b\<rparr>)))"
    using q by (auto simp: answers_def)
  ultimately show ?case using l q by simp
qed simp

lemma cache_ok_new:
  "0 \<le> cap \<Longrightarrow> cache_ok hash R (Some (newBlockCache cap))"
  using bc_inv_new [of cap hash] by (simp add: cache_ok_def coherent_def)

lemma at_entries_new:
  assumes "opened lib cfg kvs rts blks f tr"
  shows "at_entries lib cfg kvs rts blks f kvs tr_newIterator"
  using assms by (auto simp: at_entries_def tr_newIterator_def win_ok_def opened_def table_ok_def table_of_def above_prev_def)

lemma verify_blocks_ok:
  assumes "opened lib cfg kvs rts blks f tr" "\<forall>i\<in>set is. i < length blks"
  shows "verify_blocks lib tr (meta_of lib cfg kvs rts blks) is = Inr ()"
  using assms(2) by (induction "is") (simp_all add: readBlockRaw_block [OF assms(1)] wrap_err_def)

lemma tr_verify_ok:
  assumes op: "opened lib cfg kvs rts blks f tr"
  shows "tr_verify lib tr = Inr ()"
proof -
  let ?m = "meta_of lib cfg kvs rts blks"
  have ok: "table_ok lib cfg kvs rts blks f" and r: "tr_r tr = ReadAt f" "tr_size tr = int (length f)"
    using op by (simp_all add: opened_def file_reader_def)
  obtain fresh where fr: "newTableReaderOpt lib (ReadAt f) (int (length f)) (tr_tableNum tr) False = Inr fresh"
    "opened lib cfg kvs rts blks f fresh" using open_ok [OF ok] by blast
  have "tr_meta fresh = Some ?m \<or> tr_meta fresh = None" using fr(2) by (auto simp: opened_def)
  moreover have "length (idx_ents pos off xs) = length xs" for pos off xs
    by (induction xs arbitrary: pos off) auto
  then have "length (tm_indexEnt ?m) = length blks" by (simp add: meta_of_def Let_def idx_of_def)
  ultimately show ?thesis
    using fr(1) verify_blocks_ok [OF op, of "[0..<length blks]"]
    by (auto simp: tr_verify_def newCachedTableReader_def r)
qed

lemma written_table_ok:
  assumes "write_table lib cfg w kvs rts = (Inr n, tw)" "f_data w = []" "lossless lib" "table_fits cfg kvs rts"
    "\<forall>rt\<in>set rts. wf_rangeDel rt"
  shows "\<exists>blks. table_ok lib cfg kvs rts blks (dst_data (tw_w tw)) \<and> n = int (length (dst_data (tw_w tw)))"
proof -
  obtain blks where b: "table_of lib cfg kvs rts blks (dst_data (tw_w tw))" "n = sint (ulen (dst_data (tw_w tw)))"
    using write_table_of [OF assms(2,1)] by blast
  have "length (dst_data (tw_w tw)) < 2 ^ 32" using table_of_length [OF b(1) assms(4)] .
  then have "n = int (length (dst_data (tw_w tw)))" using b(2) by (simp add: u64_sint)
  with b(1) assms show ?thesis by (auto simp: table_ok_def)
qed

section \<open>Properties\<close>

text \<open>
  C5.  A table that the writer finished answers every point lookup correctly:
  opened eagerly or lazily, with a block cache of any capacity shared by the
  lookups, each lookup returns the newest version of the key at or below the read
  sequence, resolved by its kind and deadline, and a miss when there is none.
\<close>

theorem table_lookup_correct:
  assumes "write_table lib cfg w kvs rts = (Inr n, tw)" "f_data w = []" "lossless lib" "table_fits cfg kvs rts"
    and "\<forall>rt\<in>set rts. wf_rangeDel rt" "0 \<le> cap" "\<forall>q\<in>set qs. fst (snd q) \<le> maxIKeySeq"
  shows "\<exists>tr rs. newTableReaderOpt lib (ReadAt (dst_data (tw_w tw))) n num lazy = Inr tr
    \<and> lookups lib hash tr (Some (newBlockCache cap)) qs = Some rs \<and> list_all2 (answers kvs) qs rs"
proof -
  obtain blks where ok: "table_ok lib cfg kvs rts blks (dst_data (tw_w tw))" and n: "n = int (length (dst_data (tw_w tw)))"
    using written_table_ok [OF assms(1-5)] by blast
  obtain tr where tr: "newTableReaderOpt lib (ReadAt (dst_data (tw_w tw))) n num lazy = Inr tr"
    "opened lib cfg kvs rts blks (dst_data (tw_w tw)) tr"
    using open_ok [OF ok, of num lazy] n by blast
  from lookups_ok [OF tr(2) serves_own [OF tr(2)] cache_ok_new [OF assms(6)] assms(7)] tr(1) show ?thesis by blast
qed

theorem table_lookup_correct_witness:
  "\<exists>n tw tr rs. write_table idLib \<lparr>cfg_codec = s2Codec, cfg_bloomBits = 1, cfg_blockSize = 20\<rparr> \<lparr>f_data = [], f_sched = []\<rparr>
        [(ikeyEncode [] [1] 2 1, [7])] [] = (Inr n, tw)
    \<and> newTableReaderOpt idLib (ReadAt (dst_data (tw_w tw))) n 5 True = Inr tr
    \<and> lookups idLib (\<lambda>b. 3) tr (Some (newBlockCache 100)) [([1], 9, 0), ([2], 9, 0)] = Some rs
    \<and> list_all2 (answers [(ikeyEncode [] [1] 2 1, [7])]) [([1], 9, 0), ([2], 9, 0)] rs"
proof -
  let ?kvs = "[(ikeyEncode [] [1] 2 1, [7])]"
  let ?cfg = "\<lparr>cfg_codec = s2Codec, cfg_bloomBits = 1, cfg_blockSize = 20\<rparr>"
  let ?w = "\<lparr>f_data = [], f_sched = []\<rparr>"
  have "list_all wf_kv ?kvs" "sorted_entries ?kvs"
    by (simp_all add: wf_kv_def sorted_entries_def maxIKeySeq_def push_bit_eq_mult validIKeyKind_def ikeyKind_defs)
  then obtain n tw where w: "write_table idLib ?cfg ?w ?kvs [] = (Inr n, tw)"
    using write_table_healthy [of ?w ?kvs idLib ?cfg "[]"] by (cases "write_table idLib ?cfg ?w ?kvs []") auto
  have ll: "lossless idLib" by (simp add: lossless_def idLib_def)
  have "pow2Bytes 1 = 8" by code_simp
  moreover have "length (encodeRangeDelBlock [] []) = 1" by code_simp
  ultimately have tf: "table_fits ?cfg ?kvs []" by (simp add: table_fits_def newBloom_def)
  have nn: "f_data ?w = []" by simp
  have "\<exists>tr rs. newTableReaderOpt idLib (ReadAt (dst_data (tw_w tw))) n 5 True = Inr tr
    \<and> lookups idLib (\<lambda>b. 3) tr (Some (newBlockCache 100)) [([1], 9, 0), ([2], 9, 0)] = Some rs
    \<and> list_all2 (answers ?kvs) [([1], 9, 0), ([2], 9, 0)] rs"
    by (rule table_lookup_correct [OF w nn ll tf]) (simp_all add: maxIKeySeq_def push_bit_eq_mult)
  with w show ?thesis by blast
qed

text \<open>
  C31.  A scan of a finished table returns exactly the entries added, in order,
  then ends without an error; its range tombstones are the ones set; and the
  integrity check over every block passes.
\<close>

theorem table_scan_correct:
  assumes "write_table lib cfg w kvs rts = (Inr n, tw)" "f_data w = []" "lossless lib" "table_fits cfg kvs rts"
    and "\<forall>rt\<in>set rts. wf_rangeDel rt"
  shows "\<exists>tr it. newTableReaderOpt lib (ReadAt (dst_data (tw_w tw))) n num lazy = Inr tr
    \<and> ti_scan lib (Suc (length kvs)) tr tr_newIterator = (kvs, True, it) \<and> ti_err it = None
    \<and> fst (rangeTombstones lib tr) = Inr rts \<and> tr_verify lib tr = Inr ()"
proof -
  obtain blks where ok: "table_ok lib cfg kvs rts blks (dst_data (tw_w tw))" and n: "n = int (length (dst_data (tw_w tw)))"
    using written_table_ok [OF assms(1-5)] by blast
  obtain tr where tr: "newTableReaderOpt lib (ReadAt (dst_data (tw_w tw))) n num lazy = Inr tr"
    and op: "opened lib cfg kvs rts blks (dst_data (tw_w tw)) tr"
    using open_ok [OF ok, of num lazy] n by blast
  obtain it where "ti_scan lib (Suc (length kvs)) tr tr_newIterator = (kvs, True, it)" "ti_err it = None"
    using ti_scan_ok [OF op at_entries_new [OF op], of "Suc (length kvs)"] by (auto simp: tr_newIterator_def)
  moreover have "fst (rangeTombstones lib tr) = Inr rts"
    using ensureMeta_opened [OF op] by (auto simp: rangeTombstones_def meta_of_def Let_def)
  ultimately show ?thesis using tr tr_verify_ok [OF op] by blast
qed

theorem table_scan_correct_witness:
  "\<exists>n tw tr it. write_table idLib \<lparr>cfg_codec = zstdCodec, cfg_bloomBits = 1, cfg_blockSize = 20\<rparr> \<lparr>f_data = [], f_sched = []\<rparr>
        [(ikeyEncode [] [1] 2 1, [7])] [] = (Inr n, tw)
    \<and> newTableReaderOpt idLib (ReadAt (dst_data (tw_w tw))) n 5 False = Inr tr
    \<and> ti_scan idLib 2 tr tr_newIterator = ([(ikeyEncode [] [1] 2 1, [7])], True, it) \<and> ti_err it = None"
proof -
  let ?kvs = "[(ikeyEncode [] [1] 2 1, [7])]"
  let ?cfg = "\<lparr>cfg_codec = zstdCodec, cfg_bloomBits = 1, cfg_blockSize = 20\<rparr>"
  let ?w = "\<lparr>f_data = [], f_sched = []\<rparr>"
  have "list_all wf_kv ?kvs" "sorted_entries ?kvs"
    by (simp_all add: wf_kv_def sorted_entries_def maxIKeySeq_def push_bit_eq_mult validIKeyKind_def ikeyKind_defs)
  then obtain n tw where w: "write_table idLib ?cfg ?w ?kvs [] = (Inr n, tw)"
    using write_table_healthy [of ?w ?kvs idLib ?cfg "[]"] by (cases "write_table idLib ?cfg ?w ?kvs []") auto
  have ll: "lossless idLib" by (simp add: lossless_def idLib_def)
  have "pow2Bytes 1 = 8" by code_simp
  moreover have "length (encodeRangeDelBlock [] []) = 1" by code_simp
  ultimately have tf: "table_fits ?cfg ?kvs []" by (simp add: table_fits_def newBloom_def)
  have nn: "f_data ?w = []" by simp
  have two: "Suc (length ?kvs) = 2" by simp
  from table_scan_correct [OF w nn ll tf, of 5 False, unfolded two] w show ?thesis by simp blast
qed

text \<open>
  C32.  Writing a table makes progress: when the file accepts every write, adding
  any strictly ascending run of well-formed entries and finishing succeeds, for
  every codec, block size, bloom setting and set of range tombstones.
\<close>

theorem write_table_succeeds:
  assumes "f_sched w = []" "list_all wf_kv kvs" "sorted_entries kvs"
  shows "\<exists>n. fst (write_table lib cfg w kvs rts) = Inr n"
  using assms by (rule write_table_healthy)

theorem write_table_succeeds_witness:
  "\<exists>n. fst (write_table idLib \<lparr>cfg_codec = noneCodec, cfg_bloomBits = 10, cfg_blockSize = 0\<rparr> \<lparr>f_data = [], f_sched = []\<rparr>
     [(ikeyEncode [] [1] 2 1, [7]), (ikeyEncode [] [2] 1 0, [])] []) = Inr n"
  by (rule write_table_succeeds)
    (simp_all add: wf_kv_def sorted_entries_def ikeyCompare_lt maxIKeySeq_def push_bit_eq_mult validIKeyKind_def ikeyKind_defs)

end
