(* ===== verification/Engine.thy ===== *)
theory Engine
  imports Level_Index Memtable Alloc Table_Scan
begin

text \<open>
  The storage engine (\<^verbatim>\<open>engine.go\<close>), first part: its configuration and state, the writes
  into the active memtable, the counters, and the point-read path over memtables, the
  level index and the tables.  An operation under the engine lock is one step on the
  state.  The block cache is part of the state, since every table read goes through it; the
  parsed metadata that a reader keeps is a function of its file, so keeping it or not
  changes no result and it is not written back.  A nil slice in a result is the empty list.
  Blob files are named by their number.  A call of a nil function is \<open>GoPanic\<close>.
\<close>

section \<open>State\<close>

record engineConfigT =
  cf_MemtableSize :: int
  cf_BloomBits :: int
  cf_BlockSize :: int
  cf_MaxLevels :: "8 word"
  cf_FreshCodecName :: string
  cf_LevelCodecs :: "string list"
  cf_LazyTableMetadata :: bool
  cf_ValueThreshold :: int
  cf_BlobFileSize :: int
  cf_blobPath :: "(u32 \<Rightarrow> string result) option"

record engineT =
  en_cfg :: engineConfigT
  en_alloc :: allocatorT
  en_tablePath :: "u32 \<Rightarrow> string result"
  en_mem :: memtableT
  en_imm :: "memtableT option"
  en_recoveryMems :: "memtableT list"
  en_tables :: "tableMeta list"
  en_index :: levelIndex
  en_seed :: "nat \<Rightarrow> nat"
  en_cache :: "blockCacheT option"
  en_blobs :: blobfs
  en_pointReads :: int
  en_tableProbes :: int
  en_bloomFalsePositives :: int

definition newEngine ::
  "engineConfigT \<Rightarrow> allocatorT \<Rightarrow> (u32 \<Rightarrow> string result) \<Rightarrow> (nat \<Rightarrow> nat) \<Rightarrow> blockCacheT option \<Rightarrow> blobfs \<Rightarrow> engineT" where
  "newEngine cfg alloc tablePath engineSeed cache fs =
     \<lparr>en_cfg = cfg, en_alloc = alloc, en_tablePath = tablePath, en_mem = newMemtable engineSeed, en_imm = None,
      en_recoveryMems = [], en_tables = [], en_index = buildLevelIndex [], en_seed = engineSeed, en_cache = cache,
      en_blobs = fs, en_pointReads = 0, en_tableProbes = 0, en_bloomFalsePositives = 0\<rparr>"

definition valueSeparationOn :: "engineT \<Rightarrow> bool" where
  "valueSeparationOn e \<longleftrightarrow> 0 < cf_ValueThreshold (en_cfg e) \<and> cf_blobPath (en_cfg e) \<noteq> None"

definition setTables :: "tableMeta list \<Rightarrow> engineT \<Rightarrow> engineT" where
  "setTables tables e = e\<lparr>en_tables := tables, en_index := buildLevelIndex tables\<rparr>"

definition rebuildIndex :: "engineT \<Rightarrow> engineT" where
  "rebuildIndex e = e\<lparr>en_index := buildLevelIndex (en_tables e)\<rparr>"

definition en_Put :: "u64 \<Rightarrow> bytes \<Rightarrow> bytes \<Rightarrow> engineT \<Rightarrow> engineT option" where
  "en_Put seq key val e = Option.bind (mt_Put seq key val (en_mem e)) (\<lambda>m. Some (e\<lparr>en_mem := m\<rparr>))"

definition en_putTTL :: "u64 \<Rightarrow> bytes \<Rightarrow> bytes \<Rightarrow> int \<Rightarrow> engineT \<Rightarrow> engineT option" where
  "en_putTTL seq key val expiresAt e =
     Option.bind (mt_putTTL seq key val expiresAt (en_mem e)) (\<lambda>m. Some (e\<lparr>en_mem := m\<rparr>))"

definition en_del :: "u64 \<Rightarrow> bytes \<Rightarrow> engineT \<Rightarrow> engineT option" where
  "en_del seq key e = Option.bind (mt_del seq key (en_mem e)) (\<lambda>m. Some (e\<lparr>en_mem := m\<rparr>))"

definition en_delRange :: "u64 \<Rightarrow> bytes \<Rightarrow> bytes \<Rightarrow> engineT \<Rightarrow> engineT" where
  "en_delRange seq start end' e = e\<lparr>en_mem := mt_delRange seq start end' (en_mem e)\<rparr>"

section \<open>Counters\<close>

definition memEmpty :: "engineT \<Rightarrow> bool" where "memEmpty e = mt_empty (en_mem e)"
definition memSize :: "engineT \<Rightarrow> int" where "memSize e = mt_Size (en_mem e)"
definition memCount :: "engineT \<Rightarrow> nat" where "memCount e = mt_Len (en_mem e)"

definition needFlush :: "engineT \<Rightarrow> bool" where
  "needFlush e \<longleftrightarrow> en_imm e = None \<and> cf_MemtableSize (en_cfg e) \<le> mt_Size (en_mem e)"

definition tierTableCount :: "nat \<Rightarrow> engineT \<Rightarrow> nat" where
  "tierTableCount depth e = foldl (\<lambda>n t. if tb_depth t = depth then n + 1 else n) 0 (en_tables e)"

definition depth0Count :: "engineT \<Rightarrow> nat" where
  "depth0Count e = foldl (\<lambda>n t. if tb_depth t = 0 then n + 1 else n) 0 (en_tables e)"

definition maxPopulatedDepth :: "engineT \<Rightarrow> nat" where
  "maxPopulatedDepth e = foldl (\<lambda>d t. if d < tb_depth t then tb_depth t else d) 0 (en_tables e)"

definition tierTableStats :: "nat \<Rightarrow> engineT \<Rightarrow> nat \<times> int" where
  "tierTableStats depth e =
     foldl (\<lambda>(count, bytes) t. if tb_depth t = depth then (count + 1, bytes + tb_size t) else (count, bytes)) (0, 0) (en_tables e)"

definition newestTable :: "engineT \<Rightarrow> u32 \<times> nat \<times> int" where
  "newestTable e =
     (if length (en_tables e) = 0 then (0, 0, 0)
      else let t = en_tables e ! (length (en_tables e) - 1) in (tb_num t, tb_entries t, tb_size t))"

section \<open>The newest visible version\<close>

record versionPick =
  vp_value :: bytes
  vp_seq :: u64
  vp_found :: bool
  vp_deleted :: bool
  vp_expiresAt :: int
  vp_blobPtr :: "blobPointer option"

definition noPick :: versionPick where
  "noPick = \<lparr>vp_value = [], vp_seq = 0, vp_found = False, vp_deleted = False, vp_expiresAt = 0, vp_blobPtr = None\<rparr>"

definition vp_set :: "bytes \<Rightarrow> u64 \<Rightarrow> bool \<Rightarrow> int \<Rightarrow> versionPick" where
  "vp_set v seq deleted expiresAt =
     \<lparr>vp_value = v, vp_seq = seq, vp_found = True, vp_deleted = deleted, vp_expiresAt = expiresAt, vp_blobPtr = None\<rparr>"

definition vp_setBlob :: "blobPointer \<Rightarrow> u64 \<Rightarrow> int \<Rightarrow> versionPick" where
  "vp_setBlob ptr seq expiresAt =
     \<lparr>vp_value = [], vp_seq = seq, vp_found = True, vp_deleted = False, vp_expiresAt = expiresAt, vp_blobPtr = Some ptr\<rparr>"

definition vp_merge :: "bytes \<Rightarrow> u64 \<Rightarrow> bool \<Rightarrow> int \<Rightarrow> versionPick \<Rightarrow> error option \<times> versionPick" where
  "vp_merge v seq deleted expiresAt p =
     (if \<not> vp_found p \<or> vp_seq p < seq then (None, vp_set v seq deleted expiresAt)
      else if seq = vp_seq p \<and> (deleted \<noteq> vp_deleted p \<or> (\<not> deleted \<and> v \<noteq> vp_value p))
      then (Some (Errorf ''conflicting versions for key at sequence''), p)
      else (None, p))"

definition vp_mergeBlob :: "blobPointer \<Rightarrow> u64 \<Rightarrow> int \<Rightarrow> versionPick \<Rightarrow> versionPick" where
  "vp_mergeBlob ptr seq expiresAt p = (if \<not> vp_found p \<or> vp_seq p < seq then vp_setBlob ptr seq expiresAt else p)"

text \<open>Folding the answers of the flushing and the recovery memtables.\<close>

fun pick_mems :: "u64 \<Rightarrow> bytes \<Rightarrow> int \<Rightarrow> memtableT list \<Rightarrow> versionPick \<Rightarrow> versionPick result option" where
  "pick_mems seq key now [] best = Some (Inr best)"
| "pick_mems seq key now (m # ms) best =
     Option.bind (getVersionAt seq key now m) (\<lambda>(v, vseq, f, d, exp).
       if f then (case vp_merge v vseq d exp best of
                    (Some err, _) \<Rightarrow> Some (Inl err)
                  | (None, best) \<Rightarrow> pick_mems seq key now ms best)
       else pick_mems seq key now ms best)"

type_synonym pickState = "versionPick \<times> blockCacheT option \<times> int \<times> int"

definition pick_visit :: "codecLib \<Rightarrow> (bytes \<Rightarrow> u64) \<Rightarrow> u64 \<Rightarrow> bytes \<Rightarrow> int \<Rightarrow> pickState visitor" where
  "pick_visit lib hash seq key now table st =
     (case st of (best, cache, probed, bloomFP) \<Rightarrow>
       let probed = probed + 1
       in Option.bind (lookupAtTime lib hash (tb_reader table) key seq now cache) (\<lambda>(r, _, cache).
         case r of Inl gerr \<Rightarrow> Some (Some gerr, best, cache, probed, bloomFP)
         | Inr r \<Rightarrow>
           let bloomFP = (if lr_bloomPassed r \<and> \<not> lr_found r then bloomFP + 1 else bloomFP)
           in if \<not> lr_found r then Some (None, best, cache, probed, bloomFP)
           else case lr_blobPtr r of
                  Some ptr \<Rightarrow> Some (None, vp_mergeBlob ptr (lr_versionSeq r) (lr_expiresAt r) best, cache, probed, bloomFP)
                | None \<Rightarrow>
                  let (err, best) = vp_merge (lr_value r) (lr_versionSeq r) (lr_deleted r) (lr_expiresAt r) best
                  in Some (err, best, cache, probed, bloomFP)))"

definition pickVersion ::
  "codecLib \<Rightarrow> (bytes \<Rightarrow> u64) \<Rightarrow> u64 \<Rightarrow> bytes \<Rightarrow> int \<Rightarrow> engineT \<Rightarrow> (versionPick result \<times> engineT) option" where
  "pickVersion lib hash seq key now e =
     Option.bind (getVersionAt seq key now (en_mem e)) (\<lambda>(v, vseq, f, d, exp).
     let best = (if f then vp_set v vseq d exp else noPick)
     in Option.bind (pick_mems seq key now (case en_imm e of None \<Rightarrow> [] | Some m \<Rightarrow> [m]) best) (\<lambda>r.
     case r of Inl err \<Rightarrow> Some (Inl err, e)
     | Inr best \<Rightarrow> Option.bind (pick_mems seq key now (en_recoveryMems e) best) (\<lambda>r.
     case r of Inl err \<Rightarrow> Some (Inl err, e)
     | Inr best \<Rightarrow>
       Option.bind (candidates (en_index e) key (pick_visit lib hash seq key now) (best, en_cache e, 0, 0))
         (\<lambda>(err, best, cache, probed, bloomFP).
         let e = e\<lparr>en_cache := cache, en_pointReads := en_pointReads e + 1, en_tableProbes := en_tableProbes e + probed,
                   en_bloomFalsePositives := en_bloomFalsePositives e + bloomFP\<rparr>
         in case err of Some err \<Rightarrow> Some (Inl err, e) | None \<Rightarrow> Some (Inr best, e)))))"

text \<open>The local function \<open>consider\<close> of \<open>maxCoveringRangeDelSeq\<close>.\<close>

fun consider_rts :: "bytes \<Rightarrow> u64 \<Rightarrow> rangeTombstone list \<Rightarrow> u64 \<Rightarrow> u64" where
  "consider_rts key readSeq [] best = best"
| "consider_rts key readSeq (rt # rts) best =
     consider_rts key readSeq rts (if rt_seq rt \<le> readSeq \<and> best < rt_seq rt \<and> rt_contains rt key then rt_seq rt else best)"

fun consider_tables :: "codecLib \<Rightarrow> bytes \<Rightarrow> u64 \<Rightarrow> tableMeta list \<Rightarrow> u64 \<Rightarrow> u64 result" where
  "consider_tables lib key readSeq [] best = Inr best"
| "consider_tables lib key readSeq (t # ts) best =
     (if \<not> mayContain t key then consider_tables lib key readSeq ts best
      else case fst (rangeTombstones lib (tb_reader t)) of Inl err \<Rightarrow> Inl err
           | Inr rts \<Rightarrow> consider_tables lib key readSeq ts (consider_rts key readSeq rts best))"

definition maxCoveringRangeDelSeq :: "codecLib \<Rightarrow> bytes \<Rightarrow> u64 \<Rightarrow> engineT \<Rightarrow> u64 result" where
  "maxCoveringRangeDelSeq lib key readSeq e =
     (let best = consider_rts key readSeq (mt_rangeTombstones (en_mem e)) 0;
          best = (case en_imm e of None \<Rightarrow> best | Some m \<Rightarrow> consider_rts key readSeq (mt_rangeTombstones m) best);
          best = foldl (\<lambda>best m. consider_rts key readSeq (mt_rangeTombstones m) best) best (en_recoveryMems e)
      in consider_tables lib key readSeq (en_tables e) best)"

definition resolveBlob :: "engineT \<Rightarrow> blobPointer \<Rightarrow> bytes result" where
  "resolveBlob e p =
     (case cf_blobPath (en_cfg e) of None \<Rightarrow> Inl (GoPanic ''nil blobPath'')
      | Some path \<Rightarrow> try_then (path (bp_num p)) (\<lambda>_.
          case blobs (en_blobs e) (bp_num p) of None \<Rightarrow> Inl IoError | Some file \<Rightarrow> blob_read file p))"

section \<open>Point reads\<close>

definition getWithExpiry ::
  "codecLib \<Rightarrow> (bytes \<Rightarrow> u64) \<Rightarrow> u64 \<Rightarrow> bytes \<Rightarrow> int \<Rightarrow> engineT \<Rightarrow> ((bytes \<times> int \<times> bool) result \<times> engineT) option" where
  "getWithExpiry lib hash seq key now e =
     Option.bind (pickVersion lib hash seq key now e) (\<lambda>(r, e). Some (
       try_then r (\<lambda>best.
         if \<not> vp_found best \<or> vp_deleted best then Inr ([], 0, False)
         else try_then (maxCoveringRangeDelSeq lib key seq e) (\<lambda>rdSeq.
           if vp_seq best < rdSeq then Inr ([], 0, False)
           else case vp_blobPtr best of
                  Some p \<Rightarrow> try_then (resolveBlob e p) (\<lambda>v. Inr (v, vp_expiresAt best, True))
                | None \<Rightarrow> Inr (vp_value best, vp_expiresAt best, True))), e))"

definition getAtTime ::
  "codecLib \<Rightarrow> (bytes \<Rightarrow> u64) \<Rightarrow> u64 \<Rightarrow> bytes \<Rightarrow> int \<Rightarrow> engineT \<Rightarrow> ((bytes \<times> bool \<times> bool) result \<times> engineT) option" where
  "getAtTime lib hash seq key now e =
     Option.bind (pickVersion lib hash seq key now e) (\<lambda>(r, e). Some (
       try_then r (\<lambda>best.
         try_then (if vp_found best \<and> \<not> vp_deleted best then
                     try_then (maxCoveringRangeDelSeq lib key seq e) (\<lambda>rdSeq.
                       if vp_seq best < rdSeq then Inr ([], True) else Inr (vp_value best, vp_deleted best))
                   else Inr (vp_value best, vp_deleted best)) (\<lambda>(bestValue, bestDeleted).
           if vp_found best then
             (case vp_blobPtr best of
                Some p \<Rightarrow> if \<not> bestDeleted then try_then (resolveBlob e p) (\<lambda>v. Inr (v, True, False))
                          else Inr (bestValue, True, bestDeleted)
              | None \<Rightarrow> Inr (bestValue, True, bestDeleted))
           else Inr ([], False, False))), e))"

record batchKey =
  bk_key :: bytes
  bk_value :: bytes
  bk_expiresAt :: int
  bk_found :: bool

fun getMany_loop ::
  "codecLib \<Rightarrow> (bytes \<Rightarrow> u64) \<Rightarrow> u64 \<Rightarrow> int \<Rightarrow> batchKey list \<Rightarrow> engineT \<Rightarrow> (batchKey list result \<times> engineT) option" where
  "getMany_loop lib hash seq now [] e = Some (Inr [], e)"
| "getMany_loop lib hash seq now (k # ks) e =
     Option.bind (pickVersion lib hash seq (bk_key k) now e) (\<lambda>(r, e).
     let k1 = try_then r (\<lambda>best.
       if \<not> vp_found best \<or> vp_deleted best then Inr k
       else try_then (maxCoveringRangeDelSeq lib (bk_key k) seq e) (\<lambda>rdSeq.
         if vp_seq best < rdSeq then Inr k
         else case vp_blobPtr best of
                Some p \<Rightarrow> try_then (resolveBlob e p) (\<lambda>v. Inr (k\<lparr>bk_value := v, bk_expiresAt := vp_expiresAt best, bk_found := True\<rparr>))
              | None \<Rightarrow> Inr (k\<lparr>bk_value := vp_value best, bk_expiresAt := vp_expiresAt best, bk_found := True\<rparr>)))
     in case k1 of Inl err \<Rightarrow> Some (Inl err, e)
        | Inr k \<Rightarrow> Option.bind (getMany_loop lib hash seq now ks e) (\<lambda>(ks, e).
            Some (try_then ks (\<lambda>ks. Inr (k # ks)), e)))"

definition getManyWithExpiry ::
  "codecLib \<Rightarrow> (bytes \<Rightarrow> u64) \<Rightarrow> u64 \<Rightarrow> int \<Rightarrow> batchKey list \<Rightarrow> engineT \<Rightarrow> (batchKey list result \<times> engineT) option" where
  "getManyWithExpiry lib hash seq now keys e = getMany_loop lib hash seq now keys e"

text \<open>The newest version without its value: sequence, found, deleted.\<close>

type_synonym hasPick = "u64 \<times> bool \<times> bool"

definition has_merge :: "u64 \<Rightarrow> bool \<Rightarrow> hasPick \<Rightarrow> error option \<times> hasPick" where
  "has_merge vseq d best =
     (case best of (bestSeq, bestFound, bestDeleted) \<Rightarrow>
       if \<not> bestFound \<or> bestSeq < vseq then (None, vseq, True, d)
       else if vseq = bestSeq \<and> d \<noteq> bestDeleted then (Some (Errorf ''conflicting kinds for key at sequence''), best)
       else (None, best))"

fun has_mems :: "u64 \<Rightarrow> bytes \<Rightarrow> int \<Rightarrow> memtableT list \<Rightarrow> hasPick \<Rightarrow> hasPick result option" where
  "has_mems seq key now [] best = Some (Inr best)"
| "has_mems seq key now (m # ms) best =
     Option.bind (getVersionAt seq key now m) (\<lambda>(_, vseq, f, d, _).
       if f then (case has_merge vseq d best of
                    (Some err, _) \<Rightarrow> Some (Inl err)
                  | (None, best) \<Rightarrow> has_mems seq key now ms best)
       else has_mems seq key now ms best)"

definition has_visit ::
  "codecLib \<Rightarrow> (bytes \<Rightarrow> u64) \<Rightarrow> u64 \<Rightarrow> bytes \<Rightarrow> int \<Rightarrow> (hasPick \<times> blockCacheT option \<times> int \<times> int) visitor" where
  "has_visit lib hash seq key now table st =
     (case st of (best, cache, probed, bloomFP) \<Rightarrow>
       let probed = probed + 1
       in Option.bind (hasVersionAtTime lib hash (tb_reader table) key seq now cache) (\<lambda>(r, _, cache).
         case r of Inl gerr \<Rightarrow> Some (Some gerr, best, cache, probed, bloomFP)
         | Inr (vseq, f, d, bloomPassed) \<Rightarrow>
           let bloomFP = (if bloomPassed \<and> \<not> f then bloomFP + 1 else bloomFP)
           in if \<not> f then Some (None, best, cache, probed, bloomFP)
           else let (err, best) = has_merge vseq d best in Some (err, best, cache, probed, bloomFP)))"

definition hasAtTime ::
  "codecLib \<Rightarrow> (bytes \<Rightarrow> u64) \<Rightarrow> u64 \<Rightarrow> bytes \<Rightarrow> int \<Rightarrow> engineT \<Rightarrow> ((bool \<times> bool) result \<times> engineT) option" where
  "hasAtTime lib hash seq key now e =
     Option.bind (getVersionAt seq key now (en_mem e)) (\<lambda>(_, vseq, f, d, _).
     let best = (if f then (vseq, True, d) else (0, False, False))
     in Option.bind (has_mems seq key now (case en_imm e of None \<Rightarrow> [] | Some m \<Rightarrow> [m]) best) (\<lambda>r.
     case r of Inl err \<Rightarrow> Some (Inl err, e)
     | Inr best \<Rightarrow> Option.bind (has_mems seq key now (en_recoveryMems e) best) (\<lambda>r.
     case r of Inl err \<Rightarrow> Some (Inl err, e)
     | Inr best \<Rightarrow>
       Option.bind (candidates (en_index e) key (has_visit lib hash seq key now) (best, en_cache e, 0, 0))
         (\<lambda>(err, (bestSeq, bestFound, bestDeleted), cache, probed, bloomFP).
         let e = e\<lparr>en_cache := cache, en_pointReads := en_pointReads e + 1, en_tableProbes := en_tableProbes e + probed,
                   en_bloomFalsePositives := en_bloomFalsePositives e + bloomFP\<rparr>
         in case err of Some err \<Rightarrow> Some (Inl err, e)
            | None \<Rightarrow>
              if bestFound \<and> \<not> bestDeleted then
                Some (try_then (maxCoveringRangeDelSeq lib key seq e) (\<lambda>rdSeq.
                        Inr (bestFound, if bestSeq < rdSeq then True else bestDeleted)), e)
              else Some (Inr (bestFound, bestDeleted), e)))))"

end
