(* ===== verification/Engine_Read.thy ===== *)
theory Engine_Read
  imports Engine
begin

text \<open>
  Correctness of the point-read path.  The contents of an engine are the versions of its
  memtables and tables together with all their range tombstones (\<open>engine_view\<close>); every read
  resolves the newest version of the key visible at its sequence over all of them, and a newer
  range tombstone that covers the key hides it.  The scan over the sources is a fold whose
  invariant is \<open>picked\<close>.
\<close>

section \<open>Versions\<close>

definition versionOf :: "bytes \<times> bytes \<Rightarrow> int \<Rightarrow> lookupResult result" where
  "versionOf x now = versionResult (ikeySeq (fst x)) (ikeyKindOf (fst x)) (snd x) now"

definition wf_value :: "bytes \<times> bytes \<Rightarrow> bool" where
  "wf_value x \<longleftrightarrow> (ikeyKindOf (fst x) = ikeyKindSetTTL \<longrightarrow> (\<exists>v d. decodeExpiringValue (snd x) = Inr (v, d)))
     \<and> (ikeyKindOf (fst x) = ikeyKindBlobRef \<longrightarrow> (\<exists>p. decodeBlobPointer (snd x) = Inr p))"

definition newest :: "(bytes \<times> bytes) set \<Rightarrow> bytes \<Rightarrow> u64 \<Rightarrow> bytes \<times> bytes \<Rightarrow> bool" where
  "newest A u s x \<longleftrightarrow> x \<in> A \<and> visible u s x \<and> (\<forall>y\<in>A. visible u s y \<longrightarrow> ikeySeq (fst y) \<le> ikeySeq (fst x))"

text \<open>No sequence is used for two versions of one key.\<close>

definition unique_versions :: "(bytes \<times> bytes) set \<Rightarrow> bool" where
  "unique_versions A \<longleftrightarrow>
     (\<forall>x\<in>A. \<forall>y\<in>A. ikeyUserKey (fst x) = ikeyUserKey (fst y) \<and> ikeySeq (fst x) = ikeySeq (fst y) \<longrightarrow> x = y)"

definition pick_of :: "lookupResult \<Rightarrow> versionPick" where
  "pick_of r = \<lparr>vp_value = lr_value r, vp_seq = lr_versionSeq r, vp_found = True, vp_deleted = lr_deleted r,
     vp_expiresAt = lr_expiresAt r, vp_blobPtr = lr_blobPtr r\<rparr>"

definition picked :: "(bytes \<times> bytes) set \<Rightarrow> bytes \<Rightarrow> u64 \<Rightarrow> int \<Rightarrow> versionPick \<Rightarrow> bool" where
  "picked A u s now p \<longleftrightarrow> (if \<exists>x\<in>A. visible u s x then \<exists>x r. newest A u s x \<and> versionOf x now = Inr r \<and> p = pick_of r
     else p = noPick)"

lemma versionOf_fields:
  assumes "versionOf x now = Inr r"
  shows "lr_found r" "lr_versionSeq r = ikeySeq (fst x)" "\<not> lr_bloomPassed r" "lr_deleted r \<Longrightarrow> lr_value r = [] \<and> lr_blobPtr r = None"
    "lr_blobPtr r = Some b \<Longrightarrow> lr_value r = [] \<and> \<not> lr_deleted r"
  using assms
  by (auto simp: versionOf_def versionResult_def Let_def lookupMiss_def split: if_splits sum.splits)

lemma versionOf_ok: "wf_value x \<Longrightarrow> \<exists>r. versionOf x now = Inr r"
  by (auto simp: versionOf_def wf_value_def versionResult_def Let_def)

lemma unique_versions_subset: "unique_versions A \<Longrightarrow> B \<subseteq> A \<Longrightarrow> unique_versions B"
  unfolding unique_versions_def by blast

lemma lookup_spec_found:
  assumes "sorted_versions es" "lookup_spec es u s now = Inr r" "\<exists>x\<in>set es. visible u s x"
  shows "\<exists>x. newest (set es) u s x \<and> versionOf x now = Inr r"
proof -
  obtain x where x: "find (visible u s) es = Some x" using assms(3) find_None_iff [of "visible u s" es] by (cases "find (visible u s) es") auto
  note f = find_visible_newest [OF assms(1) x]
  have "newest (set es) u s x" using f trailer_le_seq unfolding newest_def by blast
  moreover have "versionOf x now = Inr r" using assms(2) x by (simp add: lookup_spec_def versionOf_def split_beta)
  ultimately show ?thesis by blast
qed

lemma lookup_spec_missing:
  "lookup_spec es u s now = Inr r \<Longrightarrow> \<not> (\<exists>x\<in>set es. visible u s x) \<Longrightarrow> r = lookupMiss"
proof -
  assume a: "lookup_spec es u s now = Inr r" "\<not> (\<exists>x\<in>set es. visible u s x)"
  then have "find (visible u s) es = None" by (auto simp: find_None_iff)
  then show ?thesis using a(1) by (simp add: lookup_spec_def)
qed

section \<open>Folding one source\<close>

definition vp_fold :: "lookupResult \<Rightarrow> versionPick \<Rightarrow> error option \<times> versionPick" where
  "vp_fold r p =
     (if \<not> lr_found r then (None, p)
      else case lr_blobPtr r of Some b \<Rightarrow> (None, vp_mergeBlob b (lr_versionSeq r) (lr_expiresAt r) p)
           | None \<Rightarrow> vp_merge (lr_value r) (lr_versionSeq r) (lr_deleted r) (lr_expiresAt r) p)"

text \<open>The same without the value, as \<open>hasAtTime\<close> folds.\<close>

definition has_fold :: "lookupResult \<Rightarrow> hasPick \<Rightarrow> error option \<times> hasPick" where
  "has_fold r h = (if \<not> lr_found r then (None, h) else has_merge (lr_versionSeq r) (lr_deleted r) h)"

definition has_of :: "versionPick \<Rightarrow> hasPick" where
  "has_of p = (vp_seq p, vp_found p, vp_deleted p)"

lemma newest_union:
  "newest A u s x \<Longrightarrow> \<forall>y\<in>B. visible u s y \<longrightarrow> ikeySeq (fst y) \<le> ikeySeq (fst x) \<Longrightarrow> newest (A \<union> B) u s x"
  by (auto simp: newest_def)

lemma pickedI: "newest A u s x \<Longrightarrow> versionOf x now = Inr r \<Longrightarrow> picked A u s now (pick_of r)"
  unfolding picked_def newest_def by metis

lemma pickedE:
  assumes "picked A u s now p" "\<exists>x\<in>A. visible u s x"
  obtains x r where "newest A u s x" "versionOf x now = Inr r" "p = pick_of r"
  using assms unfolding picked_def by metis

lemma picked_none: "picked A u s now p \<Longrightarrow> \<forall>y\<in>B. \<not> visible u s y \<Longrightarrow> picked (A \<union> B) u s now p"
  unfolding picked_def newest_def by (auto split: if_splits)

lemma vp_fold_keep:
  assumes "vp_found p" "lr_versionSeq r < vp_seq p \<or> lr_versionSeq r = vp_seq p \<and> p = pick_of r"
  shows "vp_fold r p = (None, p) \<and> has_fold r (has_of p) = (None, has_of p)"
  using assms
  by (auto simp: vp_fold_def has_fold_def has_of_def has_merge_def vp_mergeBlob_def vp_merge_def pick_of_def split: option.split)

lemma vp_fold_take:
  assumes "\<not> vp_found p \<or> vp_seq p < lr_versionSeq r" "versionOf x now = Inr r"
  shows "vp_fold r p = (None, pick_of r) \<and> has_fold r (has_of p) = (None, has_of (pick_of r))"
  using assms versionOf_fields [OF assms(2)]
  by (auto simp: vp_fold_def has_fold_def has_of_def has_merge_def vp_mergeBlob_def vp_merge_def pick_of_def vp_set_def vp_setBlob_def split: option.split)

lemma vp_fold_ok:
  assumes p: "picked A u s now p" and es: "sorted_versions es" "lookup_spec es u s now = Inr r"
    and un: "unique_versions (A \<union> set es)"
  shows "\<exists>p'. vp_fold r p = (None, p') \<and> has_fold r (has_of p) = (None, has_of p') \<and> picked (A \<union> set es) u s now p'"
proof (cases "\<exists>x\<in>set es. visible u s x")
  case False
  then have "r = lookupMiss" using lookup_spec_missing [OF es(2)] by blast
  then have "vp_fold r p = (None, p)" "has_fold r (has_of p) = (None, has_of p)"
    by (simp_all add: vp_fold_def has_fold_def lookupMiss_def)
  then show ?thesis using picked_none [OF p] False by auto
next
  case True
  then obtain x where x: "newest (set es) u s x" "versionOf x now = Inr r" using lookup_spec_found [OF es] by blast
  note rx = versionOf_fields [OF x(2)]
  show ?thesis
  proof (cases "\<exists>x\<in>A. visible u s x")
    case False
    then have "newest (A \<union> set es) u s x" using x(1) by (auto simp: newest_def)
    moreover have "\<not> vp_found p" using p False by (simp add: picked_def noPick_def)
    ultimately show ?thesis using vp_fold_take [OF _ x(2)] pickedI [OF _ x(2)] by blast
  next
    case A: True
    then obtain y r0 where y: "newest A u s y" "versionOf y now = Inr r0" "p = pick_of r0" using pickedE [OF p A] by blast
    note ry = versionOf_fields [OF y(2)]
    have py: "vp_found p" "vp_seq p = ikeySeq (fst y)" using y(3) ry by (simp_all add: pick_of_def)
    have yA: "y \<in> A" "visible u s y" and xE: "x \<in> set es" "visible u s x" using y(1) x(1) by (simp_all add: newest_def)
    consider "ikeySeq (fst y) < ikeySeq (fst x)" | "ikeySeq (fst x) < ikeySeq (fst y)" | "ikeySeq (fst x) = ikeySeq (fst y)"
      by fastforce
    then show ?thesis
    proof cases
      case 1
      then have "newest (set es \<union> A) u s x" using x(1) y(1) by (intro newest_union) (auto simp: newest_def)
      then have "newest (A \<union> set es) u s x" by (simp add: Un_commute)
      moreover have "vp_fold r p = (None, pick_of r) \<and> has_fold r (has_of p) = (None, has_of (pick_of r))" using 1 py rx(2) by (intro vp_fold_take [OF _ x(2)]) simp
      ultimately show ?thesis using pickedI [OF _ x(2)] by blast
    next
      case 2
      then have "newest (A \<union> set es) u s y" using x(1) y(1) by (intro newest_union) (auto simp: newest_def)
      moreover have "vp_fold r p = (None, p) \<and> has_fold r (has_of p) = (None, has_of p)" using 2 py rx(2) by (intro vp_fold_keep) simp_all
      ultimately show ?thesis using pickedI [OF _ y(2)] y(3) by blast
    next
      case 3
      have "y = x" using un yA xE 3 unfolding unique_versions_def by (auto simp: visible_def)
      then have "r0 = r" using x(2) y(2) by simp
      then have "vp_fold r p = (None, p) \<and> has_fold r (has_of p) = (None, has_of p)" using py rx(2) y(3) 3 by (intro vp_fold_keep) simp_all
      moreover have "newest (A \<union> set es) u s y" using x(1) y(1) 3 by (intro newest_union) (auto simp: newest_def)
      ultimately show ?thesis using pickedI [OF _ y(2)] y(3) by blast
    qed
  qed
qed

lemma pick_mems_ok:
  assumes "list_all2 mt_holds ms ess" "picked A u s now p" "s \<le> maxIKeySeq" "unique_versions (A \<union> (\<Union>es\<in>set ess. set es))"
  shows "\<exists>p'. pick_mems s u now ms p = Some (Inr p') \<and> has_mems s u now ms (has_of p) = Some (Inr (has_of p')) \<and> picked (A \<union> (\<Union>es\<in>set ess. set es)) u s now p'"
  using assms
proof (induction ms ess arbitrary: A p rule: list_all2_induct)
  case (Cons m ms es ess)
  obtain r where r: "lookup_spec es u s now = Inr r" "lr_blobPtr r = None"
    "getVersionAt s u now m = Some (lr_value r, lr_versionSeq r, lr_found r, lr_deleted r, lr_expiresAt r)"
    using getVersionAt_ok [OF Cons.hyps(1) Cons.prems(2)] by blast
  have "unique_versions (A \<union> set es)" by (rule unique_versions_subset [OF Cons.prems(3)]) auto
  then obtain p1 where p1: "vp_fold r p = (None, p1)" "picked (A \<union> set es) u s now p1"
    "has_fold r (has_of p) = (None, has_of p1)" using vp_fold_ok [OF Cons.prems(1) mt_holds_sorted [OF Cons.hyps(1)] r(1)] by blast
  have "pick_mems s u now (m # ms) p = pick_mems s u now ms p1"
    using p1(1) r(2,3) by (auto simp: vp_fold_def split: if_splits)
  moreover have "has_mems s u now (m # ms) (has_of p) = has_mems s u now ms (has_of p1)"
    using p1(3) r(3) by (auto simp: has_fold_def split: if_splits)
  moreover have un: "A \<union> set es \<union> (\<Union>es\<in>set ess. set es) = A \<union> (\<Union>es\<in>set (es # ess). set es)" by auto
  ultimately show ?case using Cons.IH [OF p1(2) Cons.prems(2), unfolded un, OF Cons.prems(3)] by simp
qed simp

section \<open>The contents of an engine\<close>

definition table_view ::
  "codecLib \<Rightarrow> (blockCacheKey \<Rightarrow> bytes \<Rightarrow> bool) \<Rightarrow> tableMeta \<Rightarrow> (bytes \<times> bytes) list \<Rightarrow> rangeTombstone list \<Rightarrow> bool" where
  "table_view lib R t kvs rts \<longleftrightarrow>
     (\<exists>cfg blks f. opened lib cfg kvs rts blks f (tb_reader t) \<and> serves R lib cfg kvs rts blks (tr_tableNum (tb_reader t)))
     \<and> (\<forall>x\<in>set kvs. wf_value x \<and> mayContain t (ikeyUserKey (fst x)))
     \<and> (\<forall>rt\<in>set rts. \<forall>u. rt_contains rt u \<longrightarrow> mayContain t u)"

definition en_mems :: "engineT \<Rightarrow> memtableT list" where
  "en_mems e = en_mem e # (case en_imm e of None \<Rightarrow> [] | Some m \<Rightarrow> [m]) @ en_recoveryMems e"

definition engine_view ::
  "codecLib \<Rightarrow> (bytes \<Rightarrow> u64) \<Rightarrow> (blockCacheKey \<Rightarrow> bytes \<Rightarrow> bool) \<Rightarrow> engineT \<Rightarrow> (bytes \<times> bytes) list list
   \<Rightarrow> (tableMeta \<Rightarrow> (bytes \<times> bytes) list) \<Rightarrow> (tableMeta \<Rightarrow> rangeTombstone list) \<Rightarrow> bool" where
  "engine_view lib hash R e mes ent rt \<longleftrightarrow>
     list_all2 mt_holds (en_mems e) mes \<and> (\<forall>t\<in>set (en_tables e). table_view lib R t (ent t) (rt t))
     \<and> en_index e = buildLevelIndex (en_tables e) \<and> cache_ok hash R (en_cache e)"

definition all_versions :: "engineT \<Rightarrow> (bytes \<times> bytes) list list \<Rightarrow> (tableMeta \<Rightarrow> (bytes \<times> bytes) list) \<Rightarrow> (bytes \<times> bytes) set" where
  "all_versions e mes ent = (\<Union>es\<in>set mes. set es) \<union> (\<Union>t\<in>set (en_tables e). set (ent t))"

definition all_rts :: "engineT \<Rightarrow> (tableMeta \<Rightarrow> rangeTombstone list) \<Rightarrow> rangeTombstone list" where
  "all_rts e rt = concat (map mt_rangeTombstones (en_mems e)) @ concat (map rt (en_tables e))"

lemma table_view_sorted: "table_view lib R t kvs rts \<Longrightarrow> sorted_versions kvs"
  unfolding table_view_def opened_def table_ok_def table_of_def using sorted_entries_versions by blast

lemma table_view_lookup:
  assumes v: "table_view lib R t kvs rts" and s: "s \<le> maxIKeySeq" and c: "cache_ok hash R cache"
  shows "\<exists>r b tr' cache'. lookupAtTime lib hash (tb_reader t) u s now cache = Some (Inr (r\<lparr>lr_bloomPassed := b\<rparr>), tr', cache')
    \<and> lookup_spec kvs u s now = Inr r \<and> cache_ok hash R cache'"
proof -
  obtain cfg blks f where op: "opened lib cfg kvs rts blks f (tb_reader t)"
    "serves R lib cfg kvs rts blks (tr_tableNum (tb_reader t))" using v by (auto simp: table_view_def)
  have "\<exists>r. lookup_spec kvs u s now = Inr r"
  proof (cases "find (visible u s) kvs")
    case (Some x)
    then have "x \<in> set kvs" by (auto simp: find_Some_iff)
    then show ?thesis using versionOf_ok [of x now] v Some by (auto simp: table_view_def lookup_spec_def versionOf_def split_beta)
  qed (simp add: lookup_spec_def)
  then obtain r where r: "lookup_spec kvs u s now = Inr r" by blast
  from lookupAtTime_ok [OF op(1) s op(2) c, of u now] r show ?thesis by fastforce
qed

lemma pick_visit_step:
  assumes v: "table_view lib R t kvs rts" and s: "s \<le> maxIKeySeq" and c: "cache_ok hash R cache"
    and p: "picked A u s now p" and un: "unique_versions (A \<union> set kvs)"
  shows "\<exists>p' cache' n'. pick_visit lib hash s u now t (p, cache, n, fp) = Some (None, p', cache', n + 1, n')
    \<and> has_visit lib hash s u now t (has_of p, cache, n, fp) = Some (None, has_of p', cache', n + 1, n')
    \<and> picked (A \<union> set kvs) u s now p' \<and> cache_ok hash R cache'"
proof -
  obtain r b tr' cache' where l: "lookupAtTime lib hash (tb_reader t) u s now cache = Some (Inr (r\<lparr>lr_bloomPassed := b\<rparr>), tr', cache')"
    "lookup_spec kvs u s now = Inr r" "cache_ok hash R cache'"
    using table_view_lookup [OF v s c] by blast
  obtain p1 where p1: "vp_fold r p = (None, p1)" "has_fold r (has_of p) = (None, has_of p1)" "picked (A \<union> set kvs) u s now p1"
    using vp_fold_ok [OF p table_view_sorted [OF v] l(2) un] by blast
  have "pick_visit lib hash s u now t (p, cache, n, fp)
      = Some (None, p1, cache', n + 1, if b \<and> \<not> lr_found r then fp + 1 else fp)"
    using l(1) p1(1) by (auto simp: pick_visit_def vp_fold_def Let_def split: if_splits option.splits)
  moreover have "has_visit lib hash s u now t (has_of p, cache, n, fp)
      = Some (None, has_of p1, cache', n + 1, if b \<and> \<not> lr_found r then fp + 1 else fp)"
    using l(1) p1(2) by (auto simp: has_visit_def hasVersionAtTime_def has_fold_def Let_def split: if_splits)
  ultimately show ?thesis using l(3) p1(3) by blast
qed

lemma visit_all_picks:
  assumes "\<forall>t\<in>set ts. table_view lib R t (ent t) (rt t)" "s \<le> maxIKeySeq" "cache_ok hash R cache" "picked A u s now p"
    "unique_versions (A \<union> (\<Union>t\<in>set ts. set (ent t)))"
  shows "\<exists>p' cache' n' fp'. visit_all (pick_visit lib hash s u now) ts (p, cache, n, fp) = Some (None, p', cache', n', fp')
    \<and> visit_all (has_visit lib hash s u now) ts (has_of p, cache, n, fp) = Some (None, has_of p', cache', n', fp')
    \<and> picked (A \<union> (\<Union>t\<in>set ts. set (ent t))) u s now p' \<and> cache_ok hash R cache' \<and> n' = n + int (length ts)"
  using assms
proof (induction ts arbitrary: A p cache n fp)
  case (Cons t ts)
  have un: "unique_versions (A \<union> set (ent t))" by (rule unique_versions_subset [OF Cons.prems(5)]) auto
  have tv: "table_view lib R t (ent t) (rt t)" using Cons.prems(1) by simp
  obtain p1 cache1 fp1 where 1: "pick_visit lib hash s u now t (p, cache, n, fp) = Some (None, p1, cache1, n + 1, fp1)"
    "has_visit lib hash s u now t (has_of p, cache, n, fp) = Some (None, has_of p1, cache1, n + 1, fp1)"
    "picked (A \<union> set (ent t)) u s now p1" "cache_ok hash R cache1"
    using pick_visit_step [OF tv Cons.prems(2-4) un] by blast
  have eq: "A \<union> set (ent t) \<union> (\<Union>t\<in>set ts. set (ent t)) = A \<union> (\<Union>t\<in>set (t # ts). set (ent t))" by auto
  have "\<forall>t\<in>set ts. table_view lib R t (ent t) (rt t)" using Cons.prems(1) by simp
  from Cons.IH [OF this Cons.prems(2) 1(4,3), unfolded eq, OF Cons.prems(5), of "n + 1" fp1]
  show ?case using 1(1,2) by (auto simp: algebra_simps)
qed simp

text \<open>A read changes the cache and the counters only.\<close>

definition read_step :: "engineT \<Rightarrow> engineT \<Rightarrow> bool" where
  "read_step e e' \<longleftrightarrow> (\<exists>c a b d. e' = e\<lparr>en_cache := c, en_pointReads := a, en_tableProbes := b, en_bloomFalsePositives := d\<rparr>)"

lemma read_step_same:
  assumes "read_step e e'"
  shows "en_mems e' = en_mems e" "en_tables e' = en_tables e" "en_index e' = en_index e" "en_cfg e' = en_cfg e"
    "en_blobs e' = en_blobs e" "en_mem e' = en_mem e" "en_imm e' = en_imm e" "en_recoveryMems e' = en_recoveryMems e"
    "en_alloc e' = en_alloc e" "en_tablePath e' = en_tablePath e" "en_seed e' = en_seed e"
  using assms by (auto simp: read_step_def en_mems_def)

lemma read_step_contents:
  "read_step e e' \<Longrightarrow> all_versions e' mes ent = all_versions e mes ent"
  "read_step e e' \<Longrightarrow> all_rts e' rt = all_rts e rt"
  by (simp_all add: all_versions_def all_rts_def read_step_same)

lemma read_step_view:
  "engine_view lib hash R e mes ent rt \<Longrightarrow> read_step e e' \<Longrightarrow> cache_ok hash R (en_cache e') \<Longrightarrow> engine_view lib hash R e' mes ent rt"
  by (simp add: engine_view_def read_step_same)

lemma picked_empty: "picked {} u s now noPick"
  by (simp add: picked_def)

text \<open>Both scans are one fold over all memtables followed by one over the candidates.\<close>

lemma pick_mems_append:
  "pick_mems s u now (xs @ ys) p = Option.bind (pick_mems s u now xs p) (\<lambda>r.
     case r of Inl err \<Rightarrow> Some (Inl err) | Inr p \<Rightarrow> pick_mems s u now ys p)"
  by (induction xs arbitrary: p) (auto split: Option.bind_splits prod.splits option.splits)

lemma has_mems_append:
  "has_mems s u now (xs @ ys) p = Option.bind (has_mems s u now xs p) (\<lambda>r.
     case r of Inl err \<Rightarrow> Some (Inl err) | Inr p \<Rightarrow> has_mems s u now ys p)"
  by (induction xs arbitrary: p) (auto split: Option.bind_splits prod.splits option.splits)

definition counted :: "engineT \<Rightarrow> blockCacheT option \<Rightarrow> int \<Rightarrow> int \<Rightarrow> engineT" where
  "counted e cache n fp = e\<lparr>en_cache := cache, en_pointReads := en_pointReads e + 1, en_tableProbes := en_tableProbes e + n,
     en_bloomFalsePositives := en_bloomFalsePositives e + fp\<rparr>"

lemma pickVersion_fold:
  assumes "pick_mems s u now (en_mems e) noPick = Some (Inr p)"
    and "candidates (en_index e) u (pick_visit lib hash s u now) (p, en_cache e, 0, 0) = Some (None, p', cache, n, fp)"
  shows "pickVersion lib hash s u now e = Some (Inr p', counted e cache n fp)"
proof -
  let ?imm = "case en_imm e of None \<Rightarrow> [] | Some m \<Rightarrow> [m]"
  obtain v q f d x where g: "getVersionAt s u now (en_mem e) = Some (v, q, f, d, x)"
    using assms(1) by (cases "getVersionAt s u now (en_mem e)") (auto simp: en_mems_def)
  define best where "best = (if f then vp_set v q d x else noPick)"
  have "vp_merge v q d x noPick = (None, vp_set v q d x)" by (simp add: vp_merge_def noPick_def)
  then have "pick_mems s u now (?imm @ en_recoveryMems e) best = Some (Inr p)"
    using assms(1) g by (cases f) (simp_all add: en_mems_def best_def)
  then obtain p1 where "pick_mems s u now ?imm best = Some (Inr p1)" "pick_mems s u now (en_recoveryMems e) p1 = Some (Inr p)"
    unfolding pick_mems_append by (cases "pick_mems s u now ?imm best") (auto split: sum.splits)
  then show ?thesis using g assms(2) by (simp add: pickVersion_def best_def [symmetric] counted_def Let_def)
qed

lemma hasAtTime_fold:
  assumes "has_mems s u now (en_mems e) (has_of noPick) = Some (Inr p)"
    and "candidates (en_index e) u (has_visit lib hash s u now) (p, en_cache e, 0, 0) = Some (None, (q, f, d), cache, n, fp)"
  shows "hasAtTime lib hash s u now e = Some (if f \<and> \<not> d then
      try_then (maxCoveringRangeDelSeq lib u s (counted e cache n fp)) (\<lambda>rd. Inr (True, q < rd))
      else Inr (f, d), counted e cache n fp)"
proof -
  let ?imm = "case en_imm e of None \<Rightarrow> [] | Some m \<Rightarrow> [m]"
  obtain v r g' d' x where g: "getVersionAt s u now (en_mem e) = Some (v, r, g', d', x)"
    using assms(1) by (cases "getVersionAt s u now (en_mem e)") (auto simp: en_mems_def)
  define best where "best = (if g' then (r, True, d') else (0, False, False))"
  have "has_merge r d' (has_of noPick) = (None, r, True, d')" "has_of noPick = (0, False, False)"
    by (simp_all add: has_merge_def has_of_def noPick_def)
  then have "has_mems s u now (?imm @ en_recoveryMems e) best = Some (Inr p)"
    using assms(1) g by (cases g') (simp_all add: en_mems_def best_def)
  then obtain p1 where "has_mems s u now ?imm best = Some (Inr p1)" "has_mems s u now (en_recoveryMems e) p1 = Some (Inr p)"
    unfolding has_mems_append by (cases "has_mems s u now ?imm best") (auto split: sum.splits)
  moreover have "(if b then True else False) = b" for b by simp
  ultimately show ?thesis
    using g assms(2) by (cases "f \<and> \<not> d") (auto simp: hasAtTime_def best_def [symmetric] counted_def Let_def)
qed

lemma read_step_counted: "read_step e (counted e cache n fp)"
  unfolding read_step_def counted_def by blast

lemma scan_ok:
  assumes v: "engine_view lib hash R e mes ent rt" and un: "unique_versions (all_versions e mes ent)" and s: "s \<le> maxIKeySeq"
  shows "\<exists>p e'. pickVersion lib hash s u now e = Some (Inr p, e') \<and> picked (all_versions e mes ent) u s now p
    \<and> hasAtTime lib hash s u now e = Some (if vp_found p \<and> \<not> vp_deleted p then
        try_then (maxCoveringRangeDelSeq lib u s e') (\<lambda>rd. Inr (True, vp_seq p < rd)) else Inr (vp_found p, vp_deleted p), e')
    \<and> read_step e e' \<and> cache_ok hash R (en_cache e')"
proof -
  have tv: "\<forall>t\<in>set (en_tables e). table_view lib R t (ent t) (rt t)" and ix: "en_index e = buildLevelIndex (en_tables e)"
    and co: "cache_ok hash R (en_cache e)" and mh: "list_all2 mt_holds (en_mems e) mes" using v by (simp_all add: engine_view_def)
  let ?U = "\<Union>es\<in>set mes. set es" and ?cs = "candidate_list (en_tables e) u"
  have cs: "set ?cs = {t\<in>set (en_tables e). mayContain t u}"
    using mset_candidate_list [of "en_tables e" u] by (metis set_filter set_mset_mset)
  have "unique_versions ({} \<union> ?U)" by (rule unique_versions_subset [OF un]) (auto simp: all_versions_def)
  from pick_mems_ok [OF mh picked_empty s this] obtain p where
    p: "pick_mems s u now (en_mems e) noPick = Some (Inr p)" "has_mems s u now (en_mems e) (has_of noPick) = Some (Inr (has_of p))"
    "picked ?U u s now p" by auto
  have tc: "\<forall>t\<in>set ?cs. table_view lib R t (ent t) (rt t)" using tv cs by blast
  have "unique_versions (?U \<union> (\<Union>t\<in>set ?cs. set (ent t)))"
    by (rule unique_versions_subset [OF un]) (auto simp: all_versions_def cs)
  from visit_all_picks [OF tc s co p(3) this, of 0 0] obtain q cache n fp where
    q: "visit_all (pick_visit lib hash s u now) ?cs (p, en_cache e, 0, 0) = Some (None, q, cache, n, fp)"
    "visit_all (has_visit lib hash s u now) ?cs (has_of p, en_cache e, 0, 0) = Some (None, has_of q, cache, n, fp)"
    "picked (?U \<union> (\<Union>t\<in>set ?cs. set (ent t))) u s now q" "cache_ok hash R cache" by blast
  define B where "B = (\<Union>t\<in>set (en_tables e) - set ?cs. set (ent t))"
  have "\<forall>x\<in>B. \<not> visible u s x" using tv unfolding B_def cs table_view_def visible_def by blast
  from picked_none [OF q(3) this] have "picked (all_versions e mes ent) u s now q"
    by (rule arg_cong [where f = "\<lambda>A. picked A u s now q", THEN iffD1, rotated]) (auto simp: all_versions_def B_def cs)
  moreover have "pickVersion lib hash s u now e = Some (Inr q, counted e cache n fp)"
    using pickVersion_fold [OF p(1)] q(1) by (simp add: ix candidates_visit)
  moreover have "hasAtTime lib hash s u now e = Some (if vp_found q \<and> \<not> vp_deleted q then
      try_then (maxCoveringRangeDelSeq lib u s (counted e cache n fp)) (\<lambda>rd. Inr (True, vp_seq q < rd))
      else Inr (vp_found q, vp_deleted q), counted e cache n fp)"
    using q(2) unfolding has_of_def by (intro hasAtTime_fold [OF p(2)]) (simp add: ix candidates_visit has_of_def)
  moreover have "cache_ok hash R (en_cache (counted e cache n fp))" using q(4) by (simp add: counted_def)
  ultimately show ?thesis using read_step_counted by blast
qed

section \<open>Range tombstones over all sources\<close>

lemma consider_rts_less:
  "v < consider_rts u s rts best \<longleftrightarrow> v < best \<or> (\<exists>rt\<in>set rts. rt_seq rt \<le> s \<and> rt_contains rt u \<and> v < rt_seq rt)"
  by (induction rts arbitrary: best) (auto intro: less_trans)

lemma consider_mems_less:
  "v < foldl (\<lambda>best m. consider_rts u s (mt_rangeTombstones m) best) best ms
   \<longleftrightarrow> v < best \<or> (\<exists>m\<in>set ms. \<exists>rt\<in>set (mt_rangeTombstones m). rt_seq rt \<le> s \<and> rt_contains rt u \<and> v < rt_seq rt)"
  by (induction ms arbitrary: best) (auto simp: consider_rts_less)

lemma table_view_rts: "table_view lib R t kvs rts \<Longrightarrow> fst (rangeTombstones lib (tb_reader t)) = Inr rts"
  using ensureMeta_opened by (fastforce simp: table_view_def rangeTombstones_def meta_of_def Let_def)

lemma consider_tables_less:
  assumes "\<forall>t\<in>set ts. table_view lib R t (ent t) (rt t)"
  shows "\<exists>m. consider_tables lib u s ts best = Inr m
    \<and> (\<forall>v. v < m \<longleftrightarrow> v < best \<or> (\<exists>t\<in>set ts. \<exists>r\<in>set (rt t). rt_seq r \<le> s \<and> rt_contains r u \<and> v < rt_seq r))"
  using assms
proof (induction ts arbitrary: best)
  case (Cons t ts)
  have tv: "table_view lib R t (ent t) (rt t)" using Cons.prems by simp
  show ?case
  proof (cases "mayContain t u")
    case True
    then show ?thesis
      using Cons.IH [of "consider_rts u s (rt t) best"] Cons.prems table_view_rts [OF tv] by (auto simp: consider_rts_less)
  next
    case False
    then have "\<not> (\<exists>r\<in>set (rt t). rt_contains r u)" using tv by (auto simp: table_view_def)
    then show ?thesis using Cons.IH [of best] Cons.prems False by auto
  qed
qed simp

lemma rangeDeleted_cover:
  "rangeDeleted rts u v s \<longleftrightarrow> (\<exists>rt\<in>set rts. rt_seq rt \<le> s \<and> rt_contains rt u \<and> v < rt_seq rt)"
  by (induction rts) (auto simp: rt_covers_def)

lemma maxCoveringRangeDelSeq_ok:
  assumes v: "engine_view lib hash R e mes ent rt"
  shows "\<exists>m. maxCoveringRangeDelSeq lib u s e = Inr m \<and> (\<forall>v. v < m \<longleftrightarrow> rangeDeleted (all_rts e rt) u v s)"
proof -
  define b where "b = foldl (\<lambda>best m. consider_rts u s (mt_rangeTombstones m) best)
    (case en_imm e of None \<Rightarrow> consider_rts u s (mt_rangeTombstones (en_mem e)) 0
     | Some m \<Rightarrow> consider_rts u s (mt_rangeTombstones m) (consider_rts u s (mt_rangeTombstones (en_mem e)) 0)) (en_recoveryMems e)"
  have tv: "\<forall>t\<in>set (en_tables e). table_view lib R t (ent t) (rt t)" using v by (simp add: engine_view_def)
  obtain m where m: "consider_tables lib u s (en_tables e) b = Inr m"
    "\<forall>v. v < m \<longleftrightarrow> v < b \<or> (\<exists>t\<in>set (en_tables e). \<exists>r\<in>set (rt t). rt_seq r \<le> s \<and> rt_contains r u \<and> v < rt_seq r)"
    using consider_tables_less [OF tv] by blast
  have "v < b \<longleftrightarrow> (\<exists>m\<in>set (en_mems e). \<exists>r\<in>set (mt_rangeTombstones m). rt_seq r \<le> s \<and> rt_contains r u \<and> v < rt_seq r)" for v
    unfolding b_def consider_mems_less by (auto simp: consider_rts_less en_mems_def split: option.split)
  then have "v < m \<longleftrightarrow> rangeDeleted (all_rts e rt) u v s" for v
    using m(2) unfolding rangeDeleted_cover all_rts_def by auto
  moreover have "maxCoveringRangeDelSeq lib u s e = Inr m"
    using m(1) by (simp add: maxCoveringRangeDelSeq_def Let_def b_def cong: option.case_cong)
  ultimately show ?thesis by blast
qed

section \<open>Reads\<close>

text \<open>What a read makes of the newest visible version: nothing when it is a tombstone, has expired
  or is hidden by a range tombstone, and otherwise its value, fetched from its blob file if it is there.\<close>

definition point_outcome :: "(blobPointer \<Rightarrow> bytes result) \<Rightarrow> lookupResult \<Rightarrow> bool \<Rightarrow> bytes result option" where
  "point_outcome resolve r hidden =
     (if lr_deleted r \<or> hidden then None
      else Some (case lr_blobPtr r of None \<Rightarrow> Inr (lr_value r) | Some p \<Rightarrow> resolve p))"

definition reads_as ::
  "codecLib \<Rightarrow> (bytes \<Rightarrow> u64) \<Rightarrow> engineT \<Rightarrow> engineT \<Rightarrow> u64 \<Rightarrow> bytes \<Rightarrow> int \<Rightarrow> bool \<Rightarrow> int \<Rightarrow> bytes result option \<Rightarrow> bool" where
  "reads_as lib hash e e' s u now found expiresAt res \<longleftrightarrow>
     getAtTime lib hash s u now e
       = Some (case res of None \<Rightarrow> Inr ([], found, found) | Some v \<Rightarrow> try_then v (\<lambda>v. Inr (v, True, False)), e')
     \<and> getWithExpiry lib hash s u now e
       = Some (case res of None \<Rightarrow> Inr ([], 0, False) | Some v \<Rightarrow> try_then v (\<lambda>v. Inr (v, expiresAt, True)), e')
     \<and> hasAtTime lib hash s u now e = Some (Inr (found, found \<and> res = None), e')"

lemma resolveBlob_step: assumes "read_step e e'" shows "resolveBlob e' = resolveBlob e"
  by (rule ext) (simp only: resolveBlob_def read_step_same [OF assms])

lemma reads_missing:
  assumes "pickVersion lib hash s u now e = Some (Inr noPick, e')" "hasAtTime lib hash s u now e = Some (Inr (False, False), e')"
  shows "reads_as lib hash e e' s u now False x None"
  using assms by (simp add: reads_as_def getAtTime_def getWithExpiry_def noPick_def)

lemma reads_found:
  assumes "pickVersion lib hash s u now e = Some (Inr (pick_of r), e')" "maxCoveringRangeDelSeq lib u s e' = Inr m"
    and "hasAtTime lib hash s u now e = Some (Inr (True, lr_deleted r \<or> lr_versionSeq r < m), e')"
    and "lr_deleted r \<Longrightarrow> lr_value r = [] \<and> lr_blobPtr r = None"
  shows "reads_as lib hash e e' s u now True (lr_expiresAt r) (point_outcome (resolveBlob e') r (lr_versionSeq r < m))"
  using assms
  by (auto simp: reads_as_def getAtTime_def getWithExpiry_def point_outcome_def pick_of_def split: option.split)

lemma engine_reads_ok:
  assumes v: "engine_view lib hash R e mes ent rt" and un: "unique_versions (all_versions e mes ent)" and s: "s \<le> maxIKeySeq"
  shows "\<exists>e'. read_step e e' \<and> engine_view lib hash R e' mes ent rt
    \<and> (if \<exists>x\<in>all_versions e mes ent. visible u s x
       then \<exists>x r. newest (all_versions e mes ent) u s x \<and> versionOf x now = Inr r
         \<and> reads_as lib hash e e' s u now True (lr_expiresAt r)
             (point_outcome (resolveBlob e) r (rangeDeleted (all_rts e rt) u (ikeySeq (fst x)) s))
       else reads_as lib hash e e' s u now False 0 None)"
proof -
  let ?A = "all_versions e mes ent"
  obtain p e' where p: "pickVersion lib hash s u now e = Some (Inr p, e')" "picked ?A u s now p"
    "hasAtTime lib hash s u now e = Some (if vp_found p \<and> \<not> vp_deleted p then
        try_then (maxCoveringRangeDelSeq lib u s e') (\<lambda>rd. Inr (True, vp_seq p < rd)) else Inr (vp_found p, vp_deleted p), e')"
    "read_step e e'" "cache_ok hash R (en_cache e')" using scan_ok [OF v un s] by blast
  have v': "engine_view lib hash R e' mes ent rt" by (rule read_step_view [OF v p(4,5)])
  obtain m where m: "maxCoveringRangeDelSeq lib u s e' = Inr m" "\<forall>v. v < m \<longleftrightarrow> rangeDeleted (all_rts e' rt) u v s"
    using maxCoveringRangeDelSeq_ok [OF v'] by blast
  show ?thesis
  proof (cases "\<exists>x\<in>?A. visible u s x")
    case False
    then have "p = noPick" using p(2) by (simp add: picked_def)
    then have "reads_as lib hash e e' s u now False 0 None"
      using p(1,3) by (intro reads_missing) (simp_all add: noPick_def)
    then show ?thesis using False p(4) v' by auto
  next
    case True
    then obtain x r where x: "newest ?A u s x" "versionOf x now = Inr r" "p = pick_of r" using pickedE [OF p(2)] by blast
    note f = versionOf_fields [OF x(2)]
    have "hasAtTime lib hash s u now e = Some (Inr (True, lr_deleted r \<or> lr_versionSeq r < m), e')"
      using p(3) m(1) x(3) by (simp add: pick_of_def)
    from reads_found [OF p(1) [unfolded x(3)] m(1) this f(4)]
    have "reads_as lib hash e e' s u now True (lr_expiresAt r)
        (point_outcome (resolveBlob e) r (rangeDeleted (all_rts e rt) u (ikeySeq (fst x)) s))"
      using m(2) f(2) resolveBlob_step [OF p(4)] read_step_contents(2) [OF p(4)] by simp
    with x(1,2) have "\<exists>x r. newest ?A u s x \<and> versionOf x now = Inr r \<and> reads_as lib hash e e' s u now True (lr_expiresAt r)
        (point_outcome (resolveBlob e) r (rangeDeleted (all_rts e rt) u (ikeySeq (fst x)) s))" by blast
    then show ?thesis unfolding if_P [OF True] using p(4) v' by blast
  qed
qed

text \<open>The lookups of a batch, one after the other.\<close>

fun get_each ::
  "codecLib \<Rightarrow> (bytes \<Rightarrow> u64) \<Rightarrow> u64 \<Rightarrow> int \<Rightarrow> batchKey list \<Rightarrow> engineT \<Rightarrow> (batchKey list result \<times> engineT) option" where
  "get_each lib hash seq now [] e = Some (Inr [], e)"
| "get_each lib hash seq now (k # ks) e =
     Option.bind (getWithExpiry lib hash seq (bk_key k) now e) (\<lambda>(r, e).
     case r of Inl err \<Rightarrow> Some (Inl err, e)
     | Inr (v, x, found) \<Rightarrow>
       Option.bind (get_each lib hash seq now ks e) (\<lambda>(ks, e).
         Some (try_then ks (\<lambda>ks. Inr ((if found then k\<lparr>bk_value := v, bk_expiresAt := x, bk_found := True\<rparr> else k) # ks)), e)))"

text \<open>C34. A batch lookup is the sequence of its single lookups at the same sequence and time: the
  entries found carry value and deadline, the others are left as they came, and the first error ends it.\<close>

theorem getMany_is_each_get:
  "getManyWithExpiry lib hash seq now keys e = get_each lib hash seq now keys e"
proof (unfold getManyWithExpiry_def, induction keys arbitrary: e)
  case (Cons k ks)
  show ?case
  proof (cases "pickVersion lib hash seq (bk_key k) now e")
    case (Some re)
    obtain r e1 where re: "re = (r, e1)" by fastforce
    show ?thesis using Some
      by (cases r; cases "maxCoveringRangeDelSeq lib (bk_key k) seq e1")
        (auto simp: re getWithExpiry_def Let_def Cons.IH try_then_def split: option.split sum.split)
  qed (simp add: getWithExpiry_def)
qed simp

end
