(* ===== verification/Engine_Flush.thy ===== *)
theory Engine_Flush
  imports Engine_Read
begin

text \<open>
  The storage engine (\<^verbatim>\<open>engine.go\<close>), second part: sealing the active memtable and writing the
  sealed one to a fresh table, with large values diverted to blob files.  The outcomes of the file
  operations are given by \<open>tableIO\<close> (opening, the schedule of the writes, sync, close and the
  sync of the directory) and by the schedule of the blob directory; the two commit callbacks of
  the configuration are the errors they return, \<open>None\<close> being success or an absent callback.

  The lemmas show that a flush, however it ends, changes no read: every version is where it was or
  in the new table, a diverted value is found through its pointer, and the range tombstones are
  the same.  Together with the writes this gives the meaning of a whole history of writes and flushes.
\<close>

section \<open>Sealing\<close>

definition rotate :: "engineT \<Rightarrow> bool \<times> engineT" where
  "rotate e =
     (if en_imm e \<noteq> None \<or> mt_empty (en_mem e) then (en_imm e \<noteq> None, e)
      else (True, e\<lparr>en_imm := Some (en_mem e), en_mem := newMemtable (en_seed e)\<rparr>))"

definition sealReadOnlyRecoveryMemtable :: "engineT \<Rightarrow> engineT" where
  "sealReadOnlyRecoveryMemtable e =
     (if mt_empty (en_mem e) then e
      else e\<lparr>en_recoveryMems := en_recoveryMems e @ [en_mem e], en_mem := newMemtable (en_seed e)\<rparr>)"

section \<open>Writing a table\<close>

definition maybeSeparateValue ::
  "int \<Rightarrow> blobWriter option \<Rightarrow> bytes \<Rightarrow> bytes \<Rightarrow> blobfs \<Rightarrow> (bytes \<times> bytes) result \<times> blobWriter option \<times> blobfs" where
  "maybeSeparateValue threshold bw ik val fs =
     (case bw of None \<Rightarrow> (Inr (ik, val), bw, fs)
      | Some w \<Rightarrow>
        let (seq, kind) = ikeySeqKind ik;
            raw = (if kind = ikeyKindSet then Inr (Some (val, 0))
                   else if kind = ikeyKindSetTTL then try_then (decodeExpiringValue val) (\<lambda>d. Inr (Some d))
                   else Inr None)
        in case raw of Inl err \<Rightarrow> (Inl err, bw, fs)
           | Inr None \<Rightarrow> (Inr (ik, val), bw, fs)
           | Inr (Some (raw, expiresAt)) \<Rightarrow>
             if int (length raw) < threshold then (Inr (ik, val), bw, fs)
             else let (ptr, w, fs) = blob_append w raw expiresAt fs
             in (try_then ptr (\<lambda>ptr. Inr (ikeyEncode [] (ikeyUserKey ik) seq ikeyKindBlobRef, encodeBlobPointer [] ptr)), Some w, fs))"

text \<open>The loop of \<open>writeTable\<close> over the memtable iterator.\<close>

partial_function (option) writeTable_loop ::
  "codecLib \<Rightarrow> int \<Rightarrow> memtableIterator \<Rightarrow> blobWriter option \<Rightarrow> blobfs \<Rightarrow> tableWriter
   \<Rightarrow> (error option \<times> blobWriter option \<times> blobfs \<times> tableWriter) option" where
  "writeTable_loop lib threshold it bw fs w =
     (case mi_Next it of (ok, it) \<Rightarrow>
       if \<not> ok then Some (None, bw, fs, w)
       else (case maybeSeparateValue threshold bw (mi_internalKey it) (mi_Value it) fs of (r, bw, fs) \<Rightarrow>
         (case r of Inl aerr \<Rightarrow> Some (Some aerr, bw, fs, w)
          | Inr (ik, val) \<Rightarrow>
            (case tw_Add lib ik val w of (err, w) \<Rightarrow>
              (case err of Some err \<Rightarrow> Some (Some err, bw, fs, w)
               | None \<Rightarrow> writeTable_loop lib threshold it bw fs w)))))"

declare writeTable_loop.simps [code]

fun widenBoundsForRangeDels :: "bytes option \<Rightarrow> bytes option \<Rightarrow> rangeTombstone list \<Rightarrow> bytes option \<times> bytes option" where
  "widenBoundsForRangeDels minKey maxKey [] = (minKey, maxKey)"
| "widenBoundsForRangeDels minKey maxKey (rt # rts) =
     widenBoundsForRangeDels
       (case minKey of None \<Rightarrow> Some (rt_start rt)
        | Some k \<Rightarrow> if bytes_compare (rt_start rt) k < 0 then Some (rt_start rt) else minKey)
       (case maxKey of None \<Rightarrow> Some (rt_end rt)
        | Some k \<Rightarrow> if 0 < bytes_compare (rt_end rt) k then Some (rt_end rt) else maxKey) rts"

record tableSpec =
  ts_num :: u32
  ts_depth :: nat
  ts_path :: string
  ts_size :: int
  ts_minKey :: "bytes option"
  ts_maxKey :: "bytes option"
  ts_entries :: nat
  ts_tombstones :: nat
  ts_restoreLazy :: bool

definition openTableMeta :: "codecLib \<Rightarrow> engineConfigT \<Rightarrow> readerAt \<Rightarrow> tableSpec \<Rightarrow> tableMeta result" where
  "openTableMeta lib cfg handle spec =
     (let newReader = (if ts_restoreLazy spec \<and> cf_LazyTableMetadata cfg then newCachedTableReaderLazy else newCachedTableReader)
      in try_then (newReader lib handle (ts_size spec) (ts_num spec)) (\<lambda>r.
         Inr \<lparr>tb_num = ts_num spec, tb_depth = ts_depth spec, tb_path = ts_path spec, tb_closed = False, tb_reader = r,
              tb_size = ts_size spec, tb_minKey = ts_minKey spec, tb_maxKey = ts_maxKey spec, tb_entries = ts_entries spec,
              tb_tombstones = ts_tombstones spec, tb_refs = 1, tb_deleteOnZero = False\<rparr>))"

record tableIO =
  tio_open :: "error option"
  tio_writes :: io_sched
  tio_sync :: "error option"
  tio_close :: "error option"
  tio_syncDir :: "error option"

definition io_step :: "error option \<Rightarrow> 'a result \<Rightarrow> 'a result" where
  "io_step err r = (case err of Some err \<Rightarrow> Inl err | None \<Rightarrow> r)"

record tableWriteJob =
  tj_num :: u32
  tj_depth :: nat
  tj_path :: string
  tj_it :: memtableIterator
  tj_rts :: "rangeTombstone list"
  tj_bw :: "blobWriter option"

text \<open>After the last entry: finish, sync, close, record the bounds and open for reading.\<close>

definition sealTable ::
  "codecLib \<Rightarrow> engineConfigT \<Rightarrow> tableIO \<Rightarrow> tableWriteJob \<Rightarrow> tableWriter \<Rightarrow> tableMeta result" where
  "sealTable lib cfg io j w =
     (let (size, w) = tw_finish lib w
      in try_then size (\<lambda>size.
         io_step (tio_sync io) (io_step (tio_close io) (io_step (tio_syncDir io) (
           let (minKey, maxKey) = widenBoundsForRangeDels (minUserKey w) (maxUserKey w) (tj_rts j)
           in openTableMeta lib cfg (ReadAt (dst_data (tw_w w)))
                \<lparr>ts_num = tj_num j, ts_depth = tj_depth j, ts_path = tj_path j, ts_size = size, ts_minKey = minKey,
                 ts_maxKey = maxKey, ts_entries = tw_entries w, ts_tombstones = tw_tombstones w, ts_restoreLazy = False\<rparr>)))))"

definition writeTable ::
  "codecLib \<Rightarrow> engineConfigT \<Rightarrow> tableIO \<Rightarrow> tableWriteJob \<Rightarrow> blobfs \<Rightarrow> (tableMeta result \<times> blobWriter option \<times> blobfs) option" where
  "writeTable lib cfg io j fs =
     (case tio_open io of Some err \<Rightarrow> Some (Inl err, tj_bw j, fs)
      | None \<Rightarrow>
        let codecName = resolveLevelCodec (cf_LevelCodecs cfg) (int (tj_depth j)) (cf_FreshCodecName cfg) '''' False
        in case codecFromName codecName of Inl err \<Rightarrow> Some (Inl err, tj_bw j, fs)
        | Inr c \<Rightarrow>
          let w = newTableWriter \<lparr>f_data = [], f_sched = tio_writes io\<rparr>
                    \<lparr>cfg_codec = c, cfg_bloomBits = cf_BloomBits cfg, cfg_blockSize = cf_BlockSize cfg\<rparr>;
              w = setRangeTombstones (tj_rts j) w
          in Option.bind (writeTable_loop lib (cf_ValueThreshold cfg) (tj_it j) (tj_bw j) fs w) (\<lambda>(err, bw, fs, w).
             Some (case err of Some err \<Rightarrow> Inl err | None \<Rightarrow> sealTable lib cfg io j w, bw, fs)))"

section \<open>Flush\<close>

record flushIO =
  fio_table :: tableIO
  fio_commitBlobs :: "error option"
  fio_commit :: "error option"

definition install :: "tableMeta \<Rightarrow> engineT \<Rightarrow> engineT" where
  "install t e = (setTables (en_tables e @ [t]) e)\<lparr>en_imm := None\<rparr>"

text \<open>The part of \<open>Flush\<close> after the table is written.\<close>

definition flush_finish ::
  "flushIO \<Rightarrow> tableMeta result \<Rightarrow> blobWriter option \<Rightarrow> engineT \<Rightarrow> unit result \<times> engineT" where
  "flush_finish io meta bw e =
     (case meta of Inl err \<Rightarrow>
        (case bw of None \<Rightarrow> (Inl err, e)
         | Some w \<Rightarrow> let (w, fs) = abandon w (en_blobs e) in (Inl err, e\<lparr>en_blobs := fs\<rparr>))
      | Inr t \<Rightarrow>
        let (blobsErr, e) =
          (case bw of None \<Rightarrow> (None, e)
           | Some w \<Rightarrow>
             let (fin, w, fs) = blob_close w (en_blobs e); e = e\<lparr>en_blobs := fs\<rparr>
             in case fin of Inl err \<Rightarrow> (Some err, e)
                | Inr added \<Rightarrow> (if 0 < length added then fio_commitBlobs io else None, e))
        in case blobsErr of Some err \<Rightarrow> (Inl err, e)
           | None \<Rightarrow> (case fio_commit io of Some err \<Rightarrow> (Inl err, e) | None \<Rightarrow> (Inr (), install t e)))"

definition Flush :: "codecLib \<Rightarrow> flushIO \<Rightarrow> engineT \<Rightarrow> (unit result \<times> engineT) option" where
  "Flush lib io e =
     (let (any, e) = rotate e
      in case (any, en_imm e) of
           (True, Some imm) \<Rightarrow>
             let (num, a) = Next (en_alloc e); e = e\<lparr>en_alloc := a\<rparr>
             in if num = 0 then Some (Inl ErrFileNumberExhausted, e)
             else (case en_tablePath e num of Inl err \<Rightarrow> Some (Inl err, e)
             | Inr path \<Rightarrow>
               let bw = (if valueSeparationOn e then Some (newBlobWriter (en_alloc e) (cf_BlobFileSize (en_cfg e))) else None)
               in Option.bind (writeTable lib (en_cfg e) (fio_table io)
                    \<lparr>tj_num = num, tj_depth = 0, tj_path = path, tj_it = mt_newIterator imm, tj_rts = mt_rangeTombstones imm,
                     tj_bw = bw\<rparr> (en_blobs e)) (\<lambda>(meta, bw, fs).
                  Some (flush_finish io meta bw
                    (e\<lparr>en_blobs := fs, en_alloc := (case bw of None \<Rightarrow> en_alloc e | Some w \<Rightarrow> bw_alloc w)\<rparr>))))
         | _ \<Rightarrow> Some (Inr (), e))"

definition en_Close :: "(tableMeta \<Rightarrow> releaseIO) \<Rightarrow> string set \<Rightarrow> engineT \<Rightarrow> error option \<times> string set \<times> engineT" where
  "en_Close io files e =
     (let (firstErr, files) = foldl (\<lambda>(firstErr, files) t.
            let (err, _, files) = releaseOwner (io t) False t files
            in (if err \<noteq> None \<and> firstErr = None then err else firstErr, files)) (None, files) (en_tables e)
      in (firstErr, files, setTables [] e))"

section \<open>Iterating a sealed memtable\<close>

definition mi_yields :: "memtableIterator \<Rightarrow> (bytes \<times> bytes) list \<Rightarrow> bool" where
  "mi_yields it es \<longleftrightarrow>
     (if \<not> mi_started it then sl_at (mi_list it) (sl_first (mi_list it)) es
      else if mi_n it \<noteq> nilNode then sl_at (mi_list it) (sl_next (mi_list it) (mi_n it) 0) es
      else es = [])"

lemma mi_yields_Nil: "mi_yields it [] \<Longrightarrow> \<exists>it'. mi_Next it = (False, it') \<and> mi_yields it' []"
  by (auto simp: mi_yields_def mi_Next_def Let_def dest: sl.at_Nil)

lemma mi_yields_Cons:
  assumes "mi_yields it (x # xs)"
  shows "\<exists>it'. mi_Next it = (True, it') \<and> mi_internalKey it' = fst x \<and> mi_Value it' = snd x \<and> mi_yields it' xs"
  using assms sl.at_Cons
  by (auto simp: mi_yields_def mi_Next_def Let_def mi_internalKey_def mi_Value_def split: if_splits)

lemma mt_newIterator_yields: "mt_holds m es \<Longrightarrow> mi_yields (mt_newIterator m) es"
  by (simp add: mi_yields_def mt_newIterator_def mt_holds_def sl.first_ok)

section \<open>Diverted values\<close>

definition raw_value :: "bytes \<times> bytes \<Rightarrow> bytes \<Rightarrow> int \<Rightarrow> bool" where
  "raw_value x raw d \<longleftrightarrow> ikeyKindOf (fst x) = ikeyKindSet \<and> raw = snd x \<and> d = 0
     \<or> ikeyKindOf (fst x) = ikeyKindSetTTL \<and> decodeExpiringValue (snd x) = Inr (raw, d)"

text \<open>What is written for a version: itself, or a pointer to its value in a blob file.\<close>

definition stored_as :: "blobfs \<Rightarrow> bytes \<times> bytes \<Rightarrow> bytes \<times> bytes \<Rightarrow> bool" where
  "stored_as fs x y \<longleftrightarrow> y = x \<or> (\<exists>raw d p c. raw_value x raw d \<and> bp_expiresAt p = d
     \<and> y = (ikeyEncode [] (ikeyUserKey (fst x)) (ikeySeq (fst x)) ikeyKindBlobRef, encodeBlobPointer [] p)
     \<and> blobs fs (bp_num p) = Some c \<and> blob_read c p = Inr raw)"

lemma stored_as_ext: "stored_as fs x y \<Longrightarrow> fs_ext fs fs' \<Longrightarrow> stored_as fs' x y"
  unfolding stored_as_def using blob_read_ext by blast

text \<open>The file a writer may still remove is none that was there at the start, and the allocator only advances.\<close>

definition bw_fresh :: "blobfs \<Rightarrow> u32 \<Rightarrow> blobWriter \<Rightarrow> bool" where
  "bw_fresh fs0 a0 w \<longleftrightarrow> (\<forall>n. cur w = Some n \<longrightarrow> blobs fs0 n = None) \<and> a0 \<le> alloc_n (bw_alloc w)"

lemma Next_alloc:
  assumes "Next a = (n, a')"
  shows "alloc_n a \<le> alloc_n a' \<and> (n \<noteq> 0 \<longrightarrow> n = alloc_n a' \<and> alloc_n a < n)"
proof (cases "alloc_n a = NOT 0")
  case True
  then show ?thesis using assms by (simp add: Next_def Load_def)
next
  case False
  then have "n = alloc_n a + 1" "a' = a\<lparr>alloc_n := alloc_n a + 1\<rparr>"
    using assms by (auto simp: Next_def Load_def CompareAndSwap_def Let_def)
  then show ?thesis using unat_inc [OF False] by (simp add: word_le_nat_alt word_less_nat_alt)
qed

lemma sealCurrent_any: "sealCurrent w fs = (r, w', fs') \<Longrightarrow> blobs fs' = blobs fs \<and> cur w' = None \<and> bw_alloc w' = bw_alloc w"
  by (auto simp: sealCurrent_def Let_def split: option.splits prod.splits io_outcome.splits)

lemma roll_any:
  assumes "roll w fs = (r, w', fs')" "fs_ext fs0 fs" "a0 \<le> alloc_n (bw_alloc w)"
  shows "fs_ext fs fs' \<and> bw_fresh fs0 a0 w'"
proof -
  obtain r1 w1 fs1 where s: "sealCurrent w fs = (r1, w1, fs1)" by (cases "sealCurrent w fs") auto
  have seal: "cur w1 = None" "blobs fs1 = blobs fs" "bw_alloc w1 = bw_alloc w" using sealCurrent_any [OF s] by simp_all
  obtain num a where n: "Next (bw_alloc w1) = (num, a)" by fastforce
  have "alloc_n (bw_alloc w) \<le> alloc_n a" using Next_alloc [OF n] unfolding seal(3) by (rule conjunct1)
  then have a: "a0 \<le> alloc_n a" by (rule order_trans [OF assms(3)])
  have "blobs fs0 n = None" if "blobs fs n = None" for n
    using assms(2) that unfolding fs_ext_def by (cases "blobs fs0 n") force+
  then show ?thesis
    using assms(1,3) s seal n a
    by (auto simp: roll_def Let_def bw_fresh_def fs_ext_def split: sum.splits prod.splits if_splits io_outcome.splits)
qed

lemma blob_write_any: "blob_write num v fs = (r, fs') \<Longrightarrow> fs_ext fs fs'"
  by (auto simp: blob_write_def Let_def fs_ext_def split: prod.splits io_outcome.splits option.splits)

lemma blob_append_any:
  assumes "blob_append w v d fs = (r, w', fs')" "fs_ext fs0 fs" "bw_fresh fs0 a0 w"
  shows "fs_ext fs fs' \<and> bw_fresh fs0 a0 w'"
proof -
  obtain r1 w1 fs1 where s: "(if cur w = None \<or> rollSize w \<le> bw_off w then roll w fs else (Inr (), w, fs)) = (r1, w1, fs1)"
    by (cases "if cur w = None \<or> rollSize w \<le> bw_off w then roll w fs else (Inr (), w, fs)") auto
  have 1: "fs_ext fs fs1" "bw_fresh fs0 a0 w1"
    using s assms(2,3) roll_any [of w fs r1 w1 fs1 fs0 a0] by (auto simp: bw_fresh_def split: if_splits)
  show ?thesis
  proof (cases "r1 = Inr () \<and> cur w1 \<noteq> None")
    case False
    then have "w' = w1 \<and> fs' = fs1" using assms(1) s by (cases r1) (auto simp: blob_append_def)
    then show ?thesis using 1 by simp
  next
    case True
    then obtain num where num: "cur w1 = Some num" "r1 = Inr ()" by auto
    obtain r2 fs2 where w: "blob_write num v fs1 = (r2, fs2)" by fastforce
    have "fs' = fs2 \<and> cur w' = cur w1 \<and> bw_alloc w' = bw_alloc w1" using assms(1) s num w by (auto simp: blob_append_def Let_def split: sum.splits)
    then show ?thesis using 1 blob_write_any [OF w] fs_ext_trans by (auto simp: bw_fresh_def)
  qed
qed

lemma abandon_ext: "abandon w fs = (w', fs') \<Longrightarrow> fs_ext fs0 fs \<Longrightarrow> bw_fresh fs0 a0 w \<Longrightarrow> fs_ext fs0 fs'"
  by (auto simp: abandon_def Let_def fs_ext_def bw_fresh_def split: option.splits prod.splits io_outcome.splits)

definition bw_ok :: "blobfs \<Rightarrow> u32 \<Rightarrow> blobWriter option \<Rightarrow> blobfs \<Rightarrow> bool" where
  "bw_ok fs0 a0 bw fs \<longleftrightarrow> fs_ext fs0 fs \<and> (\<forall>w. bw = Some w \<longrightarrow> bw_fresh fs0 a0 w)"

definition bw_good :: "blobWriter option \<Rightarrow> blobfs \<Rightarrow> bool" where
  "bw_good bw fs \<longleftrightarrow> (\<forall>w. bw = Some w \<longrightarrow> bw_inv w fs)"

lemma maybeSeparateValue_ok:
  assumes m: "mem_entry x" and len: "length (snd x) < 2 ^ 32" and ok: "bw_ok fs0 a0 bw fs" "bw_good bw fs"
    and r: "maybeSeparateValue threshold bw (fst x) (snd x) fs = (r, bw', fs')"
  shows "bw_ok fs0 a0 bw' fs' \<and> fs_ext fs fs' \<and> (\<forall>y. r = Inr y \<longrightarrow> bw_good bw' fs' \<and> stored_as fs' x y)
    \<and> (bw' = None \<longleftrightarrow> bw = None) \<and> (\<forall>y. r = Inr y \<longrightarrow> bw = None \<longrightarrow> y = x)"
proof -
  have same: ?thesis if "r = Inr x" "bw' = bw" "fs' = fs"
    using that ok by (auto simp: stored_as_def)
  have divert: ?thesis if w: "bw = Some w" and raw: "raw_value x raw d" and l: "length raw \<le> length (snd x)"
    and e: "(r, bw', fs') = (let (ptr, w, fs) = blob_append w raw d fs
             in (try_then ptr (\<lambda>ptr. Inr (ikeyEncode [] (ikeyUserKey (fst x)) (ikeySeq (fst x)) ikeyKindBlobRef, encodeBlobPointer [] ptr)), Some w, fs))"
    for w raw d
  proof -
    obtain ptr w1 fs1 where a: "blob_append w raw d fs = (ptr, w1, fs1)" by (cases "blob_append w raw d fs") auto
    have any: "fs_ext fs fs1" "bw_fresh fs0 a0 w1" using blob_append_any [OF a] ok(1) w by (auto simp: bw_ok_def)
    have ok1: "bw_ok fs0 a0 bw' fs'" "fs' = fs1" "bw' = Some w1"
      using e a any ok(1) fs_ext_trans [of fs0 fs fs1] by (auto simp: bw_ok_def)
    have "bw_good bw' fs' \<and> stored_as fs' x y" if ry: "r = Inr y" for y
    proof -
      obtain p where p: "ptr = Inr p"
        "y = (ikeyEncode [] (ikeyUserKey (fst x)) (ikeySeq (fst x)) ikeyKindBlobRef, encodeBlobPointer [] p)"
        using e a ry by (cases ptr) auto
      have "bw_inv w fs" "length raw < 2 ^ 32" using ok(2) w l len by (auto simp: bw_good_def)
      with blob_append_ok [OF a [unfolded p(1)]] raw p(2) ok1 show ?thesis by (auto simp: bw_good_def stored_as_def)
    qed
    then show ?thesis using ok1 any w by blast
  qed
  show ?thesis
  proof (cases bw)
    case None
    then show ?thesis using r by (intro same) (simp_all add: maybeSeparateValue_def)
  next
    case (Some w)
    consider (set) "ikeyKindOf (fst x) = ikeyKindSet" | (del) "ikeyKindOf (fst x) = ikeyKindDelete"
      | (ttl) v d where "ikeyKindOf (fst x) = ikeyKindSetTTL" "decodeExpiringValue (snd x) = Inr (v, d)"
      using m by (auto simp: mem_entry_def)
    then show ?thesis
    proof cases
      case set
      have r': "(r, bw', fs') = (if int (length (snd x)) < threshold then (Inr x, bw, fs)
          else let (ptr, w, fs) = blob_append w (snd x) 0 fs
             in (try_then ptr (\<lambda>ptr. Inr (ikeyEncode [] (ikeyUserKey (fst x)) (ikeySeq (fst x)) ikeyKindBlobRef, encodeBlobPointer [] ptr)), Some w, fs))"
        unfolding r [symmetric] using set Some by (simp add: maybeSeparateValue_def split_beta Let_def)
      show ?thesis
      proof (cases "int (length (snd x)) < threshold")
        case True
        then show ?thesis using r' by (intro same) simp_all
      next
        case False
        show ?thesis by (rule divert [OF Some, of "snd x" 0]) (use set r' False in \<open>simp_all add: raw_value_def\<close>)
      qed
    next
      case del
      then show ?thesis using r Some by (intro same) (auto simp: maybeSeparateValue_def split_beta ikeyKind_defs)
    next
      case ttl
      have v: "length v \<le> length (snd x)"
        using decodeExpiringValue_inv [OF ttl(2)] unfolding encodeExpiringValue_def by (metis le_add2 length_append)
      have r': "(r, bw', fs') = (if int (length v) < threshold then (Inr x, bw, fs)
          else let (ptr, w, fs) = blob_append w v d fs
             in (try_then ptr (\<lambda>ptr. Inr (ikeyEncode [] (ikeyUserKey (fst x)) (ikeySeq (fst x)) ikeyKindBlobRef, encodeBlobPointer [] ptr)), Some w, fs))"
        unfolding r [symmetric] using ttl Some by (simp add: maybeSeparateValue_def split_beta Let_def ikeyKind_defs)
      show ?thesis
      proof (cases "int (length v) < threshold")
        case True
        then show ?thesis using r' by (intro same) simp_all
      next
        case False
        show ?thesis by (rule divert [OF Some, of v d]) (use ttl v r' False in \<open>simp_all add: raw_value_def\<close>)
      qed
    qed
  qed
qed

lemma writeTable_loop_ok:
  assumes "mi_yields it es" "\<forall>x\<in>set es. mem_entry x \<and> length (snd x) < 2 ^ 32" "bw_ok fs0 a0 bw fs" "bw_good bw fs"
  shows "\<exists>err bw' fs' w'. writeTable_loop lib threshold it bw fs w = Some (err, bw', fs', w') \<and> bw_ok fs0 a0 bw' fs' \<and> fs_ext fs fs'
    \<and> (err = None \<longrightarrow> bw_good bw' fs' \<and> (\<exists>ys. list_all2 (stored_as fs') es ys \<and> tw_adds lib ys w = (None, w') \<and> (bw = None \<longrightarrow> ys = es)))"
  using assms
proof (induction es arbitrary: it bw fs w)
  case Nil
  then show ?case using mi_yields_Nil [OF Nil.prems(1)] by (subst writeTable_loop.simps) auto
next
  case (Cons x xs)
  obtain it1 where n: "mi_Next it = (True, it1)" "mi_internalKey it1 = fst x" "mi_Value it1 = snd x" "mi_yields it1 xs"
    using mi_yields_Cons [OF Cons.prems(1)] by blast
  obtain r bw1 fs1 where s: "maybeSeparateValue threshold bw (fst x) (snd x) fs = (r, bw1, fs1)"
    by (cases "maybeSeparateValue threshold bw (fst x) (snd x) fs") auto
  have x: "mem_entry x" "length (snd x) < 2 ^ 32" using Cons.prems(2) by simp_all
  note ms = maybeSeparateValue_ok [OF x Cons.prems(3,4) s]
  show ?case
  proof (cases r)
    case (Inl e)
    then show ?thesis using n s ms by (subst writeTable_loop.simps) auto
  next
    case (Inr y)
    obtain err w1 where a: "tw_Add lib (fst y) (snd y) w = (err, w1)" by fastforce
    show ?thesis
    proof (cases err)
      case (Some e)
      then show ?thesis using n s ms Inr a by (subst writeTable_loop.simps) (auto split: prod.splits)
    next
      case None
      have st: "writeTable_loop lib threshold it bw fs w = writeTable_loop lib threshold it1 bw1 fs1 w1"
        using n s Inr a None by (subst writeTable_loop.simps) (auto split: prod.splits)
      have ok1: "bw_ok fs0 a0 bw1 fs1" "bw_good bw1 fs1" "stored_as fs1 x y" "fs_ext fs fs1" "bw = None \<longrightarrow> bw1 = None \<and> y = x"
        using ms Inr by auto
      have ms1: "\<forall>x\<in>set xs. mem_entry x \<and> length (snd x) < 2 ^ 32" using Cons.prems(2) by simp
      from Cons.IH [OF n(4) ms1 ok1(1,2), of w1] obtain err' bw' fs' w' where IH: "writeTable_loop lib threshold it1 bw1 fs1 w1 = Some (err', bw', fs', w')"
        "bw_ok fs0 a0 bw' fs'" "fs_ext fs1 fs'"
        "err' = None \<longrightarrow> bw_good bw' fs' \<and> (\<exists>ys. list_all2 (stored_as fs') xs ys \<and> tw_adds lib ys w1 = (None, w') \<and> (bw1 = None \<longrightarrow> ys = xs))"
        by (elim exE conjE) (rule that)
      have "\<exists>ys. list_all2 (stored_as fs') (x # xs) ys \<and> tw_adds lib ys w = (None, w') \<and> (bw = None \<longrightarrow> ys = x # xs)" if none: "err' = None"
      proof -
        obtain ys where ys: "list_all2 (stored_as fs') xs ys" "tw_adds lib ys w1 = (None, w')" "bw1 = None \<longrightarrow> ys = xs" using IH(4) none by blast
        have "list_all2 (stored_as fs') (x # xs) (y # ys)" using ys(1) stored_as_ext [OF ok1(3) IH(3)] by simp
        moreover have "tw_adds lib (y # ys) w = (None, w')" using ys(2) a None by (cases y) simp
        ultimately show ?thesis using ys(3) ok1(5) by blast
      qed
      then show ?thesis using IH st fs_ext_trans [OF ok1(4) IH(3)] by auto
    qed
  qed
qed

section \<open>The table written\<close>

definition same_keys :: "tableWriter \<Rightarrow> tableWriter \<Rightarrow> bool" where
  "same_keys w w' \<longleftrightarrow> tw_firstKey w' = tw_firstKey w \<and> tw_lastKey w' = tw_lastKey w"

lemma same_keys_writers:
  "writeBlock lib p c w = (bh, w') \<Longrightarrow> same_keys w w'"
  "writeRawBlock lib p w = (bh, w') \<Longrightarrow> same_keys w w'"
  "same_keys w (flushDataBlock lib w)" "same_keys w (indexPending w)"
  by (auto simp: same_keys_def writeBlock_def writeRawBlock_def flushDataBlock_def indexPending_def Let_def
      split: prod.splits option.splits if_splits)

lemma tw_finish_keys:
  assumes "tw_finish lib w = (Inr n, w')"
  shows "same_keys w w'"
proof -
  let ?w1 = "indexPending (flushDataBlock lib w)"
  obtain rh w2 where r: "(if 0 < length (tw_rangeDels ?w1) then writeRawBlock lib (encodeRangeDelBlock [] (tw_rangeDels ?w1)) ?w1
      else (zeroHandle, ?w1)) = (rh, w2)" by fastforce
  obtain fh w3 where f: "writeRawBlock lib (build (tw_bloom w2) (tw_hashes w2)) w2 = (fh, w3)" by fastforce
  obtain ih w4 where i: "writeBlock lib (bb_buf (tw_index w3)) (tw_c w3) w3 = (ih, w4)" by fastforce
  have "same_keys w ?w1" using same_keys_writers(3,4) unfolding same_keys_def by metis
  moreover have "same_keys ?w1 w2" using r same_keys_writers(2) [of lib _ ?w1] by (auto simp: same_keys_def split: if_splits)
  moreover have "same_keys w2 w3" "same_keys w3 w4" using same_keys_writers(2) [OF f] same_keys_writers(1) [OF i] by simp_all
  moreover have "same_keys w4 w'"
    using assms r f i
    by (auto simp: tw_finish_def Let_def same_keys_def split: option.splits prod.splits)
  ultimately show ?thesis by (simp add: same_keys_def)
qed

lemma widen_min:
  "widenBoundsForRangeDels mn mx rts = (mn', mx') \<Longrightarrow>
   (\<forall>k. mn = Some k \<longrightarrow> (\<exists>k'. mn' = Some k' \<and> k' \<le> k)) \<and> (\<forall>rt\<in>set rts. \<exists>k'. mn' = Some k' \<and> k' \<le> rt_start rt)"
proof (induction rts arbitrary: mn mx)
  case (Cons rt rts)
  define mn1 where "mn1 = (case mn of None \<Rightarrow> Some (rt_start rt) | Some k \<Rightarrow> if bytes_compare (rt_start rt) k < 0 then Some (rt_start rt) else mn)"
  have "\<exists>k1. mn1 = Some k1 \<and> k1 \<le> rt_start rt \<and> (\<forall>k. mn = Some k \<longrightarrow> k1 \<le> k)"
    by (cases mn) (auto simp: mn1_def order_simps)
  then obtain k1 where k1: "mn1 = Some k1" "k1 \<le> rt_start rt" "\<forall>k. mn = Some k \<longrightarrow> k1 \<le> k" by blast
  note IH = Cons.IH [of mn1 "case mx of None \<Rightarrow> Some (rt_end rt) | Some k \<Rightarrow> if 0 < bytes_compare (rt_end rt) k then Some (rt_end rt) else mx"]
  from IH Cons.prems k1 show ?case by (auto simp: mn1_def [symmetric] intro: order_trans)
qed simp

lemma widen_max:
  "widenBoundsForRangeDels mn mx rts = (mn', mx') \<Longrightarrow>
   (\<forall>k. mx = Some k \<longrightarrow> (\<exists>k'. mx' = Some k' \<and> k \<le> k')) \<and> (\<forall>rt\<in>set rts. \<exists>k'. mx' = Some k' \<and> rt_end rt \<le> k')"
proof (induction rts arbitrary: mn mx)
  case (Cons rt rts)
  define mx1 where "mx1 = (case mx of None \<Rightarrow> Some (rt_end rt) | Some k \<Rightarrow> if 0 < bytes_compare (rt_end rt) k then Some (rt_end rt) else mx)"
  have "\<exists>k1. mx1 = Some k1 \<and> rt_end rt \<le> k1 \<and> (\<forall>k. mx = Some k \<longrightarrow> k \<le> k1)"
    by (cases mx) (auto simp: mx1_def order_simps)
  then obtain k1 where k1: "mx1 = Some k1" "rt_end rt \<le> k1" "\<forall>k. mx = Some k \<longrightarrow> k \<le> k1" by blast
  note IH = Cons.IH [of "case mn of None \<Rightarrow> Some (rt_start rt) | Some k \<Rightarrow> if bytes_compare (rt_start rt) k < 0 then Some (rt_start rt) else mn" mx1]
  from IH Cons.prems k1 show ?case by (auto simp: mx1_def [symmetric] intro: order_trans)
qed simp

lemma sorted_bounds:
  assumes "sorted_entries ys" "x \<in> set ys"
  shows "ikeyUserKey (fst (hd ys)) \<le> ikeyUserKey (fst x)" "ikeyUserKey (fst x) \<le> ikeyUserKey (fst (last ys))"
proof -
  show "ikeyUserKey (fst (hd ys)) \<le> ikeyUserKey (fst x)"
    using assms user_key_mono [of "hd ys" "tl ys" x] by (cases ys) auto
  show "ikeyUserKey (fst x) \<le> ikeyUserKey (fst (last ys))"
    using assms by (cases ys rule: rev_cases) (auto simp: sorted_entries_def sorted_wrt_append ikeyCompare_lt)
qed

lemma sealTable_ok:
  assumes a: "tw_adds lib ys (setRangeTombstones (tj_rts j) (newTableWriter \<lparr>f_data = [], f_sched = sch\<rparr> cfg)) = (None, w)"
    and s: "sealTable lib ecfg io j w = Inr t" and fit: "table_fits cfg ys (tj_rts j)" and ll: "lossless lib"
    and rd: "\<forall>rt\<in>set (tj_rts j). wf_rangeDel rt"
  shows "(\<exists>blks f. opened lib cfg ys (tj_rts j) blks f (tb_reader t)) \<and> tr_tableNum (tb_reader t) = tj_num j \<and> tb_num t = tj_num j
    \<and> (\<forall>x\<in>set ys. mayContain t (ikeyUserKey (fst x))) \<and> (\<forall>rt\<in>set (tj_rts j). \<forall>u. rt_contains rt u \<longrightarrow> mayContain t u)"
proof -
  let ?w0 = "newTableWriter \<lparr>f_data = [], f_sched = sch\<rparr> cfg" and ?rts = "tj_rts j"
  obtain n w' where fin: "tw_finish lib w = (Inr n, w')"
    using s by (auto simp: sealTable_def Let_def try_then_def split: prod.splits sum.splits)
  obtain mn mx where wd: "widenBoundsForRangeDels (minUserKey w') (maxUserKey w') ?rts = (mn, mx)" by fastforce
  obtain r where r: "newTableReaderOpt lib (ReadAt (dst_data (tw_w w'))) n (tj_num j) False = Inr r"
    and t: "tb_reader t = r" "tb_num t = tj_num j" "tb_minKey t = mn" "tb_maxKey t = mx"
    using s fin wd by (auto simp: sealTable_def openTableMeta_def newCachedTableReader_def io_step_def try_then_def
        split: option.splits sum.splits)
  have live0: "tw_live lib [] [] (setRangeTombstones ?rts ?w0)" by (simp add: tw_live_rangeDels tw_live_new)
  obtain blks where l: "tw_live lib ys blks w" "tw_c w = tw_c ?w0" "tw_bloom w = tw_bloom ?w0" "tw_rangeDels w = ?rts"
    using tw_adds_live [OF live0 a] by (auto simp: setRangeTombstones_def)
  have eqs: "tw_bloom w = newBloom (cfg_bloomBits cfg)" "tw_c w = cfg_codec cfg" using l by (simp_all add: newTableWriter_def)
  then have "table_layout lib w = table_layout lib (newTableWriter \<lparr>f_data = [], f_sched = []\<rparr> cfg)"
    by (simp add: table_layout_def fun_eq_iff newTableWriter_def)
  with tw_finish_layout [OF l(1) fin] l(1,4) eqs obtain blks' where
    tof: "table_of lib cfg ys ?rts blks' (dst_data (tw_w w'))" and n: "n = sint (ulen (dst_data (tw_w w')))"
    by (auto simp: table_of_def Let_def tw_live_def)
  have len: "n = int (length (dst_data (tw_w w')))" using n table_of_length [OF tof fit] by (simp add: u64_sint)
  have "table_ok lib cfg ys ?rts blks' (dst_data (tw_w w'))" using tof fit ll rd by (simp add: table_ok_def)
  from open_ok [OF this, of "tj_num j" False] r len have op: "opened lib cfg ys ?rts blks' (dst_data (tw_w w')) r"
    "tr_tableNum r = tj_num j" by auto
  have srt: "sorted_entries ys" using l(1) by (simp add: tw_live_def)
  have keys: "tw_firstKey w' = tw_firstKey w" "tw_lastKey w' = tw_lastKey w" using tw_finish_keys [OF fin] by (simp_all add: same_keys_def)
  have "mayContain t (ikeyUserKey (fst x))" if x: "x \<in> set ys" for x
  proof -
    have "minUserKey w' = Some (ikeyUserKey (fst (hd ys)))" "maxUserKey w' = Some (ikeyUserKey (fst (last ys)))"
      using l(1) x keys by (auto simp: tw_live_def minUserKey_def maxUserKey_def)
    then show ?thesis
      using widen_min [OF wd] widen_max [OF wd] sorted_bounds [OF srt x] t by (auto simp: mayContain_iff intro: order_trans)
  qed
  moreover have "mayContain t u" if "rt \<in> set ?rts" "rt_contains rt u" for rt u
    using widen_min [OF wd] widen_max [OF wd] that t
    by (fastforce simp: mayContain_iff rt_contains_def order_simps intro: order_trans less_imp_le)
  ultimately show ?thesis using op t by auto
qed

end
