(* ===== verification/Engine_History.thy ===== *)
theory Engine_History
  imports Engine_Flush
begin

text \<open>
  The meaning of a whole history of an engine: any interleaving of writes, flushes (with any
  outcome of every file operation), sealings and reads, starting from an empty engine.
  The invariant \<open>engine_inv\<close> says that memtables and tables together hold exactly the
  versions written, each itself or as a pointer to its value in a blob file, and exactly
  the range tombstones written.  A read then returns the outcome of the newest write visible
  at its sequence.
\<close>

section \<open>Sizes of a memtable\<close>

definition rts_size :: "rangeTombstone list \<Rightarrow> nat" where
  "rts_size rts = sum_list (map (\<lambda>rt. length (rt_start rt) + length (rt_end rt)) rts)"

definition entries_size :: "(bytes \<times> bytes) list \<Rightarrow> nat" where
  "entries_size es = sum_list (map (\<lambda>x. length (fst x) + length (snd x)) es)"

definition mt_exact :: "memtableT \<Rightarrow> (bytes \<times> bytes) list \<Rightarrow> bool" where
  "mt_exact m es \<longleftrightarrow> mt_holds m es \<and> mt_size m = int (entries_size es + rts_size (mt_rts m))
     \<and> mt_count m = length es + length (mt_rts m) \<and> (\<forall>rt\<in>set (mt_rts m). wf_rangeDel rt)"

text \<open>A memtable small enough that its table stays below four gigabytes, from its two counters.\<close>

definition flush_fits :: "engineConfigT \<Rightarrow> memtableT \<Rightarrow> bool" where
  "flush_fits cfg m \<longleftrightarrow>
     2 * nat (mt_Size m) + mt_Len m * (300 + bitsPerKey (newBloom (cf_BloomBits cfg))) + 200 < 2 ^ 32"

definition mop_wf :: "mop \<Rightarrow> bool" where
  "mop_wf x \<longleftrightarrow> mop_ok x \<and> (\<forall>rt\<in>set (mop_rts x). wf_rangeDel rt)"

lemma entries_size_mset: "mset es = mset es' \<Longrightarrow> entries_size es = entries_size es'"
  unfolding entries_size_def sum_mset_sum_list [symmetric] mset_map by simp

lemma mt_apply_size:
  "mt_apply x m = Some m' \<Longrightarrow> mt_size m' = mt_size m + int (entries_size (mop_entry x) + rts_size (mop_rts x))"
  by (cases x) (auto simp: mt_Put_def mt_putTTL_def mt_del_def mt_delRange_def mt_add_def Let_def entries_size_def rts_size_def
      split: Option.bind_splits)

lemma mt_apply_exact:
  assumes "mt_exact m es" "mop_wf x" "length (sl_arena (mt_list m)) + mop_cost x < 2 ^ 32"
  shows "\<exists>m' es'. mt_apply x m = Some m' \<and> mt_exact m' es' \<and> mset es' = mset (mop_entry x) + mset es \<and> mt_rts m' = mt_rts m @ mop_rts x"
proof -
  have h: "mt_holds m es" and ok: "mop_ok x" using assms(1,2) by (simp_all add: mt_exact_def mop_wf_def)
  obtain m' es' where m: "mt_apply x m = Some m'" "mt_holds m' es'" "mset es' = mset (mop_entry x) + mset es"
    "mt_rts m' = mt_rts m @ mop_rts x" "mt_count m' = mt_count m + 1"
    using mt_apply_ok [OF h ok assms(3)] by (elim exE conjE) (rule that)
  have es: "entries_size es' = entries_size (mop_entry x) + entries_size es"
    using entries_size_mset [of es' "mop_entry x @ es"] m(3) by (simp add: entries_size_def)
  have "length es' = length (mop_entry x) + length es" using arg_cong [where f = size, OF m(3)] by simp
  moreover have "length (mop_entry x) + length (mop_rts x) = 1" by (cases x) simp_all
  ultimately have "mt_exact m' es'"
    using assms(1,2) m mt_apply_size [OF m(1)] es by (auto simp: mt_exact_def mop_wf_def rts_size_def)
  then show ?thesis using m by blast
qed

lemma newMemtable_exact: "mt_exact (newMemtable rng) []"
  by (simp add: mt_exact_def newMemtable_holds) (simp add: newMemtable_def entries_size_def rts_size_def)

section \<open>Sizes of the table of a memtable\<close>

lemma stored_as_length:
  "stored_as fs x y \<Longrightarrow> valid_ikey (fst x) \<Longrightarrow> length (fst y) = length (fst x) \<and> length (snd y) \<le> length (snd x) + 24"
  by (auto simp: stored_as_def blobPointerLen_def ikeyEncode_def ikeyUserKey_def trailerLen_def valid_ikey_def)

lemma raw_size_stored:
  "list_all2 (stored_as fs) es ys \<Longrightarrow> \<forall>x\<in>set es. valid_ikey (fst x) \<Longrightarrow> raw_size ys \<le> entries_size es + 124 * length es"
proof (induction es ys rule: list_all2_induct)
  case (Cons x es y ys)
  then show ?case using stored_as_length [OF Cons.hyps(1)] by (simp add: entries_size_def)
qed (simp add: entries_size_def)

lemma encodeRangeDelBlock_length: "length (encodeRangeDelBlock [] rts) \<le> rts_size rts + 30 * length rts + 10"
proof -
  have "length (concat (map encodeRangeDel rts)) \<le> rts_size rts + 30 * length rts"
  proof (induction rts)
    case (Cons rt rts)
    have "length (encodeRangeDel rt) \<le> length (rt_start rt) + length (rt_end rt) + 30"
      using length_put_uvarint_10 [of "ulen (rt_start rt)"] length_put_uvarint_10 [of "ulen (rt_end rt)"]
        length_put_uvarint_10 [of "rt_seq rt"] by (simp add: encodeRangeDel_def)
    then show ?case using Cons.IH by (simp add: rts_size_def)
  qed (simp add: rts_size_def)
  then show ?thesis using length_put_uvarint_10 [of "ulen rts"] by (simp add: encodeRangeDelBlock_def)
qed

lemma pow2Bytes_le: "pow2Bytes x \<le> x + 8"
  using pow2Bytes_least [of x] by (cases "8 < pow2Bytes x") auto

lemma flush_fits_table:
  assumes "mt_exact m es" "flush_fits cfg m" "list_all2 (stored_as fs) es ys" "cfg_bloomBits wcfg = cf_BloomBits cfg"
  shows "table_fits wcfg ys (mt_rangeTombstones m)"
proof -
  let ?b = "bitsPerKey (newBloom (cf_BloomBits cfg))" and ?n = "length es" and ?r = "length (mt_rts m)"
  have v: "\<forall>x\<in>set es. valid_ikey (fst x)" using assms(1) by (auto simp: mt_exact_def mt_holds_def mem_entry_def)
  have f: "2 * (entries_size es + rts_size (mt_rts m)) + (?n + ?r) * (300 + ?b) + 200 < 2 ^ 32"
    using assms(1,2) by (simp add: flush_fits_def mt_exact_def mt_Size_def mt_Len_def)
  have l: "length ys = ?n" using assms(3) by (simp add: list_all2_lengthD)
  have "pow2Bytes (length ys * ?b) \<le> ?n * ?b + 8" using pow2Bytes_le [of "?n * ?b"] l by simp
  moreover have "(?n + ?r) * (300 + ?b) = 300 * ?n + 300 * ?r + ?n * ?b + ?r * ?b" by (simp add: algebra_simps)
  ultimately show ?thesis
    using raw_size_stored [OF assms(3) v] encodeRangeDelBlock_length [of "mt_rts m"] f assms(4)
    by (simp add: table_fits_def mt_rangeTombstones_def)
qed

lemma flush_fits_values:
  assumes "mt_exact m es" "flush_fits cfg m" "x \<in> set es"
  shows "mem_entry x \<and> length (snd x) < 2 ^ 32"
proof -
  have "length (fst x) + length (snd x) \<le> entries_size es"
    using assms(3) member_le_sum_list [of "length (fst x) + length (snd x)" "map (\<lambda>x. length (fst x) + length (snd x)) es"]
    by (auto simp: entries_size_def)
  then show ?thesis using assms by (auto simp: mt_exact_def mt_holds_def flush_fits_def mt_Size_def)
qed

section \<open>The contents of an engine\<close>

definition vid :: "bytes \<times> bytes \<Rightarrow> bytes \<times> u64" where
  "vid x = (ikeyUserKey (fst x), ikeySeq (fst x))"

definition contents :: "engineT \<Rightarrow> (bytes \<times> bytes) list list \<Rightarrow> (tableMeta \<Rightarrow> (bytes \<times> bytes) list) \<Rightarrow> (bytes \<times> bytes) list" where
  "contents e mes ent = concat mes @ concat (map ent (en_tables e))"

text \<open>What is stored stands for what was written, and nothing is lost.\<close>

definition covers_all :: "blobfs \<Rightarrow> (bytes \<times> bytes) set \<Rightarrow> (bytes \<times> bytes) set \<Rightarrow> bool" where
  "covers_all fs W A \<longleftrightarrow> (\<forall>x\<in>W. \<exists>y\<in>A. stored_as fs x y) \<and> (\<forall>y\<in>A. \<exists>x\<in>W. stored_as fs x y)"

definition numbered :: "u32 \<Rightarrow> (blockCacheKey \<Rightarrow> bytes \<Rightarrow> bool) \<Rightarrow> tableMeta list \<Rightarrow> bool" where
  "numbered n R ts \<longleftrightarrow> (\<forall>t\<in>set ts. tb_num t \<le> n \<and> tr_tableNum (tb_reader t) = tb_num t) \<and> (\<forall>k v. R k v \<longrightarrow> ck_Table k \<le> n)"

definition holds_as ::
  "codecLib \<Rightarrow> (bytes \<Rightarrow> u64) \<Rightarrow> engineT \<Rightarrow> (bytes \<times> bytes) list list \<Rightarrow> (tableMeta \<Rightarrow> (bytes \<times> bytes) list)
   \<Rightarrow> (tableMeta \<Rightarrow> rangeTombstone list) \<Rightarrow> bool" where
  "holds_as lib hash e mes ent rt \<longleftrightarrow>
     (\<exists>R. engine_view lib hash R e mes ent rt \<and> numbered (alloc_n (en_alloc e)) R (en_tables e))
     \<and> list_all2 mt_exact (en_mems e) mes"

definition mop_versions :: "mop list \<Rightarrow> (bytes \<times> bytes) set" where
  "mop_versions xs = set (concat (map mop_entry xs))"

lemma contents_versions: "set (contents e mes ent) = all_versions e mes ent"
  by (auto simp: contents_def all_versions_def)

lemma distinct_unique: "distinct (map vid ys) \<Longrightarrow> unique_versions (set ys)"
  unfolding unique_versions_def distinct_map inj_on_def vid_def by auto

lemma stored_as_vid: "stored_as fs x y \<Longrightarrow> valid_ikey (fst x) \<Longrightarrow> vid y = vid x"
proof (unfold stored_as_def, elim disjE exE conjE)
  fix p assume y: "y = (ikeyEncode [] (ikeyUserKey (fst x)) (ikeySeq (fst x)) ikeyKindBlobRef, encodeBlobPointer [] p)"
  then show "vid y = vid x" by (simp add: vid_def ikeySeq_le_max)
qed simp

lemma covers_all_ext: "covers_all fs W A \<Longrightarrow> fs_ext fs fs' \<Longrightarrow> covers_all fs' W A"
  unfolding covers_all_def using stored_as_ext by blast

definition inv_at ::
  "codecLib \<Rightarrow> (bytes \<Rightarrow> u64) \<Rightarrow> engineConfigT \<Rightarrow> mop list \<Rightarrow> engineT \<Rightarrow> (bytes \<times> bytes) list list \<Rightarrow> (tableMeta \<Rightarrow> (bytes \<times> bytes) list)
   \<Rightarrow> (tableMeta \<Rightarrow> rangeTombstone list) \<Rightarrow> bool" where
  "inv_at lib hash cfg xs e mes ent rt \<longleftrightarrow> holds_as lib hash e mes ent rt
     \<and> distinct (map vid (contents e mes ent))
     \<and> covers_all (en_blobs e) (mop_versions xs) (set (contents e mes ent))
     \<and> (cf_blobPath cfg = None \<longrightarrow> mop_versions xs = set (contents e mes ent))
     \<and> set (all_rts e rt) = set (concat (map mop_rts xs))"

definition engine_inv :: "codecLib \<Rightarrow> (bytes \<Rightarrow> u64) \<Rightarrow> engineConfigT \<Rightarrow> mop list \<Rightarrow> engineT \<Rightarrow> bool" where
  "engine_inv lib hash cfg xs e \<longleftrightarrow> en_cfg e = cfg \<and> (\<forall>x\<in>set xs. mop_wf x) \<and> distinct (map mop_seq xs)
     \<and> (\<exists>mes ent rt. inv_at lib hash cfg xs e mes ent rt)"

lemma engine_invE:
  assumes "engine_inv lib hash cfg xs e"
  obtains mes ent rt where "inv_at lib hash cfg xs e mes ent rt" "en_cfg e = cfg" "\<forall>x\<in>set xs. mop_wf x" "distinct (map mop_seq xs)"
  using assms unfolding engine_inv_def by blast

lemma engine_invI:
  "inv_at lib hash cfg xs e mes ent rt \<Longrightarrow> en_cfg e = cfg \<Longrightarrow> \<forall>x\<in>set xs. mop_wf x \<Longrightarrow> distinct (map mop_seq xs) \<Longrightarrow> engine_inv lib hash cfg xs e"
  unfolding engine_inv_def by blast

text \<open>A change of the state that keeps what is stored, up to order and place.\<close>

lemma inv_at_same:
  assumes "inv_at lib hash cfg xs e mes ent rt" "holds_as lib hash e' mes' ent' rt'" "fs_ext (en_blobs e) (en_blobs e')"
    and "mset (contents e' mes' ent') = mset (contents e mes ent)" "set (all_rts e' rt') = set (all_rts e rt)"
  shows "inv_at lib hash cfg xs e' mes' ent' rt'"
proof -
  have "set (contents e' mes' ent') = set (contents e mes ent)" by (rule mset_eq_setD [OF assms(4)])
  moreover have "mset (map vid (contents e' mes' ent')) = mset (map vid (contents e mes ent))" using assms(4) by simp
  then have "distinct (map vid (contents e' mes' ent')) = distinct (map vid (contents e mes ent))" by (rule mset_eq_imp_distinct_iff)
  ultimately show ?thesis
    using assms(1,2,5) covers_all_ext [OF _ assms(3)] by (simp add: inv_at_def)
qed

section \<open>Flushing\<close>

text \<open>A table that holds a memtable's entries, with large values diverted unless \<open>inl\<close>.\<close>

definition table_for :: "codecLib \<Rightarrow> blobfs \<Rightarrow> bool \<Rightarrow> rangeTombstone list \<Rightarrow> tableMeta \<Rightarrow> (bytes \<times> bytes) list \<Rightarrow> bool" where
  "table_for lib fs inl rts t es \<longleftrightarrow> (\<exists>wcfg ys blks f. list_all2 (stored_as fs) es ys \<and> (inl \<longrightarrow> ys = es)
     \<and> opened lib wcfg ys rts blks f (tb_reader t)
     \<and> (\<forall>x\<in>set ys. mayContain t (ikeyUserKey (fst x))) \<and> (\<forall>rt\<in>set rts. \<forall>u. rt_contains rt u \<longrightarrow> mayContain t u))"

lemma writeTable_ok:
  assumes it: "mi_yields (tj_it j) es" and es: "\<forall>x\<in>set es. mem_entry x \<and> length (snd x) < 2 ^ 32"
    and bw: "bw_ok fs0 a0 (tj_bw j) fs" "bw_good (tj_bw j) fs" and ll: "lossless lib" and rd: "\<forall>rt\<in>set (tj_rts j). wf_rangeDel rt"
    and fit: "\<And>fs' ys wcfg. list_all2 (stored_as fs') es ys \<Longrightarrow> cfg_bloomBits wcfg = cf_BloomBits cfg \<Longrightarrow> table_fits wcfg ys (tj_rts j)"
  shows "\<exists>meta bw' fs'. writeTable lib cfg io j fs = Some (meta, bw', fs') \<and> bw_ok fs0 a0 bw' fs' \<and> fs_ext fs fs'
    \<and> (\<forall>t. meta = Inr t \<longrightarrow> tr_tableNum (tb_reader t) = tj_num j \<and> tb_num t = tj_num j \<and> table_for lib fs' (tj_bw j = None) (tj_rts j) t es)"
proof -
  have early: ?thesis if "writeTable lib cfg io j fs = Some (Inl err, tj_bw j, fs)" for err
    using that bw(1) by (auto intro!: exI [of _ "Inl err"])
  let ?cn = "codecFromName (resolveLevelCodec (cf_LevelCodecs cfg) (int (tj_depth j)) (cf_FreshCodecName cfg) '''' False)"
  show ?thesis
  proof (cases "\<exists>c. tio_open io = None \<and> ?cn = Inr c")
    case False
    then show ?thesis using bw(1)
      by (cases "tio_open io"; cases ?cn) (auto intro!: early simp: writeTable_def Let_def)
  next
    case True
    then obtain c where c: "tio_open io = None" "?cn = Inr c" by blast
    define wcfg where "wcfg = \<lparr>cfg_codec = c, cfg_bloomBits = cf_BloomBits cfg, cfg_blockSize = cf_BlockSize cfg\<rparr>"
    define w where "w = setRangeTombstones (tj_rts j) (newTableWriter \<lparr>f_data = [], f_sched = tio_writes io\<rparr> wcfg)"
    obtain err bw' fs' w' where l: "writeTable_loop lib (cf_ValueThreshold cfg) (tj_it j) (tj_bw j) fs w = Some (err, bw', fs', w')"
      "bw_ok fs0 a0 bw' fs'" "fs_ext fs fs'"
      "err = None \<longrightarrow> bw_good bw' fs' \<and> (\<exists>ys. list_all2 (stored_as fs') es ys \<and> tw_adds lib ys w = (None, w') \<and> (tj_bw j = None \<longrightarrow> ys = es))"
      using writeTable_loop_ok [OF it es bw, of lib "cf_ValueThreshold cfg" w] by (elim exE conjE) (rule that)
    have wt: "writeTable lib cfg io j fs = Some (case err of Some err \<Rightarrow> Inl err | None \<Rightarrow> sealTable lib cfg io j w', bw', fs')"
      using c l(1) by (simp add: writeTable_def Let_def w_def wcfg_def)
    have "tr_tableNum (tb_reader t) = tj_num j \<and> tb_num t = tj_num j \<and> table_for lib fs' (tj_bw j = None) (tj_rts j) t es"
      if t: "(case err of Some err \<Rightarrow> Inl err | None \<Rightarrow> sealTable lib cfg io j w') = Inr t" for t
    proof -
      have n: "err = None" "sealTable lib cfg io j w' = Inr t" using t by (cases err; simp)+
      obtain ys where ys: "list_all2 (stored_as fs') es ys" "tw_adds lib ys w = (None, w')" "tj_bw j = None \<longrightarrow> ys = es"
        using l(4) [rule_format, OF n(1)] by (elim exE conjE) (rule that)
      have "table_fits wcfg ys (tj_rts j)" by (rule fit [OF ys(1)]) (simp add: wcfg_def)
      note st = sealTable_ok [OF ys(2) [unfolded w_def] n(2) this ll rd]
      obtain blks f where "opened lib wcfg ys (tj_rts j) blks f (tb_reader t)" using st by (elim exE conjE) (rule that)
      then show ?thesis using st ys(1,3) unfolding table_for_def by (intro conjI exI [of _ wcfg] exI [of _ ys] exI [of _ blks] exI [of _ f]) simp_all
    qed
    then show ?thesis using wt l(2,3) by blast
  qed
qed

lemma blob_close_any: "blob_close w fs = (r, w', fs') \<Longrightarrow> blobs fs' = blobs fs"
  using sealCurrent_any [of w fs] by (auto simp: blob_close_def split: prod.splits sum.splits)

lemma flush_finish_fail:
  assumes "bw_ok fs0 a0 bw (en_blobs e)" "flush_finish io meta bw e = (r, e')" "r \<noteq> Inr ()"
  shows "\<exists>fs. e' = e\<lparr>en_blobs := fs\<rparr> \<and> fs_ext fs0 fs"
proof (cases bw)
  case None
  then have "e' = e\<lparr>en_blobs := en_blobs e\<rparr>" using assms by (auto simp: flush_finish_def split: option.splits sum.splits)
  moreover have "fs_ext fs0 (en_blobs e)" using assms(1) by (simp add: bw_ok_def)
  ultimately show ?thesis by blast
next
  case (Some w)
  show ?thesis
  proof (cases meta)
    case (Inl err)
    obtain w' fs where a: "abandon w (en_blobs e) = (w', fs)" by fastforce
    have "e' = e\<lparr>en_blobs := fs\<rparr>" using assms(2) Inl Some a by (simp add: flush_finish_def)
    moreover have "fs_ext fs0 fs" using assms(1) Some by (intro abandon_ext [OF a, of fs0 a0]) (simp_all add: bw_ok_def)
    ultimately show ?thesis by blast
  next
    case (Inr t)
    obtain fin w' fs where a: "blob_close w (en_blobs e) = (fin, w', fs)" by (cases "blob_close w (en_blobs e)") auto
    have "fs_ext fs0 fs" using assms(1) blob_close_any [OF a] by (simp add: bw_ok_def fs_ext_def)
    moreover have "e' = e\<lparr>en_blobs := fs\<rparr>"
      using assms(2,3) Inr Some a by (auto simp: flush_finish_def Let_def split: sum.splits option.splits if_splits)
    ultimately show ?thesis by blast
  qed
qed

lemma flush_finish_done:
  assumes "flush_finish io meta bw e = (Inr (), e')"
  shows "\<exists>t fs. meta = Inr t \<and> e' = install t (e\<lparr>en_blobs := fs\<rparr>) \<and> blobs fs = blobs (en_blobs e)"
proof (cases meta)
  case (Inl err)
  then show ?thesis using assms by (auto simp: flush_finish_def split: option.splits prod.splits)
next
  case (Inr t)
  show ?thesis
  proof (cases bw)
    case None
    then have "e' = install t (e\<lparr>en_blobs := en_blobs e\<rparr>)" using assms Inr by (auto simp: flush_finish_def split: option.splits)
    then show ?thesis using Inr by blast
  next
    case (Some w)
    obtain fin w' fs where a: "blob_close w (en_blobs e) = (fin, w', fs)" by (cases "blob_close w (en_blobs e)") auto
    have "e' = install t (e\<lparr>en_blobs := fs\<rparr>)"
      using assms Inr Some a by (auto simp: flush_finish_def Let_def split: sum.splits option.splits if_splits)
    then show ?thesis using Inr blob_close_any [OF a] by blast
  qed
qed

lemma holds_as_frame:
  assumes "holds_as lib hash e mes ent rt" "alloc_n (en_alloc e) \<le> alloc_n a"
  shows "holds_as lib hash (e\<lparr>en_blobs := fs, en_alloc := a\<rparr>) mes ent rt"
proof -
  obtain R where R: "engine_view lib hash R e mes ent rt" "numbered (alloc_n (en_alloc e)) R (en_tables e)" "list_all2 mt_exact (en_mems e) mes"
    using assms(1) by (auto simp: holds_as_def)
  have "en_mems (e\<lparr>en_blobs := fs, en_alloc := a\<rparr>) = en_mems e" by (simp add: en_mems_def)
  moreover have "numbered (alloc_n a) R (en_tables e)"
    using R(2) assms(2) unfolding numbered_def by (blast intro: order_trans)
  ultimately show ?thesis using R unfolding holds_as_def engine_view_def by auto
qed

lemma coherent_weaken: "coherent h R c \<Longrightarrow> (\<And>k v. R k v \<Longrightarrow> R' k v) \<Longrightarrow> coherent h R' c"
  by (simp add: coherent_def)

lemma cache_ok_mono: "cache_ok hash R cache \<Longrightarrow> (\<And>k v. R k v \<Longrightarrow> R' k v) \<Longrightarrow> cache_ok hash R' cache"
  by (auto simp: cache_ok_def split: option.splits intro: coherent_weaken)

lemma stored_wf_value:
  assumes "stored_as fs x y" "mem_entry x"
  shows "wf_value y"
proof -
  from assms(1) consider "y = x" | raw d p where "raw_value x raw d" "bp_expiresAt p = d" 
    "y = (ikeyEncode [] (ikeyUserKey (fst x)) (ikeySeq (fst x)) ikeyKindBlobRef, encodeBlobPointer [] p)"
    by (auto simp: stored_as_def)
  then show ?thesis
  proof cases
    case 1
    then show ?thesis using assms(2) by (auto simp: wf_value_def mem_entry_def ikeyKind_defs)
  next
    case 2
    have "int64_range d" using 2(1) decodeExpiringValue_inv [of "snd x"] by (auto simp: raw_value_def int64_range_def)
    then show ?thesis using 2 decodeBlobPointer_encode [of p] by (simp add: wf_value_def ikeySeq_le_max ikeyKind_defs)
  qed
qed

lemma stored_of: "list_all2 P es ys \<Longrightarrow> y \<in> set ys \<Longrightarrow> \<exists>x\<in>set es. P x y"
  by (induction rule: list_all2_induct) auto

lemma stored_to: "list_all2 P es ys \<Longrightarrow> x \<in> set es \<Longrightarrow> \<exists>y\<in>set ys. P x y"
  by (induction rule: list_all2_induct) auto

lemma install_view:
  assumes v: "engine_view lib hash R e (es0 # es # rest) ent rt" "numbered n R (en_tables e)"
    and m: "en_imm e = Some m" "mt_exact m es" and num: "n < tb_num t" "tb_num t \<le> n'" "tr_tableNum (tb_reader t) = tb_num t"
    and t: "opened lib wcfg ys (mt_rts m) blks f (tb_reader t)" "list_all2 (stored_as fs) es ys"
      "\<forall>x\<in>set ys. mayContain t (ikeyUserKey (fst x))" "\<forall>rt\<in>set (mt_rts m). \<forall>u. rt_contains rt u \<longrightarrow> mayContain t u"
  shows "\<exists>R'. engine_view lib hash R' (install t e) (es0 # rest) (ent(t := ys)) (rt(t := mt_rts m)) \<and> numbered n' R' (en_tables e @ [t])"
proof -
  define R' where "R' k x = (if ck_Table k = tb_num t then blocks_of lib wcfg ys (mt_rts m) blks (tb_num t) k x else R k x)" for k x
  have old: "ck_Table k \<noteq> tb_num t" if "R k x" for k x using that v(2) num(1) by (auto simp: numbered_def)
  have "serves R' lib wcfg ys (mt_rts m) blks (tb_num t)"
    using serves_own [OF t(1), of "tb_num t"] by (simp add: serves_def R'_def block_key_def)
  moreover have "wf_value y" if y: "y \<in> set ys" for y
  proof -
    obtain x where "x \<in> set es" "stored_as fs x y" using stored_of [OF t(2) y] by blast
    then show ?thesis using stored_wf_value m(2) by (auto simp: mt_exact_def mt_holds_def)
  qed
  ultimately have new: "table_view lib R' t ys (mt_rts m)" using t num(3) by (auto simp: table_view_def)
  have keep: "table_view lib R' t' (ent t') (rt t')" "t' \<noteq> t" if t': "t' \<in> set (en_tables e)" for t'
  proof -
    have n: "tb_num t' \<noteq> tb_num t" "tr_tableNum (tb_reader t') = tb_num t'" using v(2) t' num(1) by (auto simp: numbered_def)
    have "table_view lib R t' (ent t') (rt t')" using v(1) t' by (simp add: engine_view_def)
    then show "table_view lib R' t' (ent t') (rt t')" using n by (simp add: table_view_def serves_def R'_def block_key_def)
    show "t' \<noteq> t" using n by blast
  qed
  have tv: "\<forall>t'\<in>set (en_tables e @ [t]). table_view lib R' t' ((ent(t := ys)) t') ((rt(t := mt_rts m)) t')"
    using new keep by auto
  have "cache_ok hash R (en_cache e)" using v(1) by (simp add: engine_view_def)
  then have c: "cache_ok hash R' (en_cache e)" by (rule cache_ok_mono) (use old in \<open>auto simp: R'_def\<close>)
  have "list_all2 mt_holds (en_mems (install t e)) (es0 # rest)"
    using v(1) m(1) by (simp add: engine_view_def en_mems_def install_def setTables_def)
  then have "engine_view lib hash R' (install t e) (es0 # rest) (ent(t := ys)) (rt(t := mt_rts m))"
    using tv c by (simp add: engine_view_def install_def setTables_def)
  moreover have "numbered n' R' (en_tables e @ [t])"
    using v(2) num by (auto simp: numbered_def R'_def intro: order_trans less_imp_le split: if_splits)
  ultimately show ?thesis by blast
qed

lemma engine_inv_frame:
  assumes "engine_inv lib hash cfg xs e" "alloc_n (en_alloc e) \<le> alloc_n a" "fs_ext (en_blobs e) fs"
  shows "engine_inv lib hash cfg xs (e\<lparr>en_blobs := fs, en_alloc := a\<rparr>)"
proof -
  let ?e = "e\<lparr>en_blobs := fs, en_alloc := a\<rparr>"
  obtain mes ent rt where i: "inv_at lib hash cfg xs e mes ent rt" "en_cfg e = cfg" "\<forall>x\<in>set xs. mop_wf x" "distinct (map mop_seq xs)"
    using assms(1) by (rule engine_invE)
  have "contents ?e mes ent = contents e mes ent" "all_rts ?e rt = all_rts e rt"
    by (simp_all add: contents_def all_rts_def en_mems_def)
  moreover have "holds_as lib hash ?e mes ent rt" using i(1) holds_as_frame [OF _ assms(2)] by (simp add: inv_at_def)
  ultimately have "inv_at lib hash cfg xs ?e mes ent rt" using assms(3) by (intro inv_at_same [OF i(1)]) simp_all
  then show ?thesis by (rule engine_invI) (simp_all add: i(2-4))
qed

lemma rotate_inv:
  assumes "engine_inv lib hash cfg xs e" "rotate e = (any, e')"
  shows "engine_inv lib hash cfg xs e' \<and> any = (en_imm e' \<noteq> None) \<and> en_alloc e' = en_alloc e"
proof (cases "en_imm e \<noteq> None \<or> mt_empty (en_mem e)")
  case True
  then show ?thesis using assms by (auto simp: rotate_def)
next
  case False
  then have e': "any" "e' = e\<lparr>en_imm := Some (en_mem e), en_mem := newMemtable (en_seed e)\<rparr>" and imm: "en_imm e = None"
    using assms(2) by (auto simp: rotate_def)
  obtain mes ent rt where i: "inv_at lib hash cfg xs e mes ent rt" "en_cfg e = cfg" "\<forall>x\<in>set xs. mop_wf x" "distinct (map mop_seq xs)"
    using assms(1) by (rule engine_invE)
  have ms: "en_mems e' = newMemtable (en_seed e) # en_mems e" using imm by (simp add: e' en_mems_def)
  have "holds_as lib hash e mes ent rt" using i(1) by (simp add: inv_at_def)
  then have "holds_as lib hash e' ([] # mes) ent rt"
    using newMemtable_exact newMemtable_holds(1) unfolding holds_as_def engine_view_def ms by (auto simp: e')
  moreover have "contents e' ([] # mes) ent = contents e mes ent" by (simp add: contents_def e')
  moreover have "all_rts e' rt = all_rts e rt" by (simp add: all_rts_def ms mt_rangeTombstones_def newMemtable_def) (simp add: e')
  ultimately have "inv_at lib hash cfg xs e' ([] # mes) ent rt" by (intro inv_at_same [OF i(1)]) (simp_all add: e')
  from engine_invI [OF this] show ?thesis using i(2-4) by (simp add: e')
qed

lemma seal_inv:
  assumes "engine_inv lib hash cfg xs e"
  shows "engine_inv lib hash cfg xs (sealReadOnlyRecoveryMemtable e)"
proof (cases "mt_empty (en_mem e)")
  case True
  then show ?thesis using assms by (simp add: sealReadOnlyRecoveryMemtable_def)
next
  case False
  let ?e = "e\<lparr>en_recoveryMems := en_recoveryMems e @ [en_mem e], en_mem := newMemtable (en_seed e)\<rparr>"
  obtain mes ent rt where i: "inv_at lib hash cfg xs e mes ent rt" "en_cfg e = cfg" "\<forall>x\<in>set xs. mop_wf x" "distinct (map mop_seq xs)"
    using assms(1) by (rule engine_invE)
  define tl_mems where "tl_mems = (case en_imm e of None \<Rightarrow> [] | Some m \<Rightarrow> [m]) @ en_recoveryMems e"
  have ms: "en_mems e = en_mem e # tl_mems" "en_mems ?e = newMemtable (en_seed e) # tl_mems @ [en_mem e]"
    by (simp_all add: en_mems_def tl_mems_def)
  have h: "holds_as lib hash e mes ent rt" using i(1) by (simp add: inv_at_def)
  then obtain es0 rest where mes: "mes = es0 # rest" by (cases mes) (auto simp: holds_as_def ms)
  let ?mes = "[] # rest @ [es0]"
  obtain R where R: "engine_view lib hash R e mes ent rt" "numbered (alloc_n (en_alloc e)) R (en_tables e)" "list_all2 mt_exact (en_mems e) mes"
    using h by (auto simp: holds_as_def)
  have "list_all2 mt_exact (en_mems ?e) ?mes" "list_all2 mt_holds (en_mems ?e) ?mes"
    using R newMemtable_exact newMemtable_holds(1) unfolding engine_view_def ms mes by (auto intro: list_all2_appendI)
  then have "holds_as lib hash ?e ?mes ent rt" using R unfolding holds_as_def engine_view_def by auto
  moreover have "mset (contents ?e ?mes ent) = mset (contents e mes ent)" by (simp add: contents_def mes)
  moreover have "set (all_rts ?e rt) = set (all_rts e rt)"
    unfolding all_rts_def ms by (auto simp: mt_rangeTombstones_def newMemtable_def)
  ultimately have "inv_at lib hash cfg xs ?e ?mes ent rt" by (intro inv_at_same [OF i(1)]) simp_all
  from engine_invI [OF this] show ?thesis using i(2-4) False by (simp add: sealReadOnlyRecoveryMemtable_def)
qed

lemma stored_mem_entry: "stored_as fs x y \<Longrightarrow> mem_entry y \<Longrightarrow> y = x"
  by (auto simp: stored_as_def mem_entry_def ikeySeq_le_max ikeyKind_defs)

lemma covers_replace:
  assumes c: "covers_all fs W (set es \<union> A)" and ext: "fs_ext fs fs'" and st: "list_all2 (stored_as fs') es ys" and m: "\<forall>x\<in>set es. mem_entry x"
  shows "covers_all fs' W (A \<union> set ys)"
proof -
  have "\<exists>y\<in>A \<union> set ys. stored_as fs' x y" if x: "x \<in> W" for x
  proof -
    obtain y where y: "y \<in> set es \<union> A" "stored_as fs x y" using c x unfolding covers_all_def by blast
    show ?thesis
    proof (cases "y \<in> set es")
      case True
      then have "y = x" using stored_mem_entry [OF y(2)] m by blast
      then show ?thesis using stored_to [OF st] True by blast
    next
      case False
      then show ?thesis using y stored_as_ext [OF y(2) ext] by blast
    qed
  qed
  moreover have "\<exists>x\<in>W. stored_as fs' x y" if y: "y \<in> A \<union> set ys" for y
  proof (cases "y \<in> A")
    case True
    then obtain x where "x \<in> W" "stored_as fs x y" using c unfolding covers_all_def by blast
    then show ?thesis using stored_as_ext ext by blast
  next
    case False
    then obtain x where x: "x \<in> set es" "stored_as fs' x y" using y stored_of [OF st] by blast
    then obtain x0 where "x0 \<in> W" "stored_as fs x0 x" using c unfolding covers_all_def by blast
    then show ?thesis using stored_mem_entry m x by blast
  qed
  ultimately show ?thesis by (simp add: covers_all_def)
qed

lemma stored_vids: "list_all2 (stored_as fs) es ys \<Longrightarrow> \<forall>x\<in>set es. mem_entry x \<Longrightarrow> map vid ys = map vid es"
  by (induction rule: list_all2_induct) (auto simp: stored_as_vid mem_entry_def)

lemma install_inv:
  assumes inv: "engine_inv lib hash cfg xs e" and m: "en_imm e = Some m" and fs: "fs_ext (en_blobs e) fs"
    and num: "alloc_n (en_alloc e) < tb_num t" "tb_num t \<le> alloc_n a" "tr_tableNum (tb_reader t) = tb_num t"
    and t: "\<And>es. mt_exact m es \<Longrightarrow> table_for lib fs inl (mt_rts m) t es" and inl: "cf_blobPath cfg = None \<Longrightarrow> inl"
  shows "engine_inv lib hash cfg xs (install t (e\<lparr>en_blobs := fs, en_alloc := a\<rparr>))"
proof -
  let ?e = "install t (e\<lparr>en_blobs := fs, en_alloc := a\<rparr>)"
  obtain mes ent rt where i: "inv_at lib hash cfg xs e mes ent rt" "en_cfg e = cfg" "\<forall>x\<in>set xs. mop_wf x" "distinct (map mop_seq xs)"
    using inv by (rule engine_invE)
  obtain R where R: "engine_view lib hash R e mes ent rt" "numbered (alloc_n (en_alloc e)) R (en_tables e)" "list_all2 mt_exact (en_mems e) mes"
    using i(1) by (auto simp: inv_at_def holds_as_def)
  have ms: "en_mems e = en_mem e # m # en_recoveryMems e" using m by (simp add: en_mems_def)
  obtain es0 es rest where mes: "mes = es0 # es # rest" and ex: "mt_exact m es" "list_all2 mt_exact (en_mem e # en_recoveryMems e) (es0 # rest)"
    using R(3) unfolding ms by (auto simp: list_all2_Cons1)
  obtain wcfg ys blks f where y: "list_all2 (stored_as fs) es ys" "inl \<longrightarrow> ys = es"
      "opened lib wcfg ys (mt_rts m) blks f (tb_reader t)" "\<forall>x\<in>set ys. mayContain t (ikeyUserKey (fst x))"
      "\<forall>rt\<in>set (mt_rts m). \<forall>u. rt_contains rt u \<longrightarrow> mayContain t u"
    using t [OF ex(1)] unfolding table_for_def by (elim exE conjE) (rule that)
  let ?ent = "ent(t := ys)" and ?rt = "rt(t := mt_rts m)" and ?e1 = "e\<lparr>en_blobs := fs, en_alloc := a\<rparr>"
  have v1: "engine_view lib hash R ?e1 (es0 # es # rest) ent rt" "numbered (alloc_n (en_alloc e)) R (en_tables ?e1)" "en_imm ?e1 = Some m"
    using R(1,2) m unfolding mes by (auto simp: engine_view_def en_mems_def)
  obtain R' where R': "engine_view lib hash R' ?e (es0 # rest) ?ent ?rt" "numbered (alloc_n a) R' (en_tables ?e1 @ [t])"
    using install_view [OF v1 ex(1) num y(3,1,4,5)] by blast
  have eqs: "en_tables ?e = en_tables e @ [t]" "en_mems ?e = en_mem e # en_recoveryMems e" "en_blobs ?e = fs" "en_alloc ?e = a" "en_cfg ?e = cfg"
    using i(2) by (simp_all add: install_def setTables_def en_mems_def)
  have h: "holds_as lib hash ?e (es0 # rest) ?ent ?rt" using R' ex(2) eqs unfolding holds_as_def by auto
  have tn: "t \<notin> set (en_tables e)" using R(2) num(1) by (auto simp: numbered_def)
  have old: "map ?ent (en_tables e) = map ent (en_tables e)" "map ?rt (en_tables e) = map rt (en_tables e)" using tn by auto
  define A where "A = concat (es0 # rest) @ concat (map ent (en_tables e))"
  have c: "mset (contents e mes ent) = mset (es @ A)" "contents ?e (es0 # rest) ?ent = A @ ys"
    by (simp add: contents_def mes A_def, simp add: contents_def eqs(1) A_def del: map_fun_upd add: old(1))
  have mem: "\<forall>x\<in>set es. mem_entry x" using ex(1) by (simp add: mt_exact_def mt_holds_def)
  have cs: "set (contents e mes ent) = set es \<union> set A" using mset_eq_setD [OF c(1)] by simp
  have "covers_all fs (mop_versions xs) (set A \<union> set ys)"
    using i(1) cs unfolding inv_at_def by (intro covers_replace [OF _ fs y(1) mem]) simp
  moreover have "mset (map vid (A @ ys)) = mset (map vid (contents e mes ent))"
    using stored_vids [OF y(1) mem] c(1) by simp
  then have "distinct (map vid (A @ ys)) = distinct (map vid (contents e mes ent))" by (rule mset_eq_imp_distinct_iff)
  moreover have "set (all_rts ?e ?rt) = set (all_rts e rt)"
    unfolding all_rts_def eqs ms using old(2) by (auto simp: mt_rangeTombstones_def)
  ultimately have "inv_at lib hash cfg xs ?e (es0 # rest) ?ent ?rt"
    using i(1) h cs y(2) inl unfolding inv_at_def eqs c(2) by auto
  from engine_invI [OF this eqs(5) i(3,4)] show ?thesis .
qed

text \<open>The memtable the next flush writes.\<close>

definition flush_mem :: "engineT \<Rightarrow> memtableT" where
  "flush_mem e = (case en_imm e of Some m \<Rightarrow> m | None \<Rightarrow> en_mem e)"

lemma rotate_flush_mem: "rotate e = (any, e') \<Longrightarrow> en_imm e' = Some m \<Longrightarrow> m = flush_mem e"
  by (auto simp: rotate_def flush_mem_def split: if_splits)

lemma imm_exact:
  assumes "engine_inv lib hash cfg xs e" "en_imm e = Some m"
  shows "\<exists>es. mt_exact m es"
proof -
  obtain mes ent rt where "inv_at lib hash cfg xs e mes ent rt" using assms(1) by (rule engine_invE)
  then have "list_all2 mt_exact (en_mems e) mes" by (simp add: inv_at_def holds_as_def)
  then show ?thesis using assms(2) by (auto simp: en_mems_def list_all2_Cons1)
qed

lemma writeTable_mem:
  assumes ex: "mt_exact m es" and ll: "lossless lib" and fit: "flush_fits cfg m" and bw: "bw_ok fs0 a0 bw fs" "bw_good bw fs"
    and j: "tj_it j = mt_newIterator m" "tj_rts j = mt_rangeTombstones m" "tj_bw j = bw"
  shows "\<exists>meta bw' fs'. writeTable lib cfg io j fs = Some (meta, bw', fs') \<and> bw_ok fs0 a0 bw' fs' \<and> fs_ext fs fs'
    \<and> (\<forall>t. meta = Inr t \<longrightarrow> tr_tableNum (tb_reader t) = tj_num j \<and> tb_num t = tj_num j \<and> table_for lib fs' (bw = None) (mt_rts m) t es)"
proof -
  have h: "mt_holds m es" "\<forall>rt\<in>set (mt_rts m). wf_rangeDel rt" using ex by (simp_all add: mt_exact_def)
  have es: "\<forall>x\<in>set es. mem_entry x \<and> length (snd x) < 2 ^ 32" using flush_fits_values [OF ex fit] by blast
  have f: "table_fits wcfg ys (mt_rangeTombstones m)" if "list_all2 (stored_as fs') es ys" "cfg_bloomBits wcfg = cf_BloomBits cfg" for fs' ys wcfg
    by (rule flush_fits_table [OF ex fit that])
  have rts: "tj_rts j = mt_rts m" by (simp add: j mt_rangeTombstones_def)
  from writeTable_ok [where j = j, OF _ es _ _ ll, of fs0 a0 fs cfg io] show ?thesis
    using mt_newIterator_yields [OF h(1)] bw h(2) f unfolding j rts [symmetric] by simp
qed

lemma writeTable_imm:
  assumes inv: "engine_inv lib hash cfg xs e" and m: "en_imm e = Some m" and ll: "lossless lib" and fit: "flush_fits cfg m"
    and bw: "bw_ok fs0 a0 bw fs" "bw_good bw fs"
    and j: "tj_it j = mt_newIterator m" "tj_rts j = mt_rangeTombstones m" "tj_bw j = bw"
  shows "\<exists>meta bw' fs'. writeTable lib cfg io j fs = Some (meta, bw', fs') \<and> bw_ok fs0 a0 bw' fs' \<and> fs_ext fs fs'
    \<and> (\<forall>t. meta = Inr t \<longrightarrow> tr_tableNum (tb_reader t) = tj_num j \<and> tb_num t = tj_num j
        \<and> (\<forall>es. mt_exact m es \<longrightarrow> table_for lib fs' (bw = None) (mt_rts m) t es))"
proof -
  obtain es where es: "mt_exact m es" using imm_exact [OF inv m] by blast
  obtain meta bw' fs' where w: "writeTable lib cfg io j fs = Some (meta, bw', fs')" "bw_ok fs0 a0 bw' fs'" "fs_ext fs fs'"
    "\<forall>t. meta = Inr t \<longrightarrow> tr_tableNum (tb_reader t) = tj_num j \<and> tb_num t = tj_num j"
    using writeTable_mem [OF es ll fit bw j, of io] by blast
  have "table_for lib fs' (bw = None) (mt_rts m) t es"
    if "mt_exact m es" "meta = Inr t" for es t
    using writeTable_mem [OF that(1) ll fit bw j, of io] w(1) that(2) by simp
  then show ?thesis using w by blast
qed

lemma Flush_inv:
  assumes inv: "engine_inv lib hash cfg xs e" and ll: "lossless lib" and fit: "flush_fits cfg (flush_mem e)" and bs: "cf_BlobFileSize cfg < 2 ^ 63"
  shows "\<exists>r e'. Flush lib io e = Some (r, e') \<and> engine_inv lib hash cfg xs e' \<and> (r = Inr () \<longrightarrow> en_imm e' = None)"
proof -
  obtain any e1 where ro: "rotate e = (any, e1)" by fastforce
  have i1: "engine_inv lib hash cfg xs e1" "any = (en_imm e1 \<noteq> None)" "en_cfg e1 = cfg"
    using rotate_inv [OF inv ro] by (auto simp: engine_inv_def)
  show ?thesis
  proof (cases "en_imm e1")
    case None
    then show ?thesis using i1 ro by (simp add: Flush_def)
  next
    case (Some m)
    have fitm: "flush_fits cfg m" using fit rotate_flush_mem [OF ro Some] by simp
    obtain num a where n: "Next (en_alloc e1) = (num, a)" by fastforce
    have a: "alloc_n (en_alloc e1) \<le> alloc_n a" "num \<noteq> 0 \<Longrightarrow> num = alloc_n a \<and> alloc_n (en_alloc e1) < num" using Next_alloc [OF n] by auto
    have i2: "engine_inv lib hash cfg xs (e1\<lparr>en_alloc := a\<rparr>)" using engine_inv_frame [OF i1(1) a(1), of "en_blobs e1"] by simp
    show ?thesis
    proof (cases "num = 0 \<or> (\<exists>err. en_tablePath e1 num = Inl err)")
      case True
      then show ?thesis using i1 i2 ro n Some by (auto simp: Flush_def Let_def)
    next
      case False
      then obtain path where path: "num \<noteq> 0" "en_tablePath e1 num = Inr path" by (cases "en_tablePath e1 num") auto
      define bw where "bw = (if valueSeparationOn e1 then Some (newBlobWriter a (cf_BlobFileSize cfg)) else None)"
      let ?j = "\<lparr>tj_num = num, tj_depth = 0, tj_path = path, tj_it = mt_newIterator m, tj_rts = mt_rangeTombstones m, tj_bw = bw\<rparr>"
      have bwok: "bw_ok (en_blobs e1) (alloc_n a) bw (en_blobs e1)" "bw_good bw (en_blobs e1)"
        using newBlobWriter_inv [OF bs] by (auto simp: bw_ok_def bw_good_def bw_def bw_fresh_def newBlobWriter_def)
      obtain meta bw' fs where w: "writeTable lib cfg (fio_table io) ?j (en_blobs e1) = Some (meta, bw', fs)"
        "bw_ok (en_blobs e1) (alloc_n a) bw' fs" "fs_ext (en_blobs e1) fs"
        "\<forall>t. meta = Inr t \<longrightarrow> tr_tableNum (tb_reader t) = num \<and> tb_num t = num \<and> (\<forall>es. mt_exact m es \<longrightarrow> table_for lib fs (bw = None) (mt_rts m) t es)"
        using writeTable_imm [OF i1(1) Some ll fitm bwok, of ?j "fio_table io"] by auto
      define a' where "a' = (case bw' of None \<Rightarrow> a | Some w \<Rightarrow> bw_alloc w)"
      have a': "alloc_n a \<le> alloc_n a'" using w(2) by (auto simp: a'_def bw_ok_def bw_fresh_def split: option.split)
      obtain r e' where ff: "flush_finish io meta bw' (e1\<lparr>en_blobs := fs, en_alloc := a'\<rparr>) = (r, e')" by fastforce
      have bwe: "(if valueSeparationOn (e1\<lparr>en_alloc := a\<rparr>) then Some (newBlobWriter a (cf_BlobFileSize cfg)) else None) = bw"
        by (simp add: bw_def valueSeparationOn_def)
      have fl: "Flush lib io e = Some (r, e')"
        using ro i1 Some n path w(1) ff by (simp add: Flush_def Let_def bwe a'_def cong: if_cong option.case_cong)
      show ?thesis
      proof (cases "r = Inr ()")
        case False
        obtain fs2 where "e' = e1\<lparr>en_blobs := fs, en_alloc := a'\<rparr>\<lparr>en_blobs := fs2\<rparr>" and ext: "fs_ext (en_blobs e1) fs2"
          using flush_finish_fail [OF _ ff False, of "en_blobs e1" "alloc_n a"] w(2) by auto
        then have e': "e' = e1\<lparr>en_blobs := fs2, en_alloc := a'\<rparr>" by simp
        have "engine_inv lib hash cfg xs e'" unfolding e' by (rule engine_inv_frame [OF i1(1) order_trans [OF a(1) a'] ext])
        then show ?thesis using fl False by blast
      next
        case True
        obtain t fs2 where t: "meta = Inr t" "blobs fs2 = blobs fs" and "e' = install t (e1\<lparr>en_blobs := fs, en_alloc := a'\<rparr>\<lparr>en_blobs := fs2\<rparr>)"
          using flush_finish_done [OF ff [unfolded True]] by auto
        moreover have "e1\<lparr>en_blobs := fs, en_alloc := a'\<rparr>\<lparr>en_blobs := fs2\<rparr> = e1\<lparr>en_blobs := fs2, en_alloc := a'\<rparr>" by simp
        ultimately have e': "e' = install t (e1\<lparr>en_blobs := fs2, en_alloc := a'\<rparr>)" by (simp only:)
        have ext: "fs_ext (en_blobs e1) fs2" using w(3) t(2) by (simp add: fs_ext_def)
        have "stored_as fs2 = stored_as fs" using t(2) by (simp add: stored_as_def fun_eq_iff)
        then have tf: "table_for lib fs2 (bw = None) (mt_rts m) t es" if "mt_exact m es" for es
          using w(4) t(1) that by (simp add: table_for_def)
        have num: "alloc_n (en_alloc e1) < tb_num t" "tb_num t \<le> alloc_n a'" "tr_tableNum (tb_reader t) = tb_num t"
          using w(4) t(1) a(2) [OF path(1)] a' by auto
        have "engine_inv lib hash cfg xs e'" unfolding e'
          by (rule install_inv [OF i1(1) Some ext num tf]) (auto simp: bw_def valueSeparationOn_def i1)
        moreover have "en_imm e' = None" by (simp add: e' install_def)
        ultimately show ?thesis using fl by blast
      qed
    qed
  qed
qed

section \<open>Writes\<close>

fun en_apply :: "mop \<Rightarrow> engineT \<Rightarrow> engineT option" where
  "en_apply (MPut seq key val) e = en_Put seq key val e"
| "en_apply (MPutTTL seq key val expiresAt) e = en_putTTL seq key val expiresAt e"
| "en_apply (MDel seq key) e = en_del seq key e"
| "en_apply (MDelRange seq start end') e = Some (en_delRange seq start end' e)"

lemma en_apply_mem: "en_apply x e = Option.bind (mt_apply x (en_mem e)) (\<lambda>m. Some (e\<lparr>en_mem := m\<rparr>))"
  by (cases x) (simp_all add: en_Put_def en_putTTL_def en_del_def en_delRange_def)

definition mem_room :: "mop \<Rightarrow> engineT \<Rightarrow> bool" where
  "mem_room x e \<longleftrightarrow> length (sl_arena (mt_list (en_mem e))) + mop_cost x < 2 ^ 32"

lemma contents_seq:
  assumes "covers_all fs (mop_versions xs) A" "\<forall>x\<in>set xs. mop_wf x" "y \<in> A"
  shows "\<exists>x op. op \<in> set xs \<and> x \<in> set (mop_entry op) \<and> stored_as fs x y \<and> mop_ok op \<and> vid y = vid x \<and> ikeySeq (fst y) = mop_seq op"
proof -
  obtain x where x: "x \<in> mop_versions xs" "stored_as fs x y" using assms(1,3) unfolding covers_all_def by blast
  then obtain op where op: "op \<in> set xs" "x \<in> set (mop_entry op)" by (auto simp: mop_versions_def)
  have ok: "mop_ok op" using assms(2) op(1) by (simp add: mop_wf_def)
  have "vid y = vid x" using stored_as_vid [OF x(2)] mop_entry_mem [OF ok op(2)] by (simp add: mem_entry_def)
  moreover have "ikeySeq (fst y) = mop_seq op" using calculation mop_entry_visible(2) [OF ok op(2)] by (simp add: vid_def)
  ultimately show ?thesis using x op ok by blast
qed

lemma covers_add: "covers_all fs W A \<Longrightarrow> covers_all fs (W \<union> B) (B \<union> A)"
proof -
  assume "covers_all fs W A"
  moreover have "stored_as fs x x" for x by (simp add: stored_as_def)
  ultimately show ?thesis unfolding covers_all_def by blast
qed

lemma mop_versions_add: "mop_versions (xs @ [x]) = mop_versions xs \<union> set (mop_entry x)"
  by (simp add: mop_versions_def)

lemma write_inv:
  assumes inv: "engine_inv lib hash cfg xs e" and x: "mop_wf x" "mop_seq x \<notin> mop_seq ` set xs" "mem_room x e"
  shows "\<exists>e'. en_apply x e = Some e' \<and> engine_inv lib hash cfg (xs @ [x]) e'"
proof -
  obtain mes ent rt where i: "inv_at lib hash cfg xs e mes ent rt" "en_cfg e = cfg" "\<forall>x\<in>set xs. mop_wf x" "distinct (map mop_seq xs)"
    using inv by (rule engine_invE)
  obtain R where R: "engine_view lib hash R e mes ent rt" "numbered (alloc_n (en_alloc e)) R (en_tables e)" "list_all2 mt_exact (en_mems e) mes"
    using i(1) by (auto simp: inv_at_def holds_as_def)
  obtain es rest where mes: "mes = es # rest" and ex: "mt_exact (en_mem e) es" using R(3) by (auto simp: en_mems_def list_all2_Cons1)
  obtain m es' where m: "mt_apply x (en_mem e) = Some m" "mt_exact m es'" "mset es' = mset (mop_entry x) + mset es"
    "mt_rts m = mt_rts (en_mem e) @ mop_rts x"
    using mt_apply_exact [OF ex x(1) x(3) [unfolded mem_room_def]] by (elim exE conjE) (rule that)
  let ?e = "e\<lparr>en_mem := m\<rparr>"
  define ml where "ml = (case en_imm e of None \<Rightarrow> [] | Some m \<Rightarrow> [m]) @ en_recoveryMems e"
  have ms: "en_mems e = en_mem e # ml" "en_mems ?e = m # ml" by (simp_all add: en_mems_def ml_def)
  have tls: "list_all2 mt_exact ml rest" "list_all2 mt_holds ml rest" using R(1,3) unfolding mes engine_view_def ms by simp_all
  have h: "holds_as lib hash ?e (es' # rest) ent rt"
    using R(1,2) m(2) tls unfolding holds_as_def engine_view_def ms(2) by (auto simp: mt_exact_def)
  have c: "mset (contents ?e (es' # rest) ent) = mset (mop_entry x) + mset (contents e mes ent)" by (simp add: contents_def mes m(3))
  have cs: "set (contents ?e (es' # rest) ent) = set (mop_entry x) \<union> set (contents e mes ent)"
    using arg_cong [where f = set_mset, OF c] by simp
  have cov: "covers_all (en_blobs e) (mop_versions xs) (set (contents e mes ent))" using i(1) by (simp add: inv_at_def)
  have "vid z \<notin> vid ` set (contents e mes ent)" if z: "z \<in> set (mop_entry x)" for z
  proof
    assume "vid z \<in> vid ` set (contents e mes ent)"
    then obtain y where y: "y \<in> set (contents e mes ent)" "vid y = vid z" by force
    obtain op where "op \<in> set xs" "ikeySeq (fst y) = mop_seq op" using contents_seq [OF cov i(3) y(1)] by blast
    moreover have "ikeySeq (fst y) = mop_seq x" using y(2) mop_entry_visible(2) [OF _ z] x(1) by (simp add: vid_def mop_wf_def)
    ultimately show False using x(2) by auto
  qed
  then have "vid ` set (mop_entry x) \<inter> vid ` set (contents e mes ent) = {}" by blast
  moreover have "distinct (map vid (mop_entry x))" by (cases x) simp_all
  ultimately have "distinct (map vid (mop_entry x @ contents e mes ent))" using i(1) by (simp add: inv_at_def)
  moreover have "mset (map vid (contents ?e (es' # rest) ent)) = mset (map vid (mop_entry x @ contents e mes ent))" using c by simp
  ultimately have "distinct (map vid (contents ?e (es' # rest) ent))" using mset_eq_imp_distinct_iff by blast
  moreover have "covers_all (en_blobs e) (mop_versions (xs @ [x])) (set (contents ?e (es' # rest) ent))"
    using covers_add [OF cov] by (simp add: cs mop_versions_add)
  moreover have "set (all_rts ?e rt) = set (all_rts e rt) \<union> set (mop_rts x)"
    unfolding all_rts_def ms by (auto simp: mt_rangeTombstones_def m(4))
  ultimately have "inv_at lib hash cfg (xs @ [x]) ?e (es' # rest) ent rt"
    using i(1) h cs by (simp add: inv_at_def mop_versions_add Un_commute)
  from engine_invI [OF this] show ?thesis using i(2-4) x m(1) by (simp add: en_apply_mem)
qed

section \<open>Reads\<close>

lemma visible_vid: "vid x = vid y \<Longrightarrow> visible u s x = visible u s y"
  by (simp add: vid_def visible_def)

lemma newest_op_visible:
  assumes "covers_all fs (mop_versions xs) A" "\<forall>x\<in>set xs. mop_wf x"
  shows "(\<exists>y\<in>A. visible u s y) \<longleftrightarrow> newest_op xs s u \<noteq> None"
proof -
  have nw: "newest_op xs s u = None \<longleftrightarrow> (\<forall>x\<in>set xs. \<not> (mop_key x = Some u \<and> mop_seq x \<le> s))"
    using foldl_newer(1) [OF newest_op_def [symmetric], of xs s u] by simp
  have "newest_op xs s u \<noteq> None" if y: "y \<in> A" "visible u s y" for y
  proof -
    obtain x op where x: "op \<in> set xs" "x \<in> set (mop_entry op)" "mop_ok op" "vid y = vid x" using contents_seq [OF assms y(1)] by blast
    then show ?thesis using nw mop_entry_visible(1) [OF x(3,2)] visible_vid [OF x(4)] y(2) by auto
  qed
  moreover have "\<exists>y\<in>A. visible u s y" if op: "op \<in> set xs" "mop_key op = Some u" "mop_seq op \<le> s" for op
  proof -
    have ok: "mop_ok op" using assms(2) op(1) by (simp add: mop_wf_def)
    obtain x where x: "x \<in> set (mop_entry op)" using op(2) by (cases op) auto
    then have "x \<in> mop_versions xs" using op(1) by (auto simp: mop_versions_def)
    then obtain y where y: "y \<in> A" "stored_as fs x y" using assms(1) unfolding covers_all_def by blast
    have "vid y = vid x" using stored_as_vid [OF y(2)] mop_entry_mem [OF ok x] by (simp add: mem_entry_def)
    then show ?thesis using mop_entry_visible(1) [OF ok x] op visible_vid y(1) by blast
  qed
  ultimately show ?thesis unfolding nw by meson
qed

lemma newest_op_stored:
  assumes cov: "covers_all fs (mop_versions xs) A" and wf: "\<forall>x\<in>set xs. mop_wf x" and d: "distinct (map mop_seq xs)" and y: "newest A u s y"
  shows "\<exists>op x. newest_op xs s u = Some op \<and> mop_ok op \<and> x \<in> set (mop_entry op) \<and> stored_as fs x y \<and> ikeySeq (fst y) = mop_seq op"
proof -
  have yA: "y \<in> A" "visible u s y" using y by (simp_all add: newest_def)
  obtain x op where x: "op \<in> set xs" "x \<in> set (mop_entry op)" "stored_as fs x y" "mop_ok op" "vid y = vid x" "ikeySeq (fst y) = mop_seq op"
    using contents_seq [OF cov wf yA(1)] by blast
  obtain b where b: "newest_op xs s u = Some b" using newest_op_visible [OF cov wf, of u s] yA by blast
  have vx: "mop_key op = Some u" "mop_seq op \<le> s" using mop_entry_visible(1) [OF x(4,2)] visible_vid [OF x(5)] yA(2) by auto
  have bb: "b \<in> set xs" "mop_key b = Some u" "mop_seq b \<le> s" "mop_seq op \<le> mop_seq b"
    using foldl_newer(2) [OF newest_op_def [symmetric] b] x(1) vx by auto
  have okb: "mop_ok b" using wf bb(1) by (simp add: mop_wf_def)
  obtain xb where xb: "xb \<in> set (mop_entry b)" using bb(2) by (cases b) auto
  then have "xb \<in> mop_versions xs" using bb(1) by (auto simp: mop_versions_def)
  then obtain yb where yb: "yb \<in> A" "stored_as fs xb yb" using cov unfolding covers_all_def by blast
  have v: "vid yb = vid xb" using stored_as_vid [OF yb(2)] mop_entry_mem [OF okb xb] by (simp add: mem_entry_def)
  then have "visible u s yb" using mop_entry_visible(1) [OF okb xb] bb visible_vid by blast
  then have "ikeySeq (fst yb) \<le> ikeySeq (fst y)" using y yb(1) by (simp add: newest_def)
  then have "mop_seq b \<le> mop_seq op" using v mop_entry_visible(2) [OF okb xb] x(6) by (simp add: vid_def)
  then have "b = op" using bb x(1) d by (metis antisym distinct_map inj_onD)
  then show ?thesis using b x by blast
qed

text \<open>Blob files can be named, or no value was ever diverted.\<close>

definition blob_paths :: "engineConfigT \<Rightarrow> bool" where
  "blob_paths cfg \<longleftrightarrow> (\<forall>path n. cf_blobPath cfg = Some path \<longrightarrow> (\<exists>p. path n = Inr p))"

lemma diverted_outcome:
  assumes op: "mop_ok op" "x \<in> set (mop_entry op)" and raw: "raw_value x raw d" "bp_expiresAt p = d"
    and y: "y = (ikeyEncode [] (ikeyUserKey (fst x)) (ikeySeq (fst x)) ikeyKindBlobRef, encodeBlobPointer [] p)"
    and r: "versionOf y now = Inr r" and rb: "resolveBlob e p = Inr raw" and o: "mop_outcome (Some op) now = (v, q, f, del, dl)"
  shows "lr_deleted r = del \<and> (\<not> del \<longrightarrow> lr_expiresAt r = dl \<and> lr_blobPtr r = Some p \<and> raw = v)"
proof -
  have d: "int64_range d" using raw(1) decodeExpiringValue_inv [of "snd x"] by (auto simp: raw_value_def int64_range_def)
  then have vr: "(if d \<noteq> 0 \<and> d \<le> now then lr_deleted r else \<not> lr_deleted r \<and> lr_expiresAt r = d \<and> lr_blobPtr r = Some p)"
    using r raw(2) decodeBlobPointer_encode [of p]
    by (auto simp: y versionOf_def versionResult_def Let_def lookupMiss_def ikeySeq_le_max ikeyKind_defs split: if_splits)
  show ?thesis
  proof (cases op)
    case (MPut q' k v')
    then show ?thesis using op raw(1) o vr by (auto simp: raw_value_def ikeyKind_defs)
  next
    case (MPutTTL q' k v' d')
    then have "raw = v' \<and> d = d' \<and> 0 < d'"
      using op raw(1) by (auto simp: raw_value_def ikeyKind_defs decodeExpiringValue_encode int64_range_def)
    then show ?thesis using MPutTTL o vr by (auto split: if_splits)
  next
    case (MDel q' k)
    then show ?thesis using op raw(1) by (auto simp: raw_value_def ikeyKind_defs)
  next
    case (MDelRange q' a b)
    then show ?thesis using op by simp
  qed
qed

lemma stored_outcome:
  assumes op: "mop_ok op" "x \<in> set (mop_entry op)" "stored_as (en_blobs e) x y"
    and bp: "blob_paths (en_cfg e)" "cf_blobPath (en_cfg e) = None \<longrightarrow> y = x"
    and r: "versionOf y now = Inr r" and o: "mop_outcome (Some op) now = (v, q, f, del, dl)"
  shows "point_outcome (resolveBlob e) r h = (if del \<or> h then None else Some (Inr v)) \<and> (\<not> del \<longrightarrow> lr_expiresAt r = dl) \<and> q = mop_seq op"
proof -
  have q: "q = mop_seq op" using o op(2) by (cases op) (auto split: if_splits)
  show ?thesis
  proof (cases "y = x")
    case True
    have "lr_blobPtr r = None" using r mop_entry_mem [OF op(1,2)] unfolding True
      by (auto simp: versionOf_def versionResult_def Let_def lookupMiss_def mem_entry_def ikeyKind_defs split: if_splits sum.splits)
    then show ?thesis using mop_outcome_entry [OF op(1,2), of now r] r o q unfolding True by (auto simp: versionOf_def point_outcome_def)
  next
    case False
    obtain raw d p c where s: "raw_value x raw d" "bp_expiresAt p = d" "blobs (en_blobs e) (bp_num p) = Some c" "blob_read c p = Inr raw"
      "y = (ikeyEncode [] (ikeyUserKey (fst x)) (ikeySeq (fst x)) ikeyKindBlobRef, encodeBlobPointer [] p)"
      using op(3) False by (auto simp: stored_as_def)
    obtain path where "cf_blobPath (en_cfg e) = Some path" using bp(2) False by auto
    moreover obtain pn where "path (bp_num p) = Inr pn" using bp(1) calculation by (auto simp: blob_paths_def)
    ultimately have rb: "resolveBlob e p = Inr raw" using s(3,4) by (simp add: resolveBlob_def)
    from diverted_outcome [OF op(1,2) s(1,2,5) r rb o] show ?thesis using rb q by (auto simp: point_outcome_def)
  qed
qed

text \<open>What a read of a key should return after the writes \<open>xs\<close>: whether a version is visible, and its value and deadline
  unless it is a tombstone, expired or covered by a newer range delete.\<close>

definition expected :: "mop list \<Rightarrow> u64 \<Rightarrow> bytes \<Rightarrow> int \<Rightarrow> bool \<times> (bytes \<times> int) option" where
  "expected xs s u now =
     (case newest_op xs s u of None \<Rightarrow> (False, None)
      | Some x \<Rightarrow> (case mop_outcome (Some x) now of (v, q, _, deleted, d) \<Rightarrow>
          (True, if deleted \<or> rangeDeleted (concat (map mop_rts xs)) u q s then None else Some (v, d))))"

lemma rangeDeleted_set: "set rts = set rts' \<Longrightarrow> rangeDeleted rts u v s = rangeDeleted rts' u v s"
  by (simp add: rangeDeleted_cover)

lemma reads_as_none: "reads_as lib hash e e' s u now f d None = reads_as lib hash e e' s u now f d' None"
  by (simp add: reads_as_def)

lemma inv_unique:
  assumes "inv_at lib hash cfg xs e mes ent rt" shows "unique_versions (all_versions e mes ent)"
  using distinct_unique [of "contents e mes ent"] assms by (simp add: inv_at_def contents_versions)

lemma reads_expected:
  assumes i: "inv_at lib hash cfg xs e mes ent rt" and cfg: "en_cfg e = cfg" and wf: "\<forall>x\<in>set xs. mop_wf x" "distinct (map mop_seq xs)"
    and bp: "blob_paths cfg" and y: "newest (all_versions e mes ent) u s y" "versionOf y now = Inr r"
    and ra: "reads_as lib hash e e' s u now True (lr_expiresAt r)
               (point_outcome (resolveBlob e) r (rangeDeleted (all_rts e rt) u (ikeySeq (fst y)) s))"
  shows "\<exists>d. reads_as lib hash e e' s u now (fst (expected xs s u now)) d (map_option (Inr \<circ> fst) (snd (expected xs s u now)))
    \<and> (\<forall>v d'. snd (expected xs s u now) = Some (v, d') \<longrightarrow> d = d')"
proof -
  have cov: "covers_all (en_blobs e) (mop_versions xs) (all_versions e mes ent)" using i by (simp add: inv_at_def contents_versions)
  obtain op x where op: "newest_op xs s u = Some op" "mop_ok op" "x \<in> set (mop_entry op)" "stored_as (en_blobs e) x y" "ikeySeq (fst y) = mop_seq op"
    using newest_op_stored [OF cov wf y(1)] by (elim exE conjE) (rule that)
  have yx: "cf_blobPath (en_cfg e) = None \<longrightarrow> y = x"
  proof
    assume "cf_blobPath (en_cfg e) = None"
    then have "y \<in> mop_versions xs" using i y(1) by (simp add: cfg inv_at_def contents_versions newest_def)
    then obtain op' where "op' \<in> set xs" "y \<in> set (mop_entry op')" by (auto simp: mop_versions_def)
    then have "mem_entry y" using wf(1) by (intro mop_entry_mem [of op']) (simp_all add: mop_wf_def)
    then show "y = x" by (rule stored_mem_entry [OF op(4)])
  qed
  obtain v q f del dl where o: "mop_outcome (Some op) now = (v, q, f, del, dl)" by (cases "mop_outcome (Some op) now")
  define h where "h = rangeDeleted (concat (map mop_rts xs)) u q s"
  have st: "point_outcome (resolveBlob e) r h = (if del \<or> h then None else Some (Inr v))" "\<not> del \<longrightarrow> lr_expiresAt r = dl" "q = mop_seq op"
    using stored_outcome [OF op(2-4) _ yx y(2) o, of h] bp by (simp_all add: cfg)
  have "rangeDeleted (all_rts e rt) u (ikeySeq (fst y)) s = h"
    unfolding h_def st(3) op(5) using i by (intro rangeDeleted_set) (simp add: inv_at_def)
  then have "reads_as lib hash e e' s u now True (lr_expiresAt r) (if del \<or> h then None else Some (Inr v))"
    using ra st(1) by simp
  moreover have "expected xs s u now = (True, if del \<or> h then None else Some (v, dl))"
    by (simp add: expected_def op(1) o h_def)
  ultimately show ?thesis using st(2) by (cases "del \<or> h") auto
qed

lemma read_inv:
  assumes inv: "engine_inv lib hash cfg xs e" and bp: "blob_paths cfg" and s: "s \<le> maxIKeySeq"
  shows "\<exists>e' d. engine_inv lib hash cfg xs e'
    \<and> reads_as lib hash e e' s u now (fst (expected xs s u now)) d (map_option (Inr \<circ> fst) (snd (expected xs s u now)))
    \<and> (\<forall>v d'. snd (expected xs s u now) = Some (v, d') \<longrightarrow> d = d')"
proof -
  obtain mes ent rt where i: "inv_at lib hash cfg xs e mes ent rt" "en_cfg e = cfg" "\<forall>x\<in>set xs. mop_wf x" "distinct (map mop_seq xs)"
    using inv by (rule engine_invE)
  obtain R where R: "engine_view lib hash R e mes ent rt" "numbered (alloc_n (en_alloc e)) R (en_tables e)" "list_all2 mt_exact (en_mems e) mes"
    using i(1) by (auto simp: inv_at_def holds_as_def)
  let ?A = "all_versions e mes ent"
  obtain e' where e': "read_step e e'" "engine_view lib hash R e' mes ent rt"
    "if \<exists>x\<in>?A. visible u s x
       then \<exists>x r. newest ?A u s x \<and> versionOf x now = Inr r
         \<and> reads_as lib hash e e' s u now True (lr_expiresAt r)
             (point_outcome (resolveBlob e) r (rangeDeleted (all_rts e rt) u (ikeySeq (fst x)) s))
       else reads_as lib hash e e' s u now False 0 None"
    using engine_reads_ok [OF R(1) inv_unique [OF i(1)] s, of u now] by (elim exE conjE) (rule that)
  note same = read_step_same [OF e'(1)]
  have "holds_as lib hash e' mes ent rt" using R(2,3) e'(2) same unfolding holds_as_def by auto
  then have "inv_at lib hash cfg xs e' mes ent rt"
    by (intro inv_at_same [OF i(1)]) (simp_all add: contents_def same all_rts_def)
  then have inv': "engine_inv lib hash cfg xs e'" by (rule engine_invI) (simp_all add: same i)
  have cov: "covers_all (en_blobs e) (mop_versions xs) ?A" using i by (simp add: inv_at_def contents_versions)
  show ?thesis
  proof (cases "\<exists>x\<in>?A. visible u s x")
    case False
    then have "expected xs s u now = (False, None)" using newest_op_visible [OF cov i(3), of u s] by (simp add: expected_def)
    then show ?thesis using e'(3) False inv' by auto
  next
    case True
    then obtain y r where y: "newest ?A u s y" "versionOf y now = Inr r"
      "reads_as lib hash e e' s u now True (lr_expiresAt r) (point_outcome (resolveBlob e) r (rangeDeleted (all_rts e rt) u (ikeySeq (fst y)) s))"
      using e'(3) by (simp only: if_P) (elim exE conjE, rule that)
    from reads_expected [OF i bp y] inv' show ?thesis by blast
  qed
qed

section \<open>Histories\<close>

text \<open>Any sequence of writes with fresh sequences, flushes, sealings and reads.  A write needs room in the arena, a
  flush a memtable that fits one table.\<close>

inductive hist :: "codecLib \<Rightarrow> (bytes \<Rightarrow> u64) \<Rightarrow> engineT \<Rightarrow> mop list \<Rightarrow> engineT \<Rightarrow> bool" for lib hash e0 where
  do_start: "hist lib hash e0 [] e0"
| do_write: "hist lib hash e0 xs e \<Longrightarrow> mop_wf x \<Longrightarrow> mop_seq x \<notin> mop_seq ` set xs \<Longrightarrow> mem_room x e \<Longrightarrow> en_apply x e = Some e'
    \<Longrightarrow> hist lib hash e0 (xs @ [x]) e'"
| do_flush: "hist lib hash e0 xs e \<Longrightarrow> flush_fits (en_cfg e) (flush_mem e) \<Longrightarrow> Flush lib io e = Some (r, e') \<Longrightarrow> hist lib hash e0 xs e'"
| do_seal: "hist lib hash e0 xs e \<Longrightarrow> hist lib hash e0 xs (sealReadOnlyRecoveryMemtable e)"
| do_get: "hist lib hash e0 xs e \<Longrightarrow> s \<le> maxIKeySeq \<Longrightarrow> getAtTime lib hash s u now e = Some (v, e') \<Longrightarrow> hist lib hash e0 xs e'"
| do_getExpiry: "hist lib hash e0 xs e \<Longrightarrow> s \<le> maxIKeySeq \<Longrightarrow> getWithExpiry lib hash s u now e = Some (w, e') \<Longrightarrow> hist lib hash e0 xs e'"
| do_has: "hist lib hash e0 xs e \<Longrightarrow> s \<le> maxIKeySeq \<Longrightarrow> hasAtTime lib hash s u now e = Some (h, e') \<Longrightarrow> hist lib hash e0 xs e'"

definition fresh_cache :: "blockCacheT option \<Rightarrow> bool" where
  "fresh_cache cache \<longleftrightarrow> cache = None \<or> (\<exists>cap \<ge> 0. cache = Some (newBlockCache cap))"

lemma newEngine_inv:
  assumes "fresh_cache cache"
  shows "engine_inv lib hash cfg [] (newEngine cfg alloc path seed cache fs)"
proof -
  let ?e = "newEngine cfg alloc path seed cache fs"
  have "cache_ok hash (\<lambda>_ _. False) cache" using assms cache_ok_new by (auto simp: fresh_cache_def cache_ok_def)
  moreover have ms: "en_mems ?e = [newMemtable seed]" by (simp add: newEngine_def en_mems_def)
  ultimately have "holds_as lib hash ?e [[]] (\<lambda>_. []) (\<lambda>_. [])"
    using newMemtable_exact newMemtable_holds(1) unfolding holds_as_def engine_view_def ms numbered_def
    by (intro conjI exI [of _ "\<lambda>_ _. False"]) (auto simp: newEngine_def)
  then have "inv_at lib hash cfg [] ?e [[]] (\<lambda>_. []) (\<lambda>_. [])"
    by (simp add: inv_at_def contents_def covers_all_def mop_versions_def all_rts_def ms mt_rangeTombstones_def)
      (simp add: newEngine_def newMemtable_def)
  then show ?thesis by (rule engine_invI) (simp_all add: newEngine_def)
qed

lemma hist_inv:
  assumes "hist lib hash e0 xs e" "engine_inv lib hash cfg [] e0" "lossless lib" "blob_paths cfg" "cf_BlobFileSize cfg < 2 ^ 63"
  shows "engine_inv lib hash cfg xs e"
  using assms
proof (induction rule: hist.induct)
  case (do_write xs e x e')
  then show ?case using write_inv [of lib hash cfg xs e x] by auto
next
  case (do_flush xs e io r e')
  have "en_cfg e = cfg" using do_flush.IH do_flush.prems by (simp add: engine_inv_def)
  then show ?case using Flush_inv [of lib hash cfg xs e io] do_flush by auto
next
  case (do_get xs e s u now v e')
  then show ?case using read_inv [of lib hash cfg xs e s u now] by (auto simp: reads_as_def)
next
  case (do_getExpiry xs e s u now w e')
  then show ?case using read_inv [of lib hash cfg xs e s u now] by (auto simp: reads_as_def)
next
  case (do_has xs e s u now h e')
  then show ?case using read_inv [of lib hash cfg xs e s u now] by (auto simp: reads_as_def)
qed (auto intro: seal_inv)

text \<open>
  C1. After any history of an engine (writes with distinct sequences, flushes whose every file operation may fail,
  values diverted to blob files or not, sealings, reads through a cache of any capacity) every point read returns and answers from the
  newest write of the key visible at its sequence: its value and deadline, or nothing when that write is a
  delete, has expired or is covered by a newer range delete.  The three read operations agree.\<close>

theorem engine_history_reads:
  assumes "hist lib hash (newEngine cfg alloc path seed cache fs) xs e" "fresh_cache cache" "lossless lib" "blob_paths cfg"
    "cf_BlobFileSize cfg < 2 ^ 63" "s \<le> maxIKeySeq"
  shows "\<exists>e'. getAtTime lib hash s u now e = Some (Inr (case expected xs s u now of
                (found, None) \<Rightarrow> ([], found, found) | (_, Some (v, d)) \<Rightarrow> (v, True, False)), e')
    \<and> getWithExpiry lib hash s u now e = Some (Inr (case expected xs s u now of
                (_, None) \<Rightarrow> ([], 0, False) | (_, Some (v, d)) \<Rightarrow> (v, d, True)), e')
    \<and> hasAtTime lib hash s u now e = Some (Inr (case expected xs s u now of (found, r) \<Rightarrow> (found, found \<and> r = None)), e')"
proof -
  have inv: "engine_inv lib hash cfg xs e" by (rule hist_inv [OF assms(1) newEngine_inv [OF assms(2)] assms(3-5)])
  obtain e' d where r: "reads_as lib hash e e' s u now (fst (expected xs s u now)) d (map_option (Inr \<circ> fst) (snd (expected xs s u now)))"
    "\<forall>v d'. snd (expected xs s u now) = Some (v, d') \<longrightarrow> d = d'" using read_inv [OF inv assms(4,6), of u now] by (elim exE conjE) (rule that)
  obtain found res where ex: "expected xs s u now = (found, res)" by fastforce
  show ?thesis using r by (cases res) (auto simp: reads_as_def ex)
qed

text \<open>A small history, used to apply the theorems: a put whose value is diverted, then a flush whose commit fails.\<close>

definition demoCfg :: engineConfigT where
  "demoCfg = \<lparr>cf_MemtableSize = 4096, cf_BloomBits = 10, cf_BlockSize = 4096, cf_MaxLevels = 7, cf_FreshCodecName = CodecNone,
     cf_LevelCodecs = [], cf_LazyTableMetadata = False, cf_ValueThreshold = 1, cf_BlobFileSize = 100,
     cf_blobPath = Some (\<lambda>_. Inr ''blob'')\<rparr>"

definition demoIO :: flushIO where
  "demoIO = \<lparr>fio_table = \<lparr>tio_open = None, tio_writes = [], tio_sync = None, tio_close = None, tio_syncDir = None\<rparr>,
     fio_commitBlobs = None, fio_commit = Some IoError\<rparr>"

definition demoEngine :: engineT where
  "demoEngine = newEngine demoCfg (newAllocator 0) (\<lambda>_. Inr ''table'') (\<lambda>_. 0) (Some (newBlockCache 100)) \<lparr>blobs = Map.empty, bsched = []\<rparr>"

lemma demo_config: "blob_paths demoCfg" "cf_BlobFileSize demoCfg < 2 ^ 63" "fresh_cache (Some (newBlockCache 100))" "lossless idLib"
  "bitsPerKey (newBloom (cf_BloomBits demoCfg)) = 10"
  by (auto simp: demoCfg_def blob_paths_def fresh_cache_def lossless_def idLib_def newBloom_def intro: exI [of _ 100])

lemma demo_write:
  "\<exists>e. hist idLib hash demoEngine [MPut 5 [1] [9, 9]] e \<and> en_cfg e = demoCfg \<and> flush_fits demoCfg (flush_mem e)"
proof -
  let ?x = "MPut 5 [1] [9, 9]" and ?m = "en_mem demoEngine"
  have m: "?m = newMemtable (\<lambda>_. 0)" by (simp add: demoEngine_def newEngine_def)
  have ok: "mop_wf ?x" "mop_ok ?x" by (simp_all add: mop_wf_def maxIKeySeq_def)
  have cost: "mop_cost ?x = 22 + (12 + 4 * maxHeight) - 11" by (simp add: mop_cost_def entry_cost_def trailerLen_def)
  have room: "mem_room ?x demoEngine"
    unfolding mem_room_def m newMemtable_holds(2) cost by (simp add: maxHeight_def)
  obtain m' where a: "mt_apply ?x ?m = Some m'" "mt_count m' = 1"
    using mt_apply_ok [OF newMemtable_holds(1) ok(2), of "\<lambda>_. 0"] room unfolding mem_room_def m by (auto simp: newMemtable_def)
  have "mt_size m' = 11"
    using mt_apply_size [OF a(1)] unfolding m by (simp add: newMemtable_def entries_size_def rts_size_def trailerLen_def)
  moreover have h: "hist idLib hash demoEngine ([] @ [?x]) (demoEngine\<lparr>en_mem := m'\<rparr>)"
    by (rule do_write [OF do_start ok(1) _ room]) (simp_all add: en_apply_mem a(1) del: mt_apply.simps)
  ultimately show ?thesis using a(2) demo_config(5)
    by (intro exI [of _ "demoEngine\<lparr>en_mem := m'\<rparr>"])
      (simp add: flush_fits_def flush_mem_def mt_Size_def mt_Len_def, simp add: demoEngine_def newEngine_def)
qed

lemma demo_flush: "\<exists>e. hist idLib hash demoEngine [MPut 5 [1] [9, 9]] e"
proof -
  obtain e where e: "hist idLib hash demoEngine [MPut 5 [1] [9, 9]] e" "en_cfg e = demoCfg" "flush_fits demoCfg (flush_mem e)"
    using demo_write by blast
  have inv: "engine_inv idLib hash demoCfg [MPut 5 [1] [9, 9]] e"
    by (rule hist_inv [OF e(1) _ demo_config(4,1,2)]) (simp add: demoEngine_def newEngine_inv demo_config(3))
  obtain r e' where "Flush idLib demoIO e = Some (r, e')"
    using Flush_inv [OF inv demo_config(4) e(3) demo_config(2), of demoIO] by blast
  then show ?thesis using do_flush [OF e(1)] e(2,3) by auto
qed

theorem engine_history_reads_witness:
  "\<exists>e e1 e2. hist idLib (\<lambda>_. 3) demoEngine [MPut 5 [1] [9, 9]] e
     \<and> getAtTime idLib (\<lambda>_. 3) 7 [1] 0 e = Some (Inr ([9, 9], True, False), e1)
     \<and> getAtTime idLib (\<lambda>_. 3) 4 [1] 0 e = Some (Inr ([], False, False), e2)"
proof -
  obtain e where e: "hist idLib (\<lambda>_. 3) demoEngine [MPut 5 [1] [9, 9]] e" using demo_flush by blast
  have ex: "expected [MPut 5 [1] [9, 9]] 7 [1] 0 = (True, Some ([9, 9], 0))" "expected [MPut 5 [1] [9, 9]] 4 [1] 0 = (False, None)"
    by (simp_all add: expected_def newest_op_def newer_op_def)
  have s: "(7 :: u64) \<le> maxIKeySeq" "(4 :: u64) \<le> maxIKeySeq" by (simp_all add: maxIKeySeq_def)
  note t = engine_history_reads [OF e [unfolded demoEngine_def] demo_config(3,4,1,2)]
  from t [OF s(1), of "[1]" 0] t [OF s(2), of "[1]" 0] show ?thesis using e unfolding ex by auto
qed

text \<open>
  C35. No operation of the engine hangs or gets stuck: after any history a write that has room, a flush with any outcome of its file operations and every
  point read return, and a flush that reports success leaves no sealed memtable behind.\<close>

theorem engine_operations_return:
  assumes "hist lib hash (newEngine cfg alloc path seed cache fs) xs e" "fresh_cache cache" "lossless lib" "blob_paths cfg"
    "cf_BlobFileSize cfg < 2 ^ 63"
  shows "(mop_wf x \<and> mop_seq x \<notin> mop_seq ` set xs \<and> mem_room x e \<longrightarrow> en_apply x e \<noteq> None)
    \<and> (flush_fits cfg (flush_mem e) \<longrightarrow> (\<exists>r e'. Flush lib io e = Some (r, e') \<and> (r = Inr () \<longrightarrow> en_imm e' = None)))
    \<and> (s \<le> maxIKeySeq \<longrightarrow> getAtTime lib hash s u now e \<noteq> None)"
proof -
  have inv: "engine_inv lib hash cfg xs e" by (rule hist_inv [OF assms(1) newEngine_inv [OF assms(2)] assms(3-5)])
  have "en_apply x e \<noteq> None" if "mop_wf x" "mop_seq x \<notin> mop_seq ` set xs" "mem_room x e"
    using write_inv [OF inv that] by auto
  moreover have "\<exists>r e'. Flush lib io e = Some (r, e') \<and> (r = Inr () \<longrightarrow> en_imm e' = None)" if "flush_fits cfg (flush_mem e)"
    using Flush_inv [OF inv assms(3) that assms(5), of io] by blast
  moreover have "getAtTime lib hash s u now e \<noteq> None" if "s \<le> maxIKeySeq"
    using read_inv [OF inv assms(4) that, of u now] by (auto simp: reads_as_def)
  ultimately show ?thesis by blast
qed

theorem engine_operations_return_witness:
  "\<exists>e r e'. hist idLib (\<lambda>_. 3) demoEngine [MPut 5 [1] [9, 9]] e \<and> Flush idLib demoIO e = Some (r, e') \<and> (r = Inr () \<longrightarrow> en_imm e' = None)"
proof -
  obtain e where e: "hist idLib (\<lambda>_. 3) demoEngine [MPut 5 [1] [9, 9]] e" "flush_fits demoCfg (flush_mem e)"
    using demo_write by blast
  from engine_operations_return [OF e(1) [unfolded demoEngine_def] demo_config(3,4,1,2), of _ demoIO] e show ?thesis by blast
qed

end
