(* ===== verification/Options.thy ===== *)
theory Options
  imports Complex_Main Codec Blob
begin

text \<open>
  The options of a database (\<^verbatim>\<open>options.go\<close>): the record, its defaults and its validation.  A field of
  interface or function type (observer, logger, compaction filter) is not validated and not
  part of the record.  A Go \<open>int64\<close> is an \<open>int\<close>, with the wrap-around of its multiplication
  written out; the one floating-point field takes the values it can be compared with.
\<close>

section \<open>Data\<close>

text \<open>A \<open>float64\<close> up to its finite precision: it is only compared with 0 and 1.\<close>

datatype float64 = FNaN | FNegInf | FNum rat | FPosInf

fun f64_less :: "float64 \<Rightarrow> float64 \<Rightarrow> bool" where
  "f64_less (FNum a) (FNum b) \<longleftrightarrow> a < b"
| "f64_less FNegInf b \<longleftrightarrow> b \<noteq> FNaN \<and> b \<noteq> FNegInf"
| "f64_less a FPosInf \<longleftrightarrow> a \<noteq> FNaN \<and> a \<noteq> FPosInf"
| "f64_less _ _ \<longleftrightarrow> False"

definition mul64 :: "int \<Rightarrow> int \<Rightarrow> int" where
  "mul64 a b = sint (word_of_int (a * b) :: u64)"

definition maxTierDepth :: nat where "maxTierDepth = 7"

definition DefaultMemtableSize :: int where "DefaultMemtableSize = push_bit 20 8"
definition DefaultTierRatio :: int where "DefaultTierRatio = 4"
definition DefaultMinCompactionTables :: int where "DefaultMinCompactionTables = 4"
definition DefaultTombstoneCompactionRatio :: float64 where "DefaultTombstoneCompactionRatio = FNum (1 / 2)"
definition DefaultL0SlowdownTables :: int where "DefaultL0SlowdownTables = 16"
definition DefaultL0StopTables :: int where "DefaultL0StopTables = 24"
definition DefaultMaxLevels :: "8 word" where "DefaultMaxLevels = of_nat (maxTierDepth + 1)"
definition DefaultFileSizeBase :: int where "DefaultFileSizeBase = push_bit 20 2"
definition DefaultFileSizeMultiplier :: int where "DefaultFileSizeMultiplier = 2"
definition DefaultFileSizeMax :: int where "DefaultFileSizeMax = push_bit (maxTierDepth - 1) DefaultFileSizeBase"
definition DefaultBloomBits :: int where "DefaultBloomBits = 10"
definition DefaultBlockSize :: int where "DefaultBlockSize = push_bit 10 4"
definition DefaultBlockCacheSize :: int where "DefaultBlockCacheSize = push_bit 20 256"
definition DefaultMaxOpenFiles :: int where "DefaultMaxOpenFiles = 1000"
definition DefaultFreshCodec :: string where "DefaultFreshCodec = CodecS2"
definition DefaultBottomCodec :: string where "DefaultBottomCodec = CodecS2"
definition DefaultWALSyncInterval :: int where "DefaultWALSyncInterval = 1000000000"
definition DefaultWALSegmentBytes :: int where "DefaultWALSegmentBytes = push_bit 20 64"
definition defaultMaxCompactionFiles :: int where "defaultMaxCompactionFiles = 10"
definition defaultTierByteTriggerFiles :: int where "defaultTierByteTriggerFiles = 8"
definition maxMemtableSize :: int where "maxMemtableSize = push_bit 30 2"
definition maxEntrySize :: int where "maxEntrySize = push_bit 30 1"

lemmas default_defs = maxTierDepth_def DefaultMemtableSize_def DefaultTierRatio_def DefaultMinCompactionTables_def
  DefaultTombstoneCompactionRatio_def DefaultL0SlowdownTables_def DefaultL0StopTables_def DefaultMaxLevels_def
  DefaultFileSizeBase_def DefaultFileSizeMultiplier_def DefaultFileSizeMax_def DefaultBloomBits_def DefaultBlockSize_def
  DefaultBlockCacheSize_def DefaultMaxOpenFiles_def DefaultFreshCodec_def DefaultBottomCodec_def DefaultWALSyncInterval_def
  DefaultWALSegmentBytes_def defaultMaxCompactionFiles_def defaultTierByteTriggerFiles_def maxMemtableSize_def DefaultBlobFileSize_def

record options =
  op_Dir :: string
  op_MemtableSize :: int
  op_MemtableFlushInterval :: int
  op_TierRatio :: int
  op_MinCompactionTables :: int
  op_TierByteTrigger :: int
  op_TombstoneCompactionRatio :: float64
  op_L0SlowdownTables :: int
  op_L0StopTables :: int
  op_MaxLevels :: "8 word"
  op_FileSizeBase :: int
  op_FileSizeMultiplier :: int
  op_FileSizeMax :: int
  op_MaxCompactionBytes :: int
  op_DisableOverlapSelection :: bool
  op_ValueThreshold :: int
  op_BlobFileSize :: int
  op_LazyTableMetadata :: bool
  op_BloomBits :: int
  op_BlockSize :: int
  op_BlockCacheSize :: int
  op_DisableBlockCache :: bool
  op_MaxOpenFiles :: int
  op_FDIdleTimeout :: int
  op_FreshCodec :: string
  op_BottomCodec :: string
  op_LevelCodecs :: "string list"
  op_ReadOnly :: bool
  op_Deduplication :: bool
  op_NoSync :: bool
  op_WALSyncInterval :: int
  op_WALSegmentBytes :: int
  op_StrictWALRecovery :: bool
  op_WALRetention :: int
  op_WALRetentionBytes :: int

definition zeroOptions :: options where
  "zeroOptions = \<lparr>op_Dir = '''', op_MemtableSize = 0, op_MemtableFlushInterval = 0, op_TierRatio = 0, op_MinCompactionTables = 0,
     op_TierByteTrigger = 0, op_TombstoneCompactionRatio = FNum 0, op_L0SlowdownTables = 0, op_L0StopTables = 0, op_MaxLevels = 0,
     op_FileSizeBase = 0, op_FileSizeMultiplier = 0, op_FileSizeMax = 0, op_MaxCompactionBytes = 0, op_DisableOverlapSelection = False,
     op_ValueThreshold = 0, op_BlobFileSize = 0, op_LazyTableMetadata = False, op_BloomBits = 0, op_BlockSize = 0,
     op_BlockCacheSize = 0, op_DisableBlockCache = False, op_MaxOpenFiles = 0, op_FDIdleTimeout = 0, op_FreshCodec = '''',
     op_BottomCodec = '''', op_LevelCodecs = [], op_ReadOnly = False, op_Deduplication = False, op_NoSync = False,
     op_WALSyncInterval = 0, op_WALSegmentBytes = 0, op_StrictWALRecovery = False, op_WALRetention = 0, op_WALRetentionBytes = 0\<rparr>"

section \<open>Defaults\<close>

definition unset :: "'a::zero \<Rightarrow> 'a \<Rightarrow> 'a" where
  "unset d x = (if x = 0 then d else x)"

text \<open>Each field depends on its own old value only, but for the two limits that default to a multiple of \<open>FileSizeMax\<close>.\<close>

definition fillDefaults :: "options \<Rightarrow> options" where
  "fillDefaults a =
     (let fileSizeMax = unset DefaultFileSizeMax (op_FileSizeMax a) in
      a\<lparr>op_TierRatio := unset DefaultTierRatio (op_TierRatio a),
        op_MinCompactionTables := (if op_MinCompactionTables a = 0 then DefaultMinCompactionTables
          else if op_MinCompactionTables a < 2 then 2 else op_MinCompactionTables a),
        op_TombstoneCompactionRatio := (if op_TombstoneCompactionRatio a = FNum 0 then DefaultTombstoneCompactionRatio
          else if f64_less (op_TombstoneCompactionRatio a) (FNum 0) then FNum 0 else op_TombstoneCompactionRatio a),
        op_L0SlowdownTables := unset DefaultL0SlowdownTables (op_L0SlowdownTables a),
        op_L0StopTables := unset DefaultL0StopTables (op_L0StopTables a),
        op_MaxLevels := unset DefaultMaxLevels (op_MaxLevels a),
        op_WALSyncInterval := unset DefaultWALSyncInterval (op_WALSyncInterval a),
        op_WALSegmentBytes := unset DefaultWALSegmentBytes (op_WALSegmentBytes a),
        op_FileSizeBase := unset DefaultFileSizeBase (op_FileSizeBase a),
        op_MemtableSize := unset DefaultMemtableSize (op_MemtableSize a),
        op_FileSizeMultiplier := unset DefaultFileSizeMultiplier (op_FileSizeMultiplier a),
        op_FileSizeMax := fileSizeMax,
        op_MaxCompactionBytes := unset (mul64 fileSizeMax defaultMaxCompactionFiles) (op_MaxCompactionBytes a),
        op_TierByteTrigger := (if op_TierByteTrigger a = 0 then mul64 fileSizeMax defaultTierByteTriggerFiles
          else if op_TierByteTrigger a < 0 then 0 else op_TierByteTrigger a),
        op_ValueThreshold := (if 0 < op_ValueThreshold a \<and> op_ValueThreshold a < 2 then 2 else op_ValueThreshold a),
        op_BlobFileSize := (if 0 < op_ValueThreshold a then unset DefaultBlobFileSize (op_BlobFileSize a) else op_BlobFileSize a),
        op_WALRetention := (if op_WALRetention a < 0 then 0 else op_WALRetention a),
        op_WALRetentionBytes := (if op_WALRetentionBytes a < 0 then 0 else op_WALRetentionBytes a),
        op_BloomBits := unset DefaultBloomBits (op_BloomBits a),
        op_BlockSize := unset DefaultBlockSize (op_BlockSize a),
        op_BlockCacheSize := unset DefaultBlockCacheSize (op_BlockCacheSize a),
        op_MaxOpenFiles := unset DefaultMaxOpenFiles (op_MaxOpenFiles a),
        op_FreshCodec := (if op_FreshCodec a = '''' then DefaultFreshCodec else op_FreshCodec a),
        op_BottomCodec := (if op_BottomCodec a = '''' then DefaultBottomCodec else op_BottomCodec a)\<rparr>)"

definition DefaultOptions :: "string \<Rightarrow> options" where
  "DefaultOptions dir = fillDefaults (zeroOptions\<lparr>op_Dir := dir\<rparr>)"

section \<open>Validation\<close>

definition validCodecs :: "string \<Rightarrow> bool" where
  "validCodecs name \<longleftrightarrow> name = CodecNone \<or> name = CodecS2 \<or> name = CodecZstd \<or> name = CodecFlate"

definition validateNonNegative :: "options \<Rightarrow> unit result" where
  "validateNonNegative a =
     (if op_ValueThreshold a < 0 then Inl (Errorf ''levisdb: ValueThreshold must be non-negative'')
      else if op_BlobFileSize a < 0 then Inl (Errorf ''levisdb: BlobFileSize must be non-negative'')
      else if op_WALSyncInterval a < 0 then Inl (Errorf ''levisdb: WALSyncInterval must not be negative'')
      else if op_MemtableFlushInterval a < 0 then Inl (Errorf ''levisdb: MemtableFlushInterval must not be negative'')
      else Inr ())"

definition validate :: "options \<Rightarrow> unit result" where
  "validate a =
     (if op_Dir a = '''' then Inl (Errorf ''levisdb: Dir is required'')
      else if op_MemtableSize a < 1 then Inl (Errorf ''levisdb: MemtableSize must be positive'')
      else if maxMemtableSize < op_MemtableSize a then Inl (Errorf ''levisdb: MemtableSize too large'')
      else if op_TierRatio a < 2 then Inl (Errorf ''levisdb: TierRatio must be >= 2'')
      else if op_TombstoneCompactionRatio a = FNaN \<or> f64_less (op_TombstoneCompactionRatio a) (FNum 0)
           \<or> f64_less (FNum 1) (op_TombstoneCompactionRatio a)
      then Inl (Errorf ''levisdb: TombstoneCompactionRatio must be in [0,1]'')
      else if 0 < op_L0SlowdownTables a \<and> 0 < op_L0StopTables a \<and> op_L0StopTables a < op_L0SlowdownTables a
      then Inl (Errorf ''levisdb: L0StopTables must be >= L0SlowdownTables'')
      else if 0 < op_L0StopTables a \<and> op_L0StopTables a < op_TierRatio a
      then Inl (Errorf ''levisdb: L0StopTables must be >= TierRatio'')
      else if op_MaxLevels a < 1 \<or> DefaultMaxLevels < op_MaxLevels a then Inl (Errorf ''levisdb: MaxLevels out of range'')
      else if op_FileSizeBase a < 1 then Inl (Errorf ''levisdb: FileSizeBase must be positive'')
      else if op_FileSizeMultiplier a < 1 then Inl (Errorf ''levisdb: FileSizeMultiplier must be >= 1'')
      else if op_FileSizeMax a < op_FileSizeBase a then Inl (Errorf ''levisdb: FileSizeMax must be >= FileSizeBase'')
      else if op_BloomBits a < 1 then Inl (Errorf ''levisdb: BloomBits must be positive'')
      else if op_BlockSize a < 1 then Inl (Errorf ''levisdb: BlockSize must be positive'')
      else if op_BlockCacheSize a < 0 then Inl (Errorf ''levisdb: BlockCacheSize must be non-negative'')
      else try_then (validateNonNegative a) (\<lambda>_.
        if op_WALSegmentBytes a < 1 then Inl (Errorf ''levisdb: WALSegmentBytes must be positive'')
        else if \<not> validCodecs (op_FreshCodec a) then Inl (Errorf ''levisdb: unknown FreshCodec'')
        else if \<not> validCodecs (op_BottomCodec a) then Inl (Errorf ''levisdb: unknown BottomCodec'')
        else if \<exists>name\<in>set (op_LevelCodecs a). name \<noteq> '''' \<and> \<not> validCodecs name then Inl (Errorf ''levisdb: unknown LevelCodecs'')
        else Inr ()))"

section \<open>Validated options\<close>

definition wf_sizes :: "options \<Rightarrow> bool" where
  "wf_sizes a \<longleftrightarrow> 1 \<le> op_MemtableSize a \<and> op_MemtableSize a \<le> 2 ^ 31
     \<and> 1 \<le> op_FileSizeBase a \<and> op_FileSizeBase a \<le> op_FileSizeMax a \<and> 1 \<le> op_FileSizeMultiplier a
     \<and> 1 \<le> op_BloomBits a \<and> 1 \<le> op_BlockSize a \<and> 0 \<le> op_BlockCacheSize a \<and> 1 \<le> op_WALSegmentBytes a
     \<and> (op_ValueThreshold a = 0 \<or> 2 \<le> op_ValueThreshold a \<and> 1 \<le> op_BlobFileSize a)"

definition wf_triggers :: "options \<Rightarrow> bool" where
  "wf_triggers a \<longleftrightarrow> 2 \<le> op_TierRatio a \<and> 2 \<le> op_MinCompactionTables a
     \<and> (\<exists>q. op_TombstoneCompactionRatio a = FNum q \<and> 0 \<le> q \<and> q \<le> 1)
     \<and> 1 \<le> unat (op_MaxLevels a) \<and> unat (op_MaxLevels a) \<le> maxTierDepth + 1
     \<and> (0 < op_L0StopTables a \<longrightarrow> op_TierRatio a \<le> op_L0StopTables a \<and> (0 < op_L0SlowdownTables a \<longrightarrow> op_L0SlowdownTables a \<le> op_L0StopTables a))
     \<and> 0 < op_WALSyncInterval a \<and> 0 \<le> op_MemtableFlushInterval a \<and> 0 \<le> op_WALRetention a \<and> 0 \<le> op_WALRetentionBytes a"

definition wf_codecs :: "options \<Rightarrow> bool" where
  "wf_codecs a \<longleftrightarrow> (\<forall>depth bottomTier. \<exists>c.
     codecFromName (resolveLevelCodec (op_LevelCodecs a) depth (op_FreshCodec a) (op_BottomCodec a) bottomTier) = Inr c)"

lemma validCodecs_name: "validCodecs name \<Longrightarrow> \<exists>c. codecFromName name = Inr c"
  by (auto simp: validCodecs_def codecFromName_def)

lemma validate_checks:
  assumes "validate a = Inr ()"
  shows "op_Dir a \<noteq> ''''" "1 \<le> op_MemtableSize a" "op_MemtableSize a \<le> maxMemtableSize" "2 \<le> op_TierRatio a"
    "op_TombstoneCompactionRatio a \<noteq> FNaN" "\<not> f64_less (op_TombstoneCompactionRatio a) (FNum 0)" "\<not> f64_less (FNum 1) (op_TombstoneCompactionRatio a)"
    "0 < op_L0SlowdownTables a \<Longrightarrow> 0 < op_L0StopTables a \<Longrightarrow> op_L0SlowdownTables a \<le> op_L0StopTables a"
    "0 < op_L0StopTables a \<Longrightarrow> op_TierRatio a \<le> op_L0StopTables a"
    "op_MaxLevels a \<noteq> 0" "op_MaxLevels a \<le> DefaultMaxLevels" "1 \<le> op_FileSizeBase a" "1 \<le> op_FileSizeMultiplier a"
    "op_FileSizeBase a \<le> op_FileSizeMax a" "1 \<le> op_BloomBits a" "1 \<le> op_BlockSize a" "0 \<le> op_BlockCacheSize a"
    "0 \<le> op_ValueThreshold a" "0 \<le> op_BlobFileSize a" "0 \<le> op_WALSyncInterval a" "0 \<le> op_MemtableFlushInterval a"
    "1 \<le> op_WALSegmentBytes a" "validCodecs (op_FreshCodec a)" "validCodecs (op_BottomCodec a)"
    "\<And>name. name \<in> set (op_LevelCodecs a) \<Longrightarrow> name \<noteq> '''' \<Longrightarrow> validCodecs name"
  using assms
  by (auto simp: validate_def validateNonNegative_def not_less try_then_def split: if_splits sum.splits)

lemma ratio_range: "r \<noteq> FNaN \<Longrightarrow> \<not> f64_less r (FNum 0) \<Longrightarrow> \<not> f64_less (FNum 1) r \<Longrightarrow> \<exists>q. r = FNum q \<and> 0 \<le> q \<and> q \<le> 1"
  by (cases r) auto

lemma fillDefaults_raises:
  "2 \<le> op_MinCompactionTables (fillDefaults a)" "0 \<le> op_WALRetention (fillDefaults a)" "0 \<le> op_WALRetentionBytes (fillDefaults a)"
  "op_WALSyncInterval (fillDefaults a) \<noteq> 0" "op_ValueThreshold (fillDefaults a) \<noteq> 1"
  "0 < op_ValueThreshold (fillDefaults a) \<Longrightarrow> op_BlobFileSize (fillDefaults a) \<noteq> 0"
  by (auto simp: fillDefaults_def Let_def unset_def default_defs push_bit_eq_mult split: if_splits)

text \<open>C36. Options that \<open>Open\<close> accepts, that is, whose defaults are filled in and that then validate, are well formed: every size and
  trigger is in the range the engine relies on, and at every depth, bottom tier or not, the resolved codec
  name is one that the codec table knows.\<close>

theorem open_options_typed:
  assumes "validate (fillDefaults a) = Inr ()"
  shows "wf_sizes (fillDefaults a) \<and> wf_triggers (fillDefaults a) \<and> wf_codecs (fillDefaults a)"
proof -
  let ?a = "fillDefaults a"
  note v = validate_checks [OF assms] and d = fillDefaults_raises [of a]
  have "maxMemtableSize = 2 ^ 31" by (simp add: maxMemtableSize_def push_bit_eq_mult)
  then have "wf_sizes ?a" using v(2,3,12-19,22) d(5,6) by (auto simp: wf_sizes_def)
  moreover have "1 \<le> unat (op_MaxLevels ?a)" "unat (op_MaxLevels ?a) \<le> maxTierDepth + 1"
    using v(10,11) unat_gt_0 [of "op_MaxLevels ?a"] by (auto simp: word_le_nat_alt DefaultMaxLevels_def maxTierDepth_def)
  then have "wf_triggers ?a"
    using v(4,8,9,20,21) ratio_range [OF v(5-7)] d(1-4) by (auto simp: wf_triggers_def)
  moreover have "wf_codecs ?a" unfolding wf_codecs_def resolveLevelCodec_def
    using v(23-25) validCodecs_name by (auto simp: nth_mem)
  ultimately show ?thesis by blast
qed

theorem open_options_typed_witness:
  "validate (fillDefaults (zeroOptions\<lparr>op_Dir := ''data'', op_ValueThreshold := 1\<rparr>)) = Inr ()
   \<and> wf_sizes (fillDefaults (zeroOptions\<lparr>op_Dir := ''data'', op_ValueThreshold := 1\<rparr>))"
proof -
  have "validate (fillDefaults (zeroOptions\<lparr>op_Dir := ''data'', op_ValueThreshold := 1\<rparr>)) = Inr ()"
    by (simp add: validate_def validateNonNegative_def fillDefaults_def Let_def unset_def zeroOptions_def default_defs push_bit_eq_mult
        mul64_def validCodecs_def codecName_defs)
  with open_options_typed [OF this] show ?thesis by blast
qed

lemma default_options_valid:
  assumes "dir \<noteq> ''''"
  shows "validate (DefaultOptions dir) = Inr () \<and> fillDefaults (DefaultOptions dir) = DefaultOptions dir"
  using assms
  by (simp add: DefaultOptions_def validate_def validateNonNegative_def fillDefaults_def Let_def unset_def zeroOptions_def default_defs push_bit_eq_mult
      mul64_def validCodecs_def codecName_defs)

end
