(* ===== verification/Wal.thy ===== *)
theory Wal
  imports Wal_Record Manifest
begin

text \<open>
  The shared write-ahead log (\<^verbatim>\<open>wal.go\<close>): the queue of batches, group commit by the first writer in,
  rotation, closing, the background sync, and replay.  A section under the log's mutex is one
  step; while a committer is draining it alone touches the journal, so writing one group,
  installing it and answering its waiters is one step too, and enqueuing goes on around it.
  A result channel is an entry of the map from batch to the answer sent.  Observer and install function
  are given by the panic message a batch makes them raise, if any; what they were called
  with is recorded.
\<close>

section \<open>State\<close>

record pendingBatch =
  pb_id :: nat
  pb_entries :: "walEntry list"

record walT =
  wl_jw :: journalWriter
  wl_obs :: "(walEntry list \<Rightarrow> string option) option"
  wl_apply :: "(walEntry list \<Rightarrow> string option) option"
  wl_sync :: bool
  wl_pending :: "pendingBatch list"
  wl_writing :: bool
  wl_closed :: bool
  wl_err :: "error option"
  wl_written :: int
  wl_segBytes :: int
  wl_done :: "nat \<rightharpoonup> error option"
  wl_applied :: "walEntry list list"
  wl_observed :: "walEntry list list"

definition newWAL :: "os_file \<Rightarrow> (walEntry list \<Rightarrow> string option) option \<Rightarrow> bool \<Rightarrow> walT" where
  "newWAL file obs sync =
     \<lparr>wl_jw = newJournalWriter file, wl_obs = obs, wl_apply = None, wl_sync = sync, wl_pending = [], wl_writing = False,
      wl_closed = False, wl_err = None, wl_written = 0, wl_segBytes = 0, wl_done = Map.empty, wl_applied = [], wl_observed = []\<rparr>"

section \<open>Operations\<close>

text \<open>The batch queued, if any, and whether the caller must commit.\<close>

definition enqueue :: "pendingBatch \<Rightarrow> walT \<Rightarrow> (pendingBatch option \<times> bool) result \<times> walT" where
  "enqueue pb w =
     (if length (pb_entries pb) = 0 then (Inr (None, False), w)
      else if wl_closed w then (Inl OsErrClosed, w)
      else case wl_err w of Some err \<Rightarrow> (Inl err, w)
      | None \<Rightarrow>
        let w = w\<lparr>wl_pending := wl_pending w @ [pb]\<rparr>
        in if wl_writing w then (Inr (Some pb, False), w) else (Inr (Some pb, True), w\<lparr>wl_writing := True\<rparr>))"

fun writeRecords :: "pendingBatch list \<Rightarrow> walT \<Rightarrow> error option \<times> walT" where
  "writeRecords [] w = (None, w)"
| "writeRecords (pb # pbs) w =
     (if length (pb_entries pb) = 0 then writeRecords pbs w
      else let recbuf = encodeBatch [] (Seq (hd (pb_entries pb))) (pb_entries pb);
               (err, jw) = journal_Write True recbuf (wl_jw w); w = w\<lparr>wl_jw := jw\<rparr>
           in case err of Some err \<Rightarrow> (Some err, w)
              | None \<Rightarrow> writeRecords pbs (w\<lparr>wl_written := wl_written w + int (length recbuf),
                                             wl_segBytes := wl_segBytes w + int (length recbuf)\<rparr>))"

definition writeGroup :: "pendingBatch list \<Rightarrow> walT \<Rightarrow> error option \<times> walT" where
  "writeGroup batch w =
     (let (err, w) = writeRecords batch w
      in case err of Some err \<Rightarrow> (Some err, w)
      | None \<Rightarrow>
        let (err, jw) = journal_Flush (wl_jw w); w = w\<lparr>wl_jw := jw\<rparr>
        in case err of Some err \<Rightarrow> (Some err, w)
        | None \<Rightarrow>
          if \<not> wl_sync w then (None, w)
          else let (err, jw) = jw_Sync (wl_jw w) in (err, w\<lparr>wl_jw := jw\<rparr>))"

fun applyBatches :: "(walEntry list \<Rightarrow> string option) \<Rightarrow> pendingBatch list \<Rightarrow> walT \<Rightarrow> error option \<times> walT" where
  "applyBatches f [] w = (None, w)"
| "applyBatches f (pb # pbs) w =
     (case f (pb_entries pb) of Some msg \<Rightarrow> (Some (Errorf (''wal: apply panic: '' @ msg)), w)
      | None \<Rightarrow> applyBatches f pbs (w\<lparr>wl_applied := wl_applied w @ [pb_entries pb]\<rparr>))"

definition applyGroup :: "pendingBatch list \<Rightarrow> walT \<Rightarrow> error option \<times> walT" where
  "applyGroup batch w = (case wl_apply w of None \<Rightarrow> (None, w) | Some f \<Rightarrow> applyBatches f batch w)"

definition callWALObserver :: "(walEntry list \<Rightarrow> string option) \<Rightarrow> walEntry list \<Rightarrow> walT \<Rightarrow> error option \<times> walT" where
  "callWALObserver obs entries w =
     (case obs entries of Some msg \<Rightarrow> Some (Errorf (''wal: observer panic: '' @ msg)) | None \<Rightarrow> None,
      w\<lparr>wl_observed := wl_observed w @ [entries]\<rparr>)"

definition send_done :: "pendingBatch \<Rightarrow> error option \<Rightarrow> walT \<Rightarrow> walT" where
  "send_done pb err w = w\<lparr>wl_done := (wl_done w)(pb_id pb \<mapsto> err)\<rparr>"

text \<open>Answering a whole group with one error.\<close>

definition fail_all :: "pendingBatch list \<Rightarrow> error \<Rightarrow> walT \<Rightarrow> walT" where
  "fail_all batch err w = foldl (\<lambda>w pb. send_done pb (Some err) w) w batch"

fun observe_all :: "pendingBatch list \<Rightarrow> walT \<Rightarrow> walT" where
  "observe_all [] w = w"
| "observe_all (pb # pbs) w =
     (let (observerErr, w) = (case wl_obs w of None \<Rightarrow> (None, w) | Some obs \<Rightarrow> callWALObserver obs (pb_entries pb) w)
      in observe_all pbs (send_done pb observerErr w))"

definition poison :: "error \<Rightarrow> walT \<Rightarrow> walT" where
  "poison err w = (if wl_err w = None then w\<lparr>wl_err := Some err\<rparr> else w)"

text \<open>One round of the loop of \<open>commit\<close>, in two steps.  Under the mutex: stop when nothing is pending, fail what is
  pending when the log is poisoned, and otherwise take it.\<close>

definition commit_take :: "walT \<Rightarrow> pendingBatch list option \<times> walT" where
  "commit_take w =
     (let batch = wl_pending w; w = w\<lparr>wl_pending := []\<rparr>
      in if length batch = 0 then (None, w\<lparr>wl_writing := False\<rparr>)
      else case wl_err w of Some err \<Rightarrow> (None, fail_all batch err w) | None \<Rightarrow> (Some batch, w))"

definition commit_group :: "pendingBatch list \<Rightarrow> walT \<Rightarrow> walT" where
  "commit_group batch w =
     (let (err, w) = writeGroup batch w
      in case err of Some err \<Rightarrow> fail_all batch err (poison err w)
      | None \<Rightarrow>
        let (applyErr, w) = applyGroup batch w
        in case applyErr of Some err \<Rightarrow> fail_all batch err (poison err w)
           | None \<Rightarrow> observe_all batch w)"

text \<open>Rotation to a fresh file, with the committed watermark \<open>committed\<close>; enabled once no committer is draining.\<close>

definition wal_rotate :: "os_file \<Rightarrow> u64 \<Rightarrow> walT \<Rightarrow> (os_file \<times> u64) result \<times> walT" where
  "wal_rotate file committed w =
     (if wl_closed w then (Inl OsErrClosed, w)
      else case wl_err w of Some err \<Rightarrow> (Inl err, w)
      | None \<Rightarrow>
        let (err, jw) = journal_Flush (wl_jw w); w = w\<lparr>wl_jw := jw\<rparr>
        in case err of Some err \<Rightarrow> (Inl err, w\<lparr>wl_err := Some err\<rparr>)
        | None \<Rightarrow>
          let (err, jw) = jw_Sync (wl_jw w); w = w\<lparr>wl_jw := jw\<rparr>
          in case err of Some err \<Rightarrow> (Inl err, w\<lparr>wl_err := Some err\<rparr>)
          | None \<Rightarrow> (Inr (b_dst (jw_w (wl_jw w)), committed), w\<lparr>wl_jw := newJournalWriter file, wl_segBytes := 0\<rparr>))"

definition wal_Close :: "error option \<Rightarrow> walT \<Rightarrow> error option \<times> walT" where
  "wal_Close closeErr w =
     (let w = w\<lparr>wl_closed := True\<rparr>
      in case wl_err w of Some err \<Rightarrow> (Some err, w)
      | None \<Rightarrow>
        let (err, jw) = journal_Flush (wl_jw w); w = w\<lparr>wl_jw := jw\<rparr>
        in case err of Some err \<Rightarrow> (Some err, w)
        | None \<Rightarrow>
          if wl_sync w then
            let (err, jw) = jw_Sync (wl_jw w); w = w\<lparr>wl_jw := jw\<rparr>
            in case err of Some err \<Rightarrow> (Some err, w) | None \<Rightarrow> (closeErr, w)
          else (closeErr, w))"

definition syncNow :: "walT \<Rightarrow> bool \<times> error option \<times> walT" where
  "syncNow w =
     (if wl_closed w \<or> wl_err w \<noteq> None then (False, wl_err w, w)
      else if wl_writing w then (True, None, w)
      else
        let (err, jw) = journal_Flush (wl_jw w); w = w\<lparr>wl_jw := jw\<rparr>
        in case err of Some err \<Rightarrow> (False, Some err, w)
           | None \<Rightarrow> let (err, jw) = jw_Sync (wl_jw w) in (False, err, w\<lparr>wl_jw := jw\<rparr>))"

definition currentSize :: "walT \<Rightarrow> int" where "currentSize w = wl_segBytes w"
definition wal_bytesWritten :: "walT \<Rightarrow> int" where "wal_bytesWritten w = wl_written w"

section \<open>Replay\<close>

text \<open>The highest sequence of a batch, starting from \<open>seq\<close>.\<close>

definition maxSeq :: "u64 \<Rightarrow> walEntry list \<Rightarrow> u64" where
  "maxSeq seq batch = foldl (\<lambda>seq e. if seq < Seq e then Seq e else seq) seq batch"

definition stop_or :: "bool \<Rightarrow> error \<Rightarrow> error" where
  "stop_or lenient err = (if lenient then ErrWALStop else err)"

text \<open>What is done with one record: the new highest sequence, last record sequence and visitor state, or an error to stop with.\<close>

definition visit_record ::
  "bool \<Rightarrow> (walEntry list \<Rightarrow> 'v \<Rightarrow> error option \<times> 'v) \<Rightarrow> bytes \<Rightarrow> u64 \<times> u64 \<times> 'v \<Rightarrow> error option \<times> u64 \<times> u64 \<times> 'v" where
  "visit_record lenient visit rec st =
     (case st of (seq, lastRecordSeq, v) \<Rightarrow>
       case decodeBatch rec of Inl derr \<Rightarrow> (Some (stop_or lenient derr), st)
       | Inr batch \<Rightarrow>
         if length batch = 0 then (Some (stop_or lenient (Errorf ''wal: empty batch record'')), st)
         else if Seq (hd batch) \<le> lastRecordSeq then (Some (stop_or lenient (Errorf ''wal: non-increasing sequence'')), st)
         else
           let seq = maxSeq seq batch; (err, v) = visit batch v
           in (err, seq, Seq (last batch), v))"

function replay_records ::
  "bool \<Rightarrow> (walEntry list \<Rightarrow> 'v \<Rightarrow> error option \<times> 'v) \<Rightarrow> journalReader \<Rightarrow> u64 \<times> u64 \<times> 'v \<Rightarrow> u64 \<times> error option \<times> 'v" where
  "replay_records lenient visit r st =
     (case Next_record r of
        (Inl rerr, r) \<Rightarrow>
          (fst st, if rerr = IoEOF then None else if lenient \<and> rerr = ErrJournalCorrupt then Some ErrWALStop else Some rerr, snd (snd st))
      | (Inr rec, r) \<Rightarrow>
          (case visit_record lenient visit rec st of
             (Some err, st) \<Rightarrow> (fst st, Some err, snd (snd st))
           | (None, st) \<Rightarrow> replay_records lenient visit r st))"
  by pat_completeness auto
termination
  by (relation "measure (\<lambda>(_, _, r, _). reader_size r)") (auto simp: Next_record_def dest: journal_Next_size [OF sym])

declare replay_records.simps [simp del]

definition replayWALFileVisit ::
  "bytes \<Rightarrow> u64 \<Rightarrow> bool \<Rightarrow> bool \<Rightarrow> (walEntry list \<Rightarrow> 'v \<Rightarrow> error option \<times> 'v) \<Rightarrow> 'v \<Rightarrow> u64 \<times> error option \<times> 'v" where
  "replayWALFileVisit file startSeq lenient strict visit v =
     replay_records lenient visit ((newJournalReader file)\<lparr>strictTail := strict\<rparr>) (startSeq, 0, v)"

definition replayWALFile :: "bytes \<Rightarrow> u64 \<Rightarrow> walEntry list \<times> u64 \<times> error option" where
  "replayWALFile file startSeq =
     (let (seq, err, entries) = replayWALFileVisit file startSeq False False (\<lambda>batch entries. (None, entries @ batch)) []
      in (entries, seq, err))"

section \<open>A journal and the records given to it\<close>

definition tracks :: "journalWriter \<Rightarrow> bytes list \<Rightarrow> bool" where
  "tracks jw recs \<longleftrightarrow>
     (\<exists>off. live jw (fst (frames 0 recs)) off \<and> (\<forall>rs. fst (frames 0 (recs @ rs)) = fst (frames 0 recs) @ fst (frames off rs)))
     \<or> failed jw (fst (frames 0 recs))"

lemma tracks_new: "f_data f = [] \<Longrightarrow> tracks (newJournalWriter f) []"
  by (auto simp: tracks_def live_def newJournalWriter_def intro!: exI [of _ 0])

lemma tracks_prefix: "tracks jw recs \<Longrightarrow> prefix (jfile jw) (fst (frames 0 recs))"
  using live_prefix by (auto simp: tracks_def failed_def)

lemma tracks_write:
  assumes t: "tracks jw recs" and w: "journal_Write True r jw = (e, jw')"
  shows "tracks jw' (recs @ [r])"
  using t unfolding tracks_def
proof (elim disjE exE conjE)
  fix off assume lv: "live jw (fst (frames 0 recs)) off" and c: "\<forall>rs. fst (frames 0 (recs @ rs)) = fst (frames 0 recs) @ fst (frames off rs)"
  obtain b o1 where f: "frame off True r = (b, o1)" by fastforce
  have e1: "fst (frames 0 (recs @ [r])) = fst (frames 0 recs) @ b" using c f by (simp split: prod.splits)
  have c1: "fst (frames 0 ((recs @ [r]) @ rs)) = fst (frames 0 (recs @ [r])) @ fst (frames o1 rs)" for rs
    using c [rule_format, of "r # rs"] f e1 by (simp split: prod.splits)
  from journal_Write_ok [OF lv w f] c1 show "(\<exists>off. live jw' (fst (frames 0 (recs @ [r]))) off
      \<and> (\<forall>rs. fst (frames 0 ((recs @ [r]) @ rs)) = fst (frames 0 (recs @ [r])) @ fst (frames off rs))) \<or> failed jw' (fst (frames 0 (recs @ [r])))"
    unfolding e1 by blast
next
  assume "failed jw (fst (frames 0 recs))"
  from journal_Write_failed [OF this w] have "prefix (jfile jw') (fst (frames 0 recs))" "b_err (jw_w jw') \<noteq> None" by (auto simp: failed_def)
  then have "failed jw' (fst (frames 0 (recs @ [r])))"
    using frames_prefix [of 0 recs "[r]"] by (auto simp: failed_def intro: prefix_order.trans)
  then show "(\<exists>off. live jw' (fst (frames 0 (recs @ [r]))) off
      \<and> (\<forall>rs. fst (frames 0 ((recs @ [r]) @ rs)) = fst (frames 0 (recs @ [r])) @ fst (frames off rs))) \<or> failed jw' (fst (frames 0 (recs @ [r])))" ..
qed

lemma tracks_flush:
  assumes t: "tracks jw recs" and w: "journal_Flush jw = (e, jw')"
  shows "tracks jw' recs \<and> (e = None \<longrightarrow> jfile jw' = fst (frames 0 recs))"
  using t unfolding tracks_def
proof (elim disjE exE conjE)
  fix off assume lv: "live jw (fst (frames 0 recs)) off" and c: "\<forall>rs. fst (frames 0 (recs @ rs)) = fst (frames 0 recs) @ fst (frames off rs)"
  from journal_Flush_ok [OF lv w] c frames_blockSize
  show "((\<exists>off. live jw' (fst (frames 0 recs)) off \<and> (\<forall>rs. fst (frames 0 (recs @ rs)) = fst (frames 0 recs) @ fst (frames off rs)))
      \<or> failed jw' (fst (frames 0 recs))) \<and> (e = None \<longrightarrow> jfile jw' = fst (frames 0 recs))"
    by auto
next
  assume "failed jw (fst (frames 0 recs))"
  from journal_Flush_failed [OF this w] show "((\<exists>off. live jw' (fst (frames 0 recs)) off \<and> (\<forall>rs. fst (frames 0 (recs @ rs)) = fst (frames 0 recs) @ fst (frames off rs)))
      \<or> failed jw' (fst (frames 0 recs))) \<and> (e = None \<longrightarrow> jfile jw' = fst (frames 0 recs))" by blast
qed

lemma tracks_sync: "tracks jw recs \<Longrightarrow> jw_Sync jw = (e, jw') \<Longrightarrow> tracks jw' recs \<and> jfile jw' = jfile jw"
  by (auto simp: tracks_def jw_Sync_def live_def failed_def Let_def split: prod.splits io_outcome.splits)

section \<open>Groups\<close>

definition batch_record :: "pendingBatch \<Rightarrow> bytes" where
  "batch_record pb = encodeBatch [] (Seq (hd (pb_entries pb))) (pb_entries pb)"

lemma tracks_write_err:
  assumes t: "tracks jw recs" and w: "journal_Write True r jw = (Some x, jw')"
  shows "failed jw' (fst (frames 0 (recs @ [r])))"
proof -
  have "failed jw' (fst (frames 0 recs)) \<Longrightarrow> ?thesis"
    using frames_prefix [of 0 recs "[r]"] by (auto simp: failed_def intro: prefix_order.trans)
  moreover have ?thesis if lv: "live jw (fst (frames 0 recs)) off" and c: "\<forall>rs. fst (frames 0 (recs @ rs)) = fst (frames 0 recs) @ fst (frames off rs)" for off
  proof -
    obtain b o1 where f: "frame off True r = (b, o1)" by fastforce
    have "fst (frames 0 (recs @ [r])) = fst (frames 0 recs) @ b" using c f by (simp split: prod.splits)
    then show ?thesis using journal_Write_ok [OF lv w f] by simp
  qed
  ultimately show ?thesis using t journal_Write_failed [OF _ w] unfolding tracks_def by blast
qed

definition same_setup :: "walT \<Rightarrow> walT \<Rightarrow> bool" where
  "same_setup w w' \<longleftrightarrow> wl_obs w' = wl_obs w \<and> wl_apply w' = wl_apply w \<and> wl_sync w' = wl_sync w
     \<and> wl_writing w' = wl_writing w \<and> wl_closed w' = wl_closed w"

text \<open>Only the journal and the byte counters differ.\<close>

definition journal_only :: "walT \<Rightarrow> walT \<Rightarrow> bool" where
  "journal_only w w' \<longleftrightarrow> same_setup w w' \<and> wl_pending w' = wl_pending w \<and> wl_err w' = wl_err w
     \<and> wl_done w' = wl_done w \<and> wl_applied w' = wl_applied w \<and> wl_observed w' = wl_observed w"

lemma writeRecords_ok:
  "writeRecords pbs w = (e, w') \<Longrightarrow> \<forall>pb\<in>set pbs. pb_entries pb \<noteq> [] \<Longrightarrow> tracks (wl_jw w) recs \<Longrightarrow>
   journal_only w w' \<and> tracks (wl_jw w') (recs @ map batch_record pbs) \<and> prefix (jfile (wl_jw w)) (jfile (wl_jw w'))"
proof (induction pbs arbitrary: w recs)
  case Nil
  then show ?case by (simp add: journal_only_def same_setup_def)
next
  case (Cons pb pbs)
  obtain e1 jw where w: "journal_Write True (batch_record pb) (wl_jw w) = (e1, jw)" by fastforce
  have t1: "tracks jw (recs @ [batch_record pb])" by (rule tracks_write [OF Cons.prems(3) w])
  have g: "prefix (jfile (wl_jw w)) (jfile jw)" by (rule journal_Write_grows [OF w])
  have ne: "pb_entries pb \<noteq> []" using Cons.prems(2) by simp
  show ?case
  proof (cases e1)
    case (Some x)
    then have w': "w' = w\<lparr>wl_jw := jw\<rparr>" using Cons.prems(1) w ne by (simp add: batch_record_def)
    have "failed jw (fst (frames 0 (recs @ [batch_record pb])))" using tracks_write_err [OF Cons.prems(3) w [unfolded Some]] .
    then have "tracks jw ((recs @ [batch_record pb]) @ map batch_record pbs)"
      using frames_prefix [of 0 "recs @ [batch_record pb]" "map batch_record pbs"] unfolding tracks_def failed_def
      by (blast intro: prefix_order.trans)
    then show ?thesis using w' g by (simp add: journal_only_def same_setup_def)
  next
    case None
    let ?w = "w\<lparr>wl_jw := jw, wl_written := wl_written w + int (length (batch_record pb)), wl_segBytes := wl_segBytes w + int (length (batch_record pb))\<rparr>"
    have "writeRecords pbs ?w = (e, w')" using Cons.prems(1) w ne None by (simp add: batch_record_def Let_def)
    moreover have "\<forall>pb\<in>set pbs. pb_entries pb \<noteq> []" using Cons.prems(2) by simp
    ultimately have "journal_only ?w w'" "tracks (wl_jw w') ((recs @ [batch_record pb]) @ map batch_record pbs)" "prefix (jfile jw) (jfile (wl_jw w'))"
      using Cons.IH [of ?w "recs @ [batch_record pb]"] t1 by simp_all
    then show ?thesis using g by (auto simp: journal_only_def same_setup_def intro: prefix_order.trans)
  qed
qed

lemma writeGroup_ok:
  assumes w: "writeGroup pbs w = (e, w')" and ne: "\<forall>pb\<in>set pbs. pb_entries pb \<noteq> []" and t: "tracks (wl_jw w) recs"
  shows "journal_only w w' \<and> tracks (wl_jw w') (recs @ map batch_record pbs) \<and> prefix (jfile (wl_jw w)) (jfile (wl_jw w'))
    \<and> (e = None \<longrightarrow> jfile (wl_jw w') = fst (frames 0 (recs @ map batch_record pbs)))"
proof -
  obtain e1 w1 where r: "writeRecords pbs w = (e1, w1)" by fastforce
  note 1 = writeRecords_ok [OF r ne t]
  obtain e2 j2 where f: "journal_Flush (wl_jw w1) = (e2, j2)" by fastforce
  have 2: "tracks j2 (recs @ map batch_record pbs)" "e2 = None \<longrightarrow> jfile j2 = fst (frames 0 (recs @ map batch_record pbs))"
    "prefix (jfile (wl_jw w)) (jfile j2)"
    using tracks_flush [OF _ f, of "recs @ map batch_record pbs"] 1 journal_Flush_grows [OF f] by (auto intro: prefix_order.trans)
  obtain e3 j3 where s: "jw_Sync j2 = (e3, j3)" by fastforce
  have 3: "tracks j3 (recs @ map batch_record pbs)" "jfile j3 = jfile j2" using tracks_sync [OF 2(1) s] by simp_all
  show ?thesis
  proof (cases e1)
    case (Some x)
    then show ?thesis using w r 1 by (auto simp: writeGroup_def)
  next
    case None
    then have w': "(e, w') = (if e2 \<noteq> None \<or> \<not> wl_sync w1 then (e2, w1\<lparr>wl_jw := j2\<rparr>) else (e3, w1\<lparr>wl_jw := j3\<rparr>))"
      using w r f s by (auto simp: writeGroup_def Let_def split: option.splits)
    show ?thesis using w' 1 2 3 by (auto simp: journal_only_def same_setup_def split: if_splits)
  qed
qed

text \<open>Answering a group changes the answers of its batches only.\<close>

definition answers_group :: "pendingBatch list \<Rightarrow> walT \<Rightarrow> walT \<Rightarrow> bool" where
  "answers_group batch w w' \<longleftrightarrow> same_setup w w' \<and> wl_jw w' = wl_jw w \<and> wl_pending w' = wl_pending w \<and> wl_err w' = wl_err w
     \<and> wl_applied w' = wl_applied w
     \<and> (\<forall>i. (i \<in> pb_id ` set batch \<longrightarrow> wl_done w' i \<noteq> None) \<and> (i \<notin> pb_id ` set batch \<longrightarrow> wl_done w' i = wl_done w i))"

lemma fail_all_ok: "answers_group batch w (fail_all batch err w) \<and> (\<forall>i\<in>pb_id ` set batch. wl_done (fail_all batch err w) i = Some (Some err))"
proof (induction batch arbitrary: w)
  case Nil
  then show ?case by (simp add: answers_group_def same_setup_def fail_all_def)
next
  case (Cons pb batch)
  let ?w = "send_done pb (Some err) w"
  have "fail_all (pb # batch) err w = fail_all batch err ?w" by (simp add: fail_all_def)
  with Cons.IH [of ?w] show ?case by (cases "pb_id pb \<in> pb_id ` set batch")
      (auto simp: answers_group_def same_setup_def send_done_def)
qed

lemma observe_all_ok: "answers_group batch w (observe_all batch w)"
proof (induction batch arbitrary: w)
  case Nil
  then show ?case by (simp add: answers_group_def same_setup_def)
next
  case (Cons pb batch)
  obtain err ob where o: "(case wl_obs w of None \<Rightarrow> (None, w) | Some obs \<Rightarrow> callWALObserver obs (pb_entries pb) w) = (err, w\<lparr>wl_observed := ob\<rparr>)"
    by (cases "wl_obs w") (auto simp: callWALObserver_def intro: that [of None "wl_observed w"])
  let ?w = "send_done pb err (w\<lparr>wl_observed := ob\<rparr>)"
  have "observe_all (pb # batch) w = observe_all batch ?w" using o by simp
  with Cons.IH [of ?w] have "answers_group batch ?w (observe_all (pb # batch) w)" by (simp only:)
  then show ?case by (cases "pb_id pb \<in> pb_id ` set batch")
      (auto simp: answers_group_def same_setup_def send_done_def simp del: observe_all.simps)
qed

lemma applyBatches_ok:
  "applyBatches f pbs w = (e, w') \<Longrightarrow> same_setup w w' \<and> wl_jw w' = wl_jw w \<and> wl_pending w' = wl_pending w \<and> wl_err w' = wl_err w
   \<and> wl_done w' = wl_done w \<and> prefix (wl_applied w) (wl_applied w')
   \<and> prefix (wl_applied w') (wl_applied w @ map pb_entries pbs) \<and> (e = None \<longrightarrow> wl_applied w' = wl_applied w @ map pb_entries pbs)"
proof (induction pbs arbitrary: w)
  case (Cons pb pbs)
  then show ?case
    using Cons.IH [of "w\<lparr>wl_applied := wl_applied w @ [pb_entries pb]\<rparr>"]
    by (auto simp: same_setup_def split: option.splits dest: append_prefixD)
qed (simp add: same_setup_def)

section \<open>Without failures a group is written\<close>

lemma writeRecords_healthy:
  "healthy (jw_w (wl_jw w)) \<Longrightarrow> writeRecords pbs w = (e, w') \<Longrightarrow> e = None \<and> healthy (jw_w (wl_jw w'))"
proof (induction pbs arbitrary: w)
  case (Cons pb pbs)
  obtain e1 jw where j: "journal_Write True (encodeBatch [] (Seq (hd (pb_entries pb))) (pb_entries pb)) (wl_jw w) = (e1, jw)" by fastforce
  have "e1 = None \<and> healthy (jw_w jw)" by (rule journal_Write_healthy [OF Cons.prems(1) j])
  then show ?case using Cons.prems j Cons.IH [of w] Cons.IH [of "w\<lparr>wl_jw := jw, wl_written := y, wl_segBytes := z\<rparr>" for y z]
    by (auto simp: Let_def split: if_splits)
qed simp

lemma writeGroup_healthy:
  assumes "healthy (jw_w (wl_jw w))" "writeGroup pbs w = (e, w')" shows "e = None"
proof -
  obtain e1 w1 where r: "writeRecords pbs w = (e1, w1)" by fastforce
  have 1: "e1 = None \<and> healthy (jw_w (wl_jw w1))" by (rule writeRecords_healthy [OF assms(1) r])
  obtain e2 j2 where f: "journal_Flush (wl_jw w1) = (e2, j2)" by fastforce
  have 2: "e2 = None \<and> healthy (jw_w j2)" using journal_Flush_healthy [OF _ f] 1 by blast
  obtain e3 j3 where "jw_Sync j2 = (e3, j3)" by fastforce
  then show ?thesis using jw_Sync_healthy [of j2 e3 j3] 1 2 r f assms(2) by (auto simp: writeGroup_def Let_def split: if_splits)
qed

end
