(* ===== verification/Wal_Commit.thy ===== *)
theory Wal_Commit
  imports Wal
begin

text \<open>
  The write-ahead log under concurrent use.  Writers enqueue, a committer takes and commits groups, the log is
  rotated, synced and closed, in any order and with any outcome of the I/O; the invariant kept by every
  step gives what replay recovers after a crash.
\<close>

section \<open>Interleavings\<close>

text \<open>
  The log together with the group a committer holds, the batches tried in the current file, the sealed
  files with theirs, all batches accepted so far, and the length of the current file at the last group sync that succeeded.
\<close>

record walSys =
  sy_w :: walT
  sy_group :: "pendingBatch list"
  sy_log :: "pendingBatch list"
  sy_sealed :: "(bytes \<times> pendingBatch list) list"
  sy_queue :: "pendingBatch list"
  sy_synced :: nat

text \<open>What the database guarantees of a batch it enqueues under its sequence lock.\<close>

definition wf_batch :: "pendingBatch \<Rightarrow> bool" where
  "wf_batch pb \<longleftrightarrow> pb_entries pb \<noteq> [] \<and> (\<forall>e\<in>set (pb_entries pb). wf_entry e) \<and> consecutive (Seq (hd (pb_entries pb))) (pb_entries pb)
     \<and> 0 < Seq (hd (pb_entries pb)) \<and> unat (Seq (hd (pb_entries pb))) + length (pb_entries pb) \<le> 2 ^ 64 \<and> fits (batch_record pb)"

definition after :: "pendingBatch list \<Rightarrow> pendingBatch \<Rightarrow> bool" where
  "after q pb \<longleftrightarrow> (\<forall>b\<in>set q. Seq (last (pb_entries b)) < Seq (hd (pb_entries pb)) \<and> pb_id b \<noteq> pb_id pb)"

inductive wal_step :: "walSys \<Rightarrow> walSys \<Rightarrow> bool" where
  ws_enqueue: "wf_batch pb \<Longrightarrow> after (sy_queue s) pb \<Longrightarrow> enqueue pb (sy_w s) = (r, w) \<Longrightarrow>
    wal_step s (s\<lparr>sy_w := w, sy_queue := sy_queue s @ (case r of Inr (Some b, _) \<Rightarrow> [b] | _ \<Rightarrow> [])\<rparr>)"
| ws_take: "wl_writing (sy_w s) \<Longrightarrow> sy_group s = [] \<Longrightarrow> commit_take (sy_w s) = (g, w) \<Longrightarrow>
    wal_step s (s\<lparr>sy_w := w, sy_group := (case g of None \<Rightarrow> [] | Some batch \<Rightarrow> batch)\<rparr>)"
| ws_group: "sy_group s = batch \<Longrightarrow> batch \<noteq> [] \<Longrightarrow> commit_group batch (sy_w s) = w \<Longrightarrow>
    wal_step s (s\<lparr>sy_w := w, sy_group := [], sy_log := sy_log s @ batch,
      sy_synced := (if fst (writeGroup batch (sy_w s)) = None \<and> wl_sync w then length (jfile (wl_jw w)) else sy_synced s)\<rparr>)"
| ws_rotate: "\<not> wl_writing (sy_w s) \<Longrightarrow> f_data file = [] \<Longrightarrow> wal_rotate file cutoff (sy_w s) = (r, w) \<Longrightarrow>
    wal_step s (case r of Inl _ \<Rightarrow> s\<lparr>sy_w := w\<rparr>
      | Inr (old, _) \<Rightarrow> s\<lparr>sy_w := w, sy_sealed := sy_sealed s @ [(f_data old, sy_log s)], sy_log := [], sy_synced := 0\<rparr>)"
| ws_close: "\<not> wl_writing (sy_w s) \<Longrightarrow> wal_Close c (sy_w s) = (r, w) \<Longrightarrow> wal_step s (s\<lparr>sy_w := w\<rparr>)"
| ws_sync: "syncNow (sy_w s) = (skipped, r, w) \<Longrightarrow> wal_step s (s\<lparr>sy_w := w\<rparr>)"

definition wal_start :: "os_file \<Rightarrow> (walEntry list \<Rightarrow> string option) option \<Rightarrow> (walEntry list \<Rightarrow> string option) option \<Rightarrow> bool \<Rightarrow> walSys" where
  "wal_start file obs install sync =
     \<lparr>sy_w = (newWAL file obs sync)\<lparr>wl_apply := install\<rparr>, sy_group = [], sy_log = [], sy_sealed = [], sy_queue = [], sy_synced = 0\<rparr>"

section \<open>The invariant\<close>

abbreviation tried :: "walSys \<Rightarrow> pendingBatch list" where
  "tried s \<equiv> concat (map snd (sy_sealed s)) @ sy_log s"

definition acked :: "walSys \<Rightarrow> pendingBatch \<Rightarrow> bool" where
  "acked s pb \<longleftrightarrow> wl_done (sy_w s) (pb_id pb) = Some None"

text \<open>The first \<open>k\<close> batches of the current file are whole in it, and only they may have been acknowledged.\<close>

definition durable_upto :: "walSys \<Rightarrow> nat \<Rightarrow> bool" where
  "durable_upto s k \<longleftrightarrow> k \<le> length (sy_log s)
     \<and> prefix (fst (frames 0 (map batch_record (take k (sy_log s))))) (jfile (wl_jw (sy_w s)))
     \<and> (wl_sync (sy_w s) \<longrightarrow> length (fst (frames 0 (map batch_record (take k (sy_log s))))) \<le> sy_synced s)
     \<and> (\<forall>pb\<in>set (drop k (sy_log s)). \<not> acked s pb)
     \<and> (wl_err (sy_w s) = None \<longrightarrow> k = length (sy_log s))
     \<and> (wl_apply (sy_w s) \<noteq> None \<longrightarrow> prefix (map pb_entries (concat (map snd (sy_sealed s)) @ take k (sy_log s))) (wl_applied (sy_w s))
          \<and> prefix (wl_applied (sy_w s)) (map pb_entries (tried s)))"

definition queue_inv :: "walSys \<Rightarrow> bool" where
  "queue_inv s \<longleftrightarrow> (\<exists>rest. sy_queue s = tried s @ sy_group s @ rest \<and> set (wl_pending (sy_w s)) \<subseteq> set rest
       \<and> (wl_err (sy_w s) = None \<longrightarrow> rest = wl_pending (sy_w s)))
     \<and> (sy_group s \<noteq> [] \<or> wl_pending (sy_w s) \<noteq> [] \<longrightarrow> wl_writing (sy_w s)) \<and> (sy_group s \<noteq> [] \<longrightarrow> wl_err (sy_w s) = None)
     \<and> (\<forall>pb\<in>set (sy_queue s). wf_batch pb) \<and> distinct (map pb_id (sy_queue s))
     \<and> sorted_wrt (\<lambda>a b. Seq (last (pb_entries a)) < Seq (hd (pb_entries b))) (sy_queue s)
     \<and> (\<forall>pb\<in>set (sy_queue s). pb \<in> set (sy_group s) \<or> pb \<in> set (wl_pending (sy_w s)) \<or> wl_done (sy_w s) (pb_id pb) \<noteq> None)
     \<and> (\<forall>pb\<in>set (sy_group s) \<union> set (wl_pending (sy_w s)). wl_done (sy_w s) (pb_id pb) = None)
     \<and> dom (wl_done (sy_w s)) \<subseteq> pb_id ` set (sy_queue s)"

definition wal_inv :: "walSys \<Rightarrow> bool" where
  "wal_inv s \<longleftrightarrow> tracks (wl_jw (sy_w s)) (map batch_record (sy_log s)) \<and> sy_synced s \<le> length (jfile (wl_jw (sy_w s)))
     \<and> (\<exists>k. durable_upto s k) \<and> queue_inv s \<and> (\<forall>(f, l)\<in>set (sy_sealed s). f = fst (frames 0 (map batch_record l)))"

lemma wal_start_inv: "f_data file = [] \<Longrightarrow> wal_inv (wal_start file obs install sync)"
  by (auto simp: wal_inv_def wal_start_def newWAL_def tracks_new durable_upto_def queue_inv_def)

text \<open>The journal may advance without a change of the records given to it.\<close>

lemma durable_upto_advance:
  assumes "durable_upto s k" "prefix (jfile (wl_jw (sy_w s))) (jfile (wl_jw (sy_w s')))" "sy_log s' = sy_log s" "sy_sealed s' = sy_sealed s"
    "sy_synced s' = sy_synced s" "wl_sync (sy_w s') = wl_sync (sy_w s)" "wl_done (sy_w s') = wl_done (sy_w s)"
    "wl_err (sy_w s') = None \<longrightarrow> wl_err (sy_w s) = None" "wl_apply (sy_w s') = wl_apply (sy_w s)" "wl_applied (sy_w s') = wl_applied (sy_w s)"
  shows "durable_upto s' k"
  using assms by (auto simp: durable_upto_def acked_def intro: prefix_order.trans)

lemma wal_inv_advance:
  assumes inv: "wal_inv s" and s': "s' = s\<lparr>sy_w := w\<rparr>" and same: "wl_sync w = wl_sync (sy_w s)" "wl_apply w = wl_apply (sy_w s)"
    "wl_pending w = wl_pending (sy_w s)" "wl_done w = wl_done (sy_w s)" "wl_applied w = wl_applied (sy_w s)" "wl_writing w = wl_writing (sy_w s)"
    and t: "tracks (wl_jw w) (map batch_record (sy_log s))" "prefix (jfile (wl_jw (sy_w s))) (jfile (wl_jw w))"
    and err: "wl_err w = wl_err (sy_w s) \<or> sy_group s = [] \<and> wl_pending (sy_w s) = [] \<and> wl_err w \<noteq> None"
  shows "wal_inv s'"
proof -
  obtain k where k: "durable_upto s k" using inv by (auto simp: wal_inv_def)
  have "durable_upto s' k" using t(2) same err by (intro durable_upto_advance [OF k]) (auto simp: s')
  moreover have "queue_inv s'"
  proof -
    have q: "queue_inv s" using inv by (simp add: wal_inv_def)
    then obtain rest where r: "sy_queue s = tried s @ sy_group s @ rest" "set (wl_pending (sy_w s)) \<subseteq> set rest"
      "wl_err (sy_w s) = None \<longrightarrow> rest = wl_pending (sy_w s)" by (auto simp: queue_inv_def)
    have "wl_err w = None \<longrightarrow> rest = wl_pending w" using r(3) err same by auto
    moreover have "sy_group s \<noteq> [] \<longrightarrow> wl_err w = None" using q err by (auto simp: queue_inv_def)
    ultimately show ?thesis using q r same unfolding queue_inv_def s' by auto
  qed
  moreover have "sy_synced s \<le> length (jfile (wl_jw w))" using inv t(2) prefix_length_le by (force simp: wal_inv_def)
  ultimately show ?thesis using inv t(1) by (auto simp: wal_inv_def s')
qed

lemma sync_inv:
  assumes inv: "wal_inv s" and w: "syncNow (sy_w s) = (sk, r, w)"
  shows "wal_inv (s\<lparr>sy_w := w\<rparr>)"
proof (cases "wl_closed (sy_w s) \<or> wl_err (sy_w s) \<noteq> None \<or> wl_writing (sy_w s)")
  case True
  then show ?thesis using w inv by (auto simp: syncNow_def split: if_splits)
next
  case False
  obtain e1 j1 where f: "journal_Flush (wl_jw (sy_w s)) = (e1, j1)" by fastforce
  obtain e2 j2 where y: "jw_Sync j1 = (e2, j2)" by fastforce
  have t: "tracks (wl_jw (sy_w s)) (map batch_record (sy_log s))" using inv by (simp add: wal_inv_def)
  have t1: "tracks j1 (map batch_record (sy_log s))" using tracks_flush [OF t f] by simp
  have t2: "tracks j2 (map batch_record (sy_log s))" "jfile j2 = jfile j1" using tracks_sync [OF t1 y] by simp_all
  obtain j where "w = (sy_w s)\<lparr>wl_jw := j\<rparr>" "j = j1 \<or> j = j2"
    using w False f y by (auto simp: syncNow_def Let_def split: option.splits)
  then show ?thesis using t1 t2 journal_Flush_grows [OF f] by (intro wal_inv_advance [OF inv refl]) auto
qed

lemma close_inv:
  assumes inv: "wal_inv s" and nw: "\<not> wl_writing (sy_w s)" and w: "wal_Close c (sy_w s) = (r, w)"
  shows "wal_inv (s\<lparr>sy_w := w\<rparr>)"
proof -
  obtain e1 j1 where f: "journal_Flush (wl_jw (sy_w s)) = (e1, j1)" by fastforce
  obtain e2 j2 where y: "jw_Sync j1 = (e2, j2)" by fastforce
  have t: "tracks (wl_jw (sy_w s)) (map batch_record (sy_log s))" using inv by (simp add: wal_inv_def)
  have t1: "tracks j1 (map batch_record (sy_log s))" using tracks_flush [OF t f] by simp
  have t2: "tracks j2 (map batch_record (sy_log s))" "jfile j2 = jfile j1" using tracks_sync [OF t1 y] by simp_all
  have "w = (sy_w s)\<lparr>wl_closed := True\<rparr> \<or> w = (sy_w s)\<lparr>wl_closed := True, wl_jw := j1\<rparr> \<or> w = (sy_w s)\<lparr>wl_closed := True, wl_jw := j2\<rparr>"
    using w f y by (auto simp: wal_Close_def Let_def split: option.splits if_splits)
  then show ?thesis using t t1 t2 journal_Flush_grows [OF f] by (intro wal_inv_advance [OF inv refl]) auto
qed

lemma rotate_file_inv:
  assumes inv: "wal_inv s" and nw: "\<not> wl_writing (sy_w s)" and fl: "f_data file = []" and w: "wal_rotate file cutoff (sy_w s) = (r, w)"
  shows "wal_inv (case r of Inl _ \<Rightarrow> s\<lparr>sy_w := w\<rparr>
      | Inr (old, _) \<Rightarrow> s\<lparr>sy_w := w, sy_sealed := sy_sealed s @ [(f_data old, sy_log s)], sy_log := [], sy_synced := 0\<rparr>)"
proof -
  obtain e1 j1 where f: "journal_Flush (wl_jw (sy_w s)) = (e1, j1)" by fastforce
  obtain e2 j2 where y: "jw_Sync j1 = (e2, j2)" by fastforce
  have t: "tracks (wl_jw (sy_w s)) (map batch_record (sy_log s))" using inv by (simp add: wal_inv_def)
  have t1: "tracks j1 (map batch_record (sy_log s))" "e1 = None \<longrightarrow> jfile j1 = fst (frames 0 (map batch_record (sy_log s)))"
    using tracks_flush [OF t f] by simp_all
  have t2: "tracks j2 (map batch_record (sy_log s))" "jfile j2 = jfile j1" using tracks_sync [OF t1(1) y] by simp_all
  have idle: "sy_group s = []" "wl_pending (sy_w s) = []" using inv nw by (auto simp: wal_inv_def queue_inv_def)
  show ?thesis
  proof (cases r)
    case (Inl err)
    then have "w = sy_w s \<or> w = (sy_w s)\<lparr>wl_jw := j1, wl_err := e1\<rparr> \<and> e1 \<noteq> None \<or> w = (sy_w s)\<lparr>wl_jw := j2, wl_err := e2\<rparr> \<and> e2 \<noteq> None"
      using w f y by (auto simp: wal_rotate_def Let_def split: option.splits if_splits)
    then have "wal_inv (s\<lparr>sy_w := w\<rparr>)"
      using t t1(1) t2 journal_Flush_grows [OF f] idle by (intro wal_inv_advance [OF inv refl]) auto
    then show ?thesis using Inl by simp
  next
    case (Inr oc)
    then have e: "wl_err (sy_w s) = None" "e1 = None" "e2 = None" "oc = (b_dst (jw_w j2), cutoff)"
      "w = (sy_w s)\<lparr>wl_jw := newJournalWriter file, wl_segBytes := 0\<rparr>"
      using w f y by (auto simp: wal_rotate_def Let_def split: option.splits if_splits)
    let ?s = "s\<lparr>sy_w := w, sy_sealed := sy_sealed s @ [(jfile j2, sy_log s)], sy_log := [], sy_synced := 0\<rparr>"
    obtain k where k: "durable_upto s k" using inv by (auto simp: wal_inv_def)
    then have "k = length (sy_log s)" using e(1) by (simp add: durable_upto_def)
    then have "durable_upto ?s 0" using k by (simp add: durable_upto_def e(5))
    moreover have "queue_inv ?s" using inv idle by (auto simp: wal_inv_def queue_inv_def e(5))
    moreover have "tracks (wl_jw w) []" using tracks_new [OF fl] by (simp add: e(5))
    ultimately have "wal_inv ?s" using inv t1(2) t2(2) e(2) by (auto simp: wal_inv_def)
    then show ?thesis using Inr e(4) by simp
  qed
qed

lemma queue_invD:
  assumes "queue_inv s"
  shows "sy_group s \<noteq> [] \<or> wl_pending (sy_w s) \<noteq> [] \<Longrightarrow> wl_writing (sy_w s)" "sy_group s \<noteq> [] \<Longrightarrow> wl_err (sy_w s) = None"
    "\<forall>pb\<in>set (sy_queue s). wf_batch pb" "distinct (map pb_id (sy_queue s))"
    "sorted_wrt (\<lambda>a b. Seq (last (pb_entries a)) < Seq (hd (pb_entries b))) (sy_queue s)"
    "\<forall>pb\<in>set (sy_queue s). pb \<in> set (sy_group s) \<or> pb \<in> set (wl_pending (sy_w s)) \<or> wl_done (sy_w s) (pb_id pb) \<noteq> None"
    "\<forall>pb\<in>set (sy_group s) \<union> set (wl_pending (sy_w s)). wl_done (sy_w s) (pb_id pb) = None"
    "dom (wl_done (sy_w s)) \<subseteq> pb_id ` set (sy_queue s)"
  using assms unfolding queue_inv_def by blast+

lemma queue_invI:
  assumes "sy_queue s = tried s @ sy_group s @ rest" "set (wl_pending (sy_w s)) \<subseteq> set rest" "wl_err (sy_w s) = None \<longrightarrow> rest = wl_pending (sy_w s)"
    "sy_group s \<noteq> [] \<or> wl_pending (sy_w s) \<noteq> [] \<longrightarrow> wl_writing (sy_w s)" "sy_group s \<noteq> [] \<longrightarrow> wl_err (sy_w s) = None"
    "\<forall>pb\<in>set (sy_queue s). wf_batch pb" "distinct (map pb_id (sy_queue s))"
    "sorted_wrt (\<lambda>a b. Seq (last (pb_entries a)) < Seq (hd (pb_entries b))) (sy_queue s)"
    "\<forall>pb\<in>set (sy_queue s). pb \<in> set (sy_group s) \<or> pb \<in> set (wl_pending (sy_w s)) \<or> wl_done (sy_w s) (pb_id pb) \<noteq> None"
    "\<forall>pb\<in>set (sy_group s) \<union> set (wl_pending (sy_w s)). wl_done (sy_w s) (pb_id pb) = None"
    "dom (wl_done (sy_w s)) \<subseteq> pb_id ` set (sy_queue s)"
  shows "queue_inv s"
  unfolding queue_inv_def using assms by (intro conjI exI [of _ rest])

lemma enqueue_inv:
  assumes inv: "wal_inv s" and pb: "wf_batch pb" "after (sy_queue s) pb" and w: "enqueue pb (sy_w s) = (r, w)"
  shows "wal_inv (s\<lparr>sy_w := w, sy_queue := sy_queue s @ (case r of Inr (Some b, _) \<Rightarrow> [b] | _ \<Rightarrow> [])\<rparr>)"
proof (cases "wl_closed (sy_w s) \<or> wl_err (sy_w s) \<noteq> None")
  case True
  then have "w = sy_w s" "(case r of Inr (Some b, _) \<Rightarrow> [b] | _ \<Rightarrow> []) = []"
    using w pb(1) by (auto simp: enqueue_def wf_batch_def split: option.splits if_splits)
  then show ?thesis using inv by simp
next
  case False
  then have w': "w = (sy_w s)\<lparr>wl_pending := wl_pending (sy_w s) @ [pb], wl_writing := True\<rparr>" "(case r of Inr (Some b, _) \<Rightarrow> [b] | _ \<Rightarrow> []) = [pb]"
    using w pb(1) by (auto simp: enqueue_def wf_batch_def Let_def split: option.splits if_splits)
  let ?s = "s\<lparr>sy_w := w, sy_queue := sy_queue s @ [pb]\<rparr>"
  obtain k where k: "durable_upto s k" using inv by (auto simp: wal_inv_def)
  have "durable_upto ?s k" by (rule durable_upto_advance [OF k]) (simp_all add: w')
  moreover have "queue_inv ?s"
  proof -
    have q: "queue_inv s" using inv by (simp add: wal_inv_def)
    have fresh: "pb_id pb \<notin> pb_id ` set (sy_queue s)" using pb(2) by (auto simp: after_def)
    then have none: "wl_done (sy_w s) (pb_id pb) = None" using queue_invD(8) [OF q] by blast
    have "sorted_wrt (\<lambda>a b. Seq (last (pb_entries a)) < Seq (hd (pb_entries b))) (sy_queue s @ [pb])"
      using queue_invD(5) [OF q] pb(2) by (simp add: sorted_wrt_append after_def)
    moreover have "sy_queue s = tried s @ sy_group s @ wl_pending (sy_w s)" using q False by (auto simp: queue_inv_def)
    then have "\<exists>rest. sy_queue ?s = tried ?s @ sy_group ?s @ rest \<and> set (wl_pending (sy_w ?s)) \<subseteq> set rest
        \<and> (wl_err (sy_w ?s) = None \<longrightarrow> rest = wl_pending (sy_w ?s))" by (intro exI [of _ "wl_pending w"]) (simp add: w')
    moreover have "distinct (map pb_id (sy_queue ?s))" using q fresh by (simp add: queue_inv_def)
    moreover have "\<forall>b\<in>set (sy_queue ?s). b \<in> set (sy_group ?s) \<or> b \<in> set (wl_pending (sy_w ?s)) \<or> wl_done (sy_w ?s) (pb_id b) \<noteq> None"
      using q unfolding queue_inv_def by (simp add: w') blast
    moreover have "\<forall>b\<in>set (sy_group ?s) \<union> set (wl_pending (sy_w ?s)). wl_done (sy_w ?s) (pb_id b) = None"
      using q none unfolding queue_inv_def by (simp add: w')
    moreover have "dom (wl_done (sy_w ?s)) \<subseteq> pb_id ` set (sy_queue ?s)" using q unfolding queue_inv_def by (simp add: w') blast
    moreover have "\<forall>b\<in>set (sy_queue ?s). wf_batch b" using q pb(1) unfolding queue_inv_def by simp
    moreover have "wl_writing (sy_w ?s)" "wl_err (sy_w ?s) = None" using False by (simp_all add: w')
    moreover have "sy_queue ?s = sy_queue s @ [pb]" by simp
    ultimately show ?thesis unfolding queue_inv_def by (intro conjI impI) (assumption | simp only:)+
  qed
  ultimately have "wal_inv ?s" using inv by (auto simp: wal_inv_def w')
  then show ?thesis using w'(2) by simp
qed

lemma take_inv:
  assumes inv: "wal_inv s" and wr: "wl_writing (sy_w s)" "sy_group s = []" and w: "commit_take (sy_w s) = (g, w)"
  shows "wal_inv (s\<lparr>sy_w := w, sy_group := (case g of None \<Rightarrow> [] | Some batch \<Rightarrow> batch)\<rparr>)"
proof -
  let ?p = "wl_pending (sy_w s)" and ?s = "s\<lparr>sy_w := w, sy_group := (case g of None \<Rightarrow> [] | Some batch \<Rightarrow> batch)\<rparr>"
  obtain k where k: "durable_upto s k" using inv by (auto simp: wal_inv_def)
  have q: "queue_inv s" using inv by (simp add: wal_inv_def)
  note qd = queue_invD [OF q]
  obtain rest where r: "sy_queue s = tried s @ rest" "set ?p \<subseteq> set rest" "wl_err (sy_w s) = None \<longrightarrow> rest = ?p"
    using q wr(2) by (auto simp: queue_inv_def)
  have "wl_jw w = wl_jw (sy_w s) \<and> durable_upto ?s k \<and> queue_inv ?s"
  proof (cases "?p = []")
    case True
    then have w': "g = None" "w = (sy_w s)\<lparr>wl_pending := [], wl_writing := False\<rparr>" using w by (auto simp: commit_take_def)
    have "durable_upto ?s k" by (rule durable_upto_advance [OF k]) (simp_all add: w')
    moreover have "queue_inv ?s" by (rule queue_invI [of _ rest]) (use r qd True wr in \<open>simp_all add: w'\<close>)
    ultimately show ?thesis by (simp add: w')
  next
    case p: False
    show ?thesis
    proof (cases "wl_err (sy_w s)")
      case None
      then have w': "g = Some ?p" "w = (sy_w s)\<lparr>wl_pending := []\<rparr>" using w p by (auto simp: commit_take_def)
      have "durable_upto ?s k" by (rule durable_upto_advance [OF k]) (simp_all add: w')
      moreover have "queue_inv ?s" by (rule queue_invI [of _ "[]"]) (use r qd None wr in \<open>simp_all add: w'\<close>)
      ultimately show ?thesis by (simp add: w')
    next
      case (Some err)
      define w0 where "w0 = (sy_w s)\<lparr>wl_pending := []\<rparr>"
      have w': "g = None" "w = fail_all ?p err w0" using w p Some by (auto simp: commit_take_def w0_def)
      have f: "answers_group ?p w0 w" "\<forall>i\<in>pb_id ` set ?p. wl_done w i = Some (Some err)" using fail_all_ok [of ?p w0 err] by (simp_all add: w')
      have fs: "wl_jw w = wl_jw (sy_w s)" "wl_pending w = []" "wl_err w = Some err" "wl_applied w = wl_applied (sy_w s)" "wl_sync w = wl_sync (sy_w s)"
        "wl_apply w = wl_apply (sy_w s)" "wl_writing w" and d: "\<And>i. i \<notin> pb_id ` set ?p \<Longrightarrow> wl_done w i = wl_done (sy_w s) i"
        using f(1) Some wr(1) by (simp_all add: answers_group_def same_setup_def w0_def)
      have na: "\<not> acked ?s pb" if "\<not> acked s pb" for pb using that bspec [OF f(2), of "pb_id pb"] d [of "pb_id pb"] by (cases "pb_id pb \<in> pb_id ` set ?p") (simp_all add: acked_def)
      have "durable_upto ?s k" using k na Some unfolding durable_upto_def by (simp add: fs w'(1))
      moreover have "dom (wl_done w) \<subseteq> pb_id ` set (sy_queue s)"
      proof
        fix i assume i: "i \<in> dom (wl_done w)"
        have "set ?p \<subseteq> set (sy_queue s)" using r(2) unfolding r(1) by auto
        moreover have "i \<in> dom (wl_done (sy_w s))" if "i \<notin> pb_id ` set ?p" using i d [OF that] by (simp add: domIff)
        ultimately show "i \<in> pb_id ` set (sy_queue s)" using qd(8) by blast
      qed
      moreover have "\<forall>pb\<in>set (sy_queue s). wl_done w (pb_id pb) \<noteq> None" using qd(6) wr(2) f(2) d by (metis empty_iff image_eqI list.set(1) option.distinct(1))
      ultimately show ?thesis using r qd wr Some by (intro conjI queue_invI [of _ rest]) (simp_all add: fs w'(1))
    qed
  qed
  then show ?thesis using inv by (simp add: wal_inv_def) blast
qed

lemma applyGroup_ok:
  assumes "applyGroup pbs w = (e, w')"
  shows "same_setup w w'" "wl_jw w' = wl_jw w" "wl_pending w' = wl_pending w" "wl_err w' = wl_err w" "wl_done w' = wl_done w"
    "prefix (wl_applied w) (wl_applied w')" "prefix (wl_applied w') (wl_applied w @ map pb_entries pbs)"
    "e = None \<Longrightarrow> wl_apply w \<noteq> None \<Longrightarrow> wl_applied w' = wl_applied w @ map pb_entries pbs"
  using assms applyBatches_ok [of "the (wl_apply w)" pbs w e w'] by (auto simp: applyGroup_def same_setup_def split: option.splits)

lemma commit_group_ok:
  assumes w: "commit_group batch w = w'" and h: "wl_err w = None" and g: "writeGroup batch w = (e, w1)" and j: "journal_only w w1"
  shows "same_setup w w' \<and> wl_jw w' = wl_jw w1 \<and> wl_pending w' = wl_pending w
    \<and> prefix (wl_applied w) (wl_applied w') \<and> prefix (wl_applied w') (wl_applied w @ map pb_entries batch)
    \<and> (\<forall>i. (i \<in> pb_id ` set batch \<longrightarrow> wl_done w' i \<noteq> None) \<and> (i \<notin> pb_id ` set batch \<longrightarrow> wl_done w' i = wl_done w i))
    \<and> (if wl_err w' = None then e = None \<and> (wl_apply w \<noteq> None \<longrightarrow> wl_applied w' = wl_applied w @ map pb_entries batch)
       else \<forall>i\<in>pb_id ` set batch. wl_done w' i \<noteq> Some None)"
proof -
  obtain e2 w2 where a: "applyGroup batch w1 = (e2, w2)" by fastforce
  note ag = applyGroup_ok [OF a]
  have F: ?thesis if w': "w' = fail_all batch x (poison x w0)" and same: "same_setup w w0" "wl_jw w0 = wl_jw w1" "wl_pending w0 = wl_pending w"
      "wl_err w0 = None" "wl_done w0 = wl_done w" "prefix (wl_applied w) (wl_applied w0)" "prefix (wl_applied w0) (wl_applied w @ map pb_entries batch)" for w0 x
  proof -
    have d: "\<forall>i\<in>pb_id ` set batch. wl_done w' i = Some (Some x)" and "answers_group batch (poison x w0) w'"
      using fail_all_ok [of batch "poison x w0" x] by (simp_all add: w')
    then show ?thesis using same by (simp add: answers_group_def same_setup_def poison_def)
  qed
  consider x where "e = Some x" | x where "e = None" "e2 = Some x" | "e = None" "e2 = None" by (cases e; cases e2) auto
  then show ?thesis
  proof cases
    case 1
    show ?thesis by (rule F [of x w1]) (use w g 1 j h in \<open>simp_all add: commit_group_def journal_only_def\<close>)
  next
    case 2
    show ?thesis by (rule F [of x w2]) (use w g a 2 j h ag in \<open>simp_all add: commit_group_def journal_only_def same_setup_def\<close>)
  next
    case 3
    then have "w' = observe_all batch w2" using w g a by (simp add: commit_group_def)
    then have "answers_group batch w2 w'" using observe_all_ok by simp
    then show ?thesis using ag(1-7) ag(8) [OF 3(2)] j h 3(1) by (simp add: answers_group_def same_setup_def journal_only_def)
  qed
qed

lemma group_durable:
  assumes k: "durable_upto s k" and h: "wl_err (sy_w s) = None" and g: "writeGroup batch (sy_w s) = (e, w1)"
    and w: "commit_group batch (sy_w s) = w" and j: "journal_only (sy_w s) w1" "prefix (jfile (wl_jw (sy_w s))) (jfile (wl_jw w1))"
    "e = None \<longrightarrow> jfile (wl_jw w1) = fst (frames 0 (map batch_record (sy_log s @ batch)))"
    and s': "s' = s\<lparr>sy_w := w, sy_group := [], sy_log := sy_log s @ batch,
      sy_synced := (if e = None \<and> wl_sync w then length (jfile (wl_jw w)) else sy_synced s)\<rparr>"
  shows "\<exists>k. durable_upto s' k"
proof -
  note c = commit_group_ok [OF w h g j(1)]
  have k0: "k = length (sy_log s)" using k h by (simp add: durable_upto_def)
  have pre: "prefix (fst (frames 0 (map batch_record (sy_log s)))) (jfile (wl_jw (sy_w s)))" using k by (simp add: durable_upto_def k0)
  have low: "wl_apply (sy_w s) \<noteq> None \<Longrightarrow> wl_applied (sy_w s) = map pb_entries (tried s)"
    using k by (auto simp: durable_upto_def k0 intro: prefix_order.antisym)
  have same: "wl_sync w = wl_sync (sy_w s)" "wl_apply w = wl_apply (sy_w s)" "wl_jw w = wl_jw w1" using c by (simp_all add: same_setup_def)
  show ?thesis
  proof (cases "wl_err w = None")
    case True
    then have "e = None" "wl_apply (sy_w s) \<noteq> None \<longrightarrow> wl_applied w = wl_applied (sy_w s) @ map pb_entries batch" using c by simp_all
    then have "durable_upto s' (length (sy_log s @ batch))" using j(3) low same by (simp add: durable_upto_def s')
    then show ?thesis ..
  next
    case False
    have na: "\<forall>pb\<in>set batch. \<not> acked s' pb" using c False by (simp add: acked_def s')
    have "length (fst (frames 0 (map batch_record (sy_log s)))) \<le> sy_synced s'" if "wl_sync w"
    proof (cases "e = None")
      case True
      then show ?thesis using that prefix_length_le [OF pre] prefix_length_le [OF j(2)] by (simp add: s' same)
    qed (use k k0 that in \<open>auto simp: durable_upto_def s' same\<close>)
    moreover have "prefix (fst (frames 0 (map batch_record (sy_log s)))) (jfile (wl_jw w1))" using pre j(2) by (rule prefix_order.trans)
    moreover have "prefix (map pb_entries (tried s)) (wl_applied w)" "prefix (wl_applied w) (map pb_entries (tried s) @ map pb_entries batch)"
      if "wl_apply (sy_w s) \<noteq> None" using c low [OF that] by simp_all
    ultimately have "durable_upto s' k" using na False by (auto simp: durable_upto_def s' same k0)
    then show ?thesis ..
  qed
qed

lemma group_queue:
  assumes q: "queue_inv s" and b: "sy_group s = batch" "batch \<noteq> []" and g: "writeGroup batch (sy_w s) = (e, w1)"
    and w: "commit_group batch (sy_w s) = w" and j: "journal_only (sy_w s) w1"
  shows "queue_inv (s\<lparr>sy_w := w, sy_group := [], sy_log := sy_log s @ batch, sy_synced := n\<rparr>)" (is "queue_inv ?s")
proof -
  note qd = queue_invD [OF q]
  have h: "wl_err (sy_w s) = None" and wr: "wl_writing (sy_w s)" using qd(1,2) b by simp_all
  note c = commit_group_ok [OF w h g j]
  have r: "sy_queue s = tried s @ batch @ wl_pending (sy_w s)" using q h b by (auto simp: queue_inv_def)
  have ids: "distinct (map pb_id (tried s @ batch @ wl_pending (sy_w s)))" using qd(4) unfolding r .
  have same: "wl_writing w" "wl_pending w = wl_pending (sy_w s)" using c wr by (simp_all add: same_setup_def)
  have d: "\<And>i. i \<in> pb_id ` set batch \<Longrightarrow> wl_done w i \<noteq> None" "\<And>i. i \<notin> pb_id ` set batch \<Longrightarrow> wl_done w i = wl_done (sy_w s) i"
    using c by simp_all
  have "pb_id pb \<notin> pb_id ` set batch" if "pb \<in> set (wl_pending (sy_w s))" for pb using ids that by (auto dest!: imageI [of pb _ pb_id])
  then have pend: "\<forall>pb\<in>set (wl_pending w). wl_done w (pb_id pb) = None" using d(2) qd(7) same(2) by simp
  have dm: "dom (wl_done w) \<subseteq> pb_id ` set (sy_queue s)"
  proof
    fix i assume i: "i \<in> dom (wl_done w)"
    have "set batch \<subseteq> set (sy_queue s)" unfolding r by auto
    moreover have "i \<in> dom (wl_done (sy_w s))" if "i \<notin> pb_id ` set batch" using i d(2) [OF that] by (simp add: domIff)
    ultimately show "i \<in> pb_id ` set (sy_queue s)" using qd(8) by blast
  qed
  have ans: "pb \<in> set (wl_pending w) \<or> wl_done w (pb_id pb) \<noteq> None" if pb: "pb \<in> set (sy_queue s)" for pb
    using bspec [OF qd(6) pb] d [of "pb_id pb"] b(1) same(2) by (cases "pb_id pb \<in> pb_id ` set batch") auto
  show ?thesis
    by (rule queue_invI [of _ "wl_pending w"]) (use qd(3-5) pend dm ans same r in \<open>simp_all only: walSys.simps list.set Un_empty_left append_Nil append_assoc\<close>, auto)
qed

lemma group_inv:
  assumes inv: "wal_inv s" and b: "sy_group s = batch" "batch \<noteq> []" and w: "commit_group batch (sy_w s) = w"
  shows "wal_inv (s\<lparr>sy_w := w, sy_group := [], sy_log := sy_log s @ batch,
      sy_synced := (if fst (writeGroup batch (sy_w s)) = None \<and> wl_sync w then length (jfile (wl_jw w)) else sy_synced s)\<rparr>)"
proof -
  obtain e w1 where g: "writeGroup batch (sy_w s) = (e, w1)" by fastforce
  have q: "queue_inv s" and t: "tracks (wl_jw (sy_w s)) (map batch_record (sy_log s))" using inv by (simp_all add: wal_inv_def)
  obtain k where k: "durable_upto s k" using inv by (auto simp: wal_inv_def)
  have h: "wl_err (sy_w s) = None" using queue_invD(2) [OF q] b by simp
  have "set batch \<subseteq> set (sy_queue s)" using q b(1) unfolding queue_inv_def by force
  then have "\<forall>pb\<in>set batch. pb_entries pb \<noteq> []" using queue_invD(3) [OF q] by (auto simp: wf_batch_def)
  note wg = writeGroup_ok [OF g this t]
  have j: "wl_jw w = wl_jw w1" using commit_group_ok [OF w h g] wg by simp
  show ?thesis (is "wal_inv ?s")
    unfolding wal_inv_def
  proof (intro conjI)
    show "tracks (wl_jw (sy_w ?s)) (map batch_record (sy_log ?s))" using wg by (simp add: j)
    show "sy_synced ?s \<le> length (jfile (wl_jw (sy_w ?s)))"
      using inv wg prefix_length_le [of "jfile (wl_jw (sy_w s))" "jfile (wl_jw w1)"] by (auto simp: j wal_inv_def)
    show "\<exists>k. durable_upto ?s k" by (rule group_durable [OF k h g w]) (use wg g in simp_all)
    show "queue_inv ?s" by (rule group_queue [OF q b g w]) (use wg in simp)
    show "\<forall>(f, l)\<in>set (sy_sealed ?s). f = fst (frames 0 (map batch_record l))" using inv by (simp add: wal_inv_def)
  qed
qed

lemma wal_step_inv: "wal_step s s' \<Longrightarrow> wal_inv s \<Longrightarrow> wal_inv s'"
proof (induction rule: wal_step.induct)
  case (ws_enqueue pb s r w)
  then show ?case by (intro enqueue_inv)
next
  case (ws_take s g w)
  then show ?case by (intro take_inv)
next
  case (ws_group s batch w)
  then show ?case by (intro group_inv)
next
  case (ws_rotate s f cutoff r w)
  then show ?case by (intro rotate_file_inv)
next
  case (ws_close s c r w)
  then show ?case by (intro close_inv)
next
  case (ws_sync s skipped r w)
  then show ?case by (intro sync_inv)
qed

text \<open>The mode and the install function never change.\<close>

lemma wal_step_setup:
  "wal_step s s' \<Longrightarrow> wal_inv s \<Longrightarrow> wl_sync (sy_w s') = wl_sync (sy_w s) \<and> wl_apply (sy_w s') = wl_apply (sy_w s)"
proof (induction rule: wal_step.induct)
  case (ws_enqueue pb s r w)
  then show ?case by (auto simp: enqueue_def Let_def split: if_splits option.splits)
next
  case (ws_take s g w)
  then show ?case using fail_all_ok [of "wl_pending (sy_w s)" "(sy_w s)\<lparr>wl_pending := []\<rparr>"]
    by (auto simp: commit_take_def Let_def answers_group_def same_setup_def split: if_splits option.splits)
next
  case (ws_group s batch w)
  obtain e w1 where g: "writeGroup batch (sy_w s) = (e, w1)" by fastforce
  have q: "queue_inv s" and t: "tracks (wl_jw (sy_w s)) (map batch_record (sy_log s))" using ws_group by (simp_all add: wal_inv_def)
  have "set batch \<subseteq> set (sy_queue s)" using q ws_group(1) unfolding queue_inv_def by force
  then have "\<forall>pb\<in>set batch. pb_entries pb \<noteq> []" using queue_invD(3) [OF q] by (auto simp: wf_batch_def)
  then have "same_setup (sy_w s) w" using commit_group_ok [OF ws_group(3) _ g] queue_invD(2) [OF q] ws_group(1,2) writeGroup_ok [OF g _ t] by simp
  then show ?case by (simp add: same_setup_def)
next
  case (ws_rotate s f cutoff r w)
  then show ?case by (auto simp: wal_rotate_def Let_def split: if_splits option.splits prod.splits)
next
  case (ws_close s c r w)
  then show ?case by (auto simp: wal_Close_def Let_def split: if_splits option.splits prod.splits)
next
  case (ws_sync s skipped r w)
  then show ?case by (auto simp: syncNow_def Let_def split: if_splits option.splits prod.splits)
qed

lemma wal_reach:
  assumes "f_data file = []" "wal_step\<^sup>*\<^sup>* (wal_start file obs install sync) s"
  shows "wal_inv s \<and> wl_sync (sy_w s) = sync \<and> wl_apply (sy_w s) = install"
  using assms(2)
proof (induction rule: rtranclp_induct)
  case base
  show ?case using wal_start_inv [OF assms(1)] by (simp add: wal_start_def newWAL_def)
next
  case (step s1 s2)
  then show ?case using wal_step_inv wal_step_setup by blast
qed

section \<open>What replay recovers\<close>

lemma maxSeq_append [simp]: "maxSeq seq (xs @ ys) = maxSeq (maxSeq seq xs) ys"
  by (simp add: maxSeq_def)

lemma decode_batch: "wf_batch pb \<Longrightarrow> decodeBatch (batch_record pb) = Inr (pb_entries pb)"
  by (simp add: wf_batch_def batch_record_def decodeBatch_encode)

text \<open>Replaying records that hold well-formed, ascending batches gives each of them to the visitor, until it fails.\<close>

fun visit_batches :: "(walEntry list \<Rightarrow> 'v \<Rightarrow> error option \<times> 'v) \<Rightarrow> pendingBatch list \<Rightarrow> u64 \<Rightarrow> 'v \<Rightarrow> u64 \<times> error option \<times> 'v" where
  "visit_batches visit [] seq v = (seq, None, v)"
| "visit_batches visit (pb # bs) seq v =
     (let seq = maxSeq seq (pb_entries pb)
      in case visit (pb_entries pb) v of (Some err, v) \<Rightarrow> (seq, Some err, v) | (None, v) \<Rightarrow> visit_batches visit bs seq v)"

abbreviation ascending :: "pendingBatch list \<Rightarrow> bool" where
  "ascending bs \<equiv> sorted_wrt (\<lambda>a b. Seq (last (pb_entries a)) < Seq (hd (pb_entries b))) bs"

lemma replay_visits:
  "read_all r = (map batch_record bs, IoEOF) \<Longrightarrow> \<forall>pb\<in>set bs. wf_batch pb \<Longrightarrow> ascending bs \<Longrightarrow> \<forall>pb\<in>set bs. prev < Seq (hd (pb_entries pb)) \<Longrightarrow>
   replay_records lenient visit r (seq, prev, v) = visit_batches visit bs seq v"
proof (induction r arbitrary: bs prev seq v rule: read_all.induct)
  case (1 r)
  obtain x r' where n: "Next_record r = (x, r')" by fastforce
  show ?case
  proof (cases bs)
    case Nil
    then show ?thesis using "1.prems"(1) n by (subst replay_records.simps) (auto simp: read_all.simps [of r] split: sum.splits prod.splits)
  next
    case (Cons pb bs')
    then have x: "x = Inr (batch_record pb)" "read_all r' = (map batch_record bs', IoEOF)"
      using "1.prems"(1) n by (auto simp: read_all.simps [of r] split: sum.splits prod.splits)
    have pb: "wf_batch pb" "prev < Seq (hd (pb_entries pb))" using "1.prems" Cons by simp_all
    let ?seq = "maxSeq seq (pb_entries pb)"
    have IH: "replay_records lenient visit r' (?seq, Seq (last (pb_entries pb)), v') = visit_batches visit bs' ?seq v'" for v'
      using "1.IH" [OF n [symmetric] x(1,2)] "1.prems"(2,3) Cons by simp
    obtain err v' where v: "visit (pb_entries pb) v = (err, v')" by fastforce
    have "visit_record lenient visit (batch_record pb) (seq, prev, v) = (err, ?seq, Seq (last (pb_entries pb)), v')"
      using pb v leD [OF less_imp_le [OF pb(2)]] by (auto simp: visit_record_def decode_batch wf_batch_def [of pb])
    then show ?thesis using n x(1) Cons v IH by (subst replay_records.simps) (simp split: option.split)
  qed
qed

lemma visit_batches_collect:
  "visit_batches (\<lambda>batch es. (None, es @ batch)) bs seq v = (maxSeq seq (concat (map pb_entries bs)), None, v @ concat (map pb_entries bs))"
  by (induction bs arbitrary: seq v) (simp_all add: maxSeq_def)

lemma replayWALFileVisit_batches:
  assumes "read_all (newJournalReader f) = (map batch_record bs, IoEOF)" "\<forall>pb\<in>set bs. wf_batch pb" "ascending bs"
  shows "replayWALFileVisit f start lenient False visit v = visit_batches visit bs start v"
proof -
  have "(newJournalReader f)\<lparr>strictTail := False\<rparr> = newJournalReader f" by (simp add: newJournalReader_def)
  moreover have "\<forall>pb\<in>set bs. 0 < Seq (hd (pb_entries pb))" using assms(2) by (simp add: wf_batch_def)
  ultimately show ?thesis using replay_visits [OF assms, of 0 lenient visit start v] by (simp add: replayWALFileVisit_def)
qed

lemma replayWALFile_batches:
  assumes "read_all (newJournalReader f) = (map batch_record bs, IoEOF)" "\<forall>pb\<in>set bs. wf_batch pb" "ascending bs"
  shows "replayWALFile f start = (concat (map pb_entries bs), maxSeq start (concat (map pb_entries bs)), None)"
  by (simp add: replayWALFile_def visit_batches_collect replayWALFileVisit_batches [OF assms])

lemma replay_current:
  assumes inv: "wal_inv s"
  shows "\<exists>k\<le>length (sy_log s). replayWALFile (take n (jfile (wl_jw (sy_w s)))) start
      = (concat (map pb_entries (take k (sy_log s))), maxSeq start (concat (map pb_entries (take k (sy_log s)))), None)
    \<and> ((if wl_sync (sy_w s) then sy_synced s else length (jfile (wl_jw (sy_w s)))) \<le> n \<longrightarrow> (\<forall>pb\<in>set (drop k (sy_log s)). \<not> acked s pb))"
proof -
  let ?f = "jfile (wl_jw (sy_w s))" and ?fr = "\<lambda>bs. fst (frames 0 (map batch_record bs))"
  have q: "queue_inv s" using inv by (simp add: wal_inv_def)
  have "prefix (take n ?f) (?fr (sy_log s))"
    using inv tracks_prefix by (meson wal_inv_def prefix_order.trans take_is_prefix)
  from replay_prefix [OF this] obtain k where k: "k \<le> length (sy_log s)"
    "read_all (newJournalReader (take n ?f)) = (map batch_record (take k (sy_log s)), IoEOF)"
    "k < length (sy_log s) \<longrightarrow> length (take n ?f) < length (?fr (take (Suc k) (sy_log s)))" by (auto simp: take_map)
  obtain rest where r: "sy_queue s = concat (map snd (sy_sealed s)) @ sy_log s @ rest" using q by (auto simp: queue_inv_def)
  have sub: "set (take k (sy_log s)) \<subseteq> set (sy_queue s)" unfolding r using set_take_subset by fastforce
  have "sorted_wrt (\<lambda>a b. Seq (last (pb_entries a)) < Seq (hd (pb_entries b))) (take k (sy_log s))"
    using queue_invD(5) [OF q] unfolding r by (simp add: sorted_wrt_append sorted_wrt_take)
  moreover have "\<forall>pb\<in>set (take k (sy_log s)). wf_batch pb" using queue_invD(3) [OF q] sub by blast
  ultimately have rp: "replayWALFile (take n ?f) start
      = (concat (map pb_entries (take k (sy_log s))), maxSeq start (concat (map pb_entries (take k (sy_log s)))), None)"
    using replayWALFile_batches [OF k(2)] by blast
  obtain d where d: "durable_upto s d" using inv by (auto simp: wal_inv_def)
  have "d \<le> k" if n: "(if wl_sync (sy_w s) then sy_synced s else length ?f) \<le> n"
  proof (rule ccontr)
    assume "\<not> d \<le> k"
    then have kd: "Suc k \<le> d" "d \<le> length (sy_log s)" using d by (auto simp: durable_upto_def)
    have pre: "prefix (?fr (take d (sy_log s))) ?f" using d by (simp add: durable_upto_def)
    have "take d (sy_log s) = take (Suc k) (sy_log s) @ drop (Suc k) (take d (sy_log s))"
      using append_take_drop_id [of "Suc k" "take d (sy_log s)"] kd by (simp add: min_def)
    then have "prefix (?fr (take (Suc k) (sy_log s))) (?fr (take d (sy_log s)))"
      using frames_prefix [of 0 "map batch_record (take (Suc k) (sy_log s))"] by (metis map_append)
    then have "length (?fr (take (Suc k) (sy_log s))) \<le> length (?fr (take d (sy_log s)))" by (rule prefix_length_le)
    moreover have "length (?fr (take d (sy_log s))) \<le> n" "length (?fr (take d (sy_log s))) \<le> length ?f"
      using d n prefix_length_le [OF pre] by (auto simp: durable_upto_def split: if_splits)
    ultimately show False using k(3) kd by simp
  qed
  then have "\<forall>pb\<in>set (drop k (sy_log s)). \<not> acked s pb" if "(if wl_sync (sy_w s) then sy_synced s else length ?f) \<le> n"
    using that d set_drop_subset_set_drop [of d k "sy_log s"] by (auto simp: durable_upto_def)
  then show ?thesis using k(1) rp by blast
qed

lemma acked_applied:
  assumes inv: "wal_inv s" and ap: "wl_apply (sy_w s) \<noteq> None"
  shows "prefix (wl_applied (sy_w s)) (map pb_entries (tried s)) \<and> (\<forall>pb\<in>set (tried s). acked s pb \<longrightarrow> pb_entries pb \<in> set (wl_applied (sy_w s)))"
proof -
  obtain k where k: "durable_upto s k" using inv by (auto simp: wal_inv_def)
  let ?ok = "concat (map snd (sy_sealed s)) @ take k (sy_log s)"
  have pre: "prefix (map pb_entries ?ok) (wl_applied (sy_w s))" "prefix (wl_applied (sy_w s)) (map pb_entries (tried s))"
    using k ap by (simp_all add: durable_upto_def)
  have sub: "set (map pb_entries ?ok) \<subseteq> set (wl_applied (sy_w s))" by (rule set_mono_prefix [OF pre(1)])
  have "tried s = ?ok @ drop k (sy_log s)" by simp
  then have "set (tried s) = set ?ok \<union> set (drop k (sy_log s))" by (metis set_append)
  then have "pb \<in> set ?ok" if pb: "pb \<in> set (tried s)" "acked s pb" for pb using pb k unfolding durable_upto_def by blast
  then show ?thesis using pre(2) sub by (auto simp del: set_append map_append)
qed


text \<open>A healthy run of one batch: accepted, taken, committed, acknowledged.\<close>

definition demoBatch :: pendingBatch where
  "demoBatch = \<lparr>pb_id = 0, pb_entries = [\<lparr>Seq = 1, Kind = walKindPut, Key = [0x61], Value = [1], ExpiresAt = 0\<rparr>]\<rparr>"

definition demoLog :: walSys where
  "demoLog = wal_start \<lparr>f_data = [], f_sched = []\<rparr> None (Some (\<lambda>_. None)) True"


end
