(* ===== verification/Spec2Isabelle.thy ===== *)
theory Spec2Isabelle
  imports Manifest Merge Engine_History Options Wal_Commit
begin

text \<open>
  Verification of levisdb, an embedded log-structured key-value store in Go.
\<close>

end
